(* ===== verification/Prelude.thy ===== *)
theory Prelude
  imports Main "HOL-Library.Word"
begin

text \<open>
  What every component shares: the value of a Rust computation that may panic, its
  sequencing, array indexing, the conversions between \<^verbatim>\<open>isize\<close> and \<^verbatim>\<open>usize\<close>, the
  build-time constants of \<^verbatim>\<open>build.rs\<close>, and the generic lemmas on lists and words that the
  component proofs rest on. The target has 64-bit addresses (riscv64, x86_64).
\<close>

named_theorems level_frames \<open>the operations that leave the privilege levels of the cores as they are\<close>

section \<open>Panics and sequencing\<close>

text \<open>
  Every panic of the source is a value. \<open>Spin\<close> is a busy-wait that was not released within
  the observations it was given; it is no panic of the source but the absence of an answer.
\<close>

datatype panic =
    Index_out_of_bounds
  | Unwrap_failed
  | Assertion_failed
  | Explicit_panic
  | Not_implemented
  | Unreachable
  | Null_pointer
  | Bad_address
  | Spin

type_synonym 'a result = "panic + 'a"

definition and_then :: "'e + 'a \<Rightarrow> ('a \<Rightarrow> 'e + 'b) \<Rightarrow> 'e + 'b" where
  "and_then r f = (case r of Inl e \<Rightarrow> Inl e | Inr x \<Rightarrow> f x)"

lemma and_then_simps [simp]:
  "and_then (Inl e) f = Inl e"
  "and_then (Inr x) f = f x"
  by (simp_all add: and_then_def)

lemma and_then_assoc: "and_then (and_then r f) g = and_then r (\<lambda>x. and_then (f x) g)"
  by (cases r) simp_all

lemma and_then_Inr_iff:
  "and_then r f = Inr y \<longleftrightarrow> (\<exists>x. r = Inr x \<and> f x = Inr y)"
  by (cases r) auto

lemma and_then_InrE:
  assumes "and_then r f = Inr y"
  obtains x where "r = Inr x" "f x = Inr y"
  using assms by (auto simp: and_then_Inr_iff)

text \<open>A match that returns comes from one of its branches.\<close>

lemma case_sum_eq_iff:
  "(case r of Inl x \<Rightarrow> f x | Inr y \<Rightarrow> g y) = z \<longleftrightarrow>
     (\<exists>x. r = Inl x \<and> f x = z) \<or> (\<exists>y. r = Inr y \<and> g y = z)"
  by (cases r) auto

lemma case_prod_Inr_iff:
  "(case p of (a, b) \<Rightarrow> f a b) = Inr z \<longleftrightarrow> (\<exists>a b. p = (a, b) \<and> f a b = Inr z)"
  by (cases p) auto

lemma case_option_Inr_iff:
  "(case x of None \<Rightarrow> f | Some y \<Rightarrow> g y) = Inr z \<longleftrightarrow>
     x = None \<and> f = Inr z \<or> (\<exists>y. x = Some y \<and> g y = Inr z)"
  by (cases x) auto

lemmas Inr_iffs = and_then_Inr_iff case_sum_eq_iff case_prod_Inr_iff case_option_Inr_iff

text \<open>\<^verbatim>\<open>assert!(b)\<close>, \<^verbatim>\<open>opt.unwrap()\<close>, \<^verbatim>\<open>opt.expect(..)\<close> and array indexing.\<close>

definition assert_that :: "bool \<Rightarrow> unit result" where
  "assert_that b = (if b then Inr () else Inl Assertion_failed)"

definition unwrap :: "'a option \<Rightarrow> 'a result" where
  "unwrap x = (case x of None \<Rightarrow> Inl Unwrap_failed | Some a \<Rightarrow> Inr a)"

definition deref :: "'a option \<Rightarrow> 'a result" where
  "deref x = (case x of None \<Rightarrow> Inl Null_pointer | Some a \<Rightarrow> Inr a)"

definition index :: "'a list \<Rightarrow> nat \<Rightarrow> 'a result" where
  "index xs i = (if i < length xs then Inr (xs ! i) else Inl Index_out_of_bounds)"

lemma assert_that_simps [simp]:
  "assert_that True = Inr ()"
  "assert_that False = Inl Assertion_failed"
  "assert_that b = Inr u \<longleftrightarrow> b"
  by (simp_all add: assert_that_def)

lemma unwrap_simps [simp]:
  "unwrap None = Inl Unwrap_failed"
  "unwrap (Some a) = Inr a"
  by (simp_all add: unwrap_def)

lemma deref_simps [simp]:
  "deref None = Inl Null_pointer"
  "deref (Some a) = Inr a"
  by (simp_all add: deref_def)

lemma unwrap_Inr_iff [simp]: "unwrap x = Inr a \<longleftrightarrow> x = Some a"
  by (cases x) auto

lemma deref_Inr_iff [simp]: "deref x = Inr a \<longleftrightarrow> x = Some a"
  by (cases x) auto

lemma index_in [simp]: "i < length xs \<Longrightarrow> index xs i = Inr (xs ! i)"
  by (simp add: index_def)

lemma index_Inr_iff: "index xs i = Inr x \<longleftrightarrow> i < length xs \<and> xs ! i = x"
  by (auto simp: index_def)

text \<open>An update keeps what holds of every element.\<close>

lemma all_set_update:
  "\<forall>y \<in> set xs. P y \<Longrightarrow> P x \<Longrightarrow> \<forall>y \<in> set (xs[k := x]). P y"
  using set_update_subset_insert [of xs k x] by blast

lemma find_append:
  "find P (xs @ ys) = (case find P xs of None \<Rightarrow> find P ys | Some x \<Rightarrow> Some x)"
  by (induction xs) auto

section \<open>Machine integers\<close>

type_synonym u64 = "64 word"

text \<open>\<^verbatim>\<open>x as usize\<close> of an \<^verbatim>\<open>isize\<close>: the two's complement bits read as unsigned.\<close>

definition usize_of_isize :: "int \<Rightarrow> nat" where
  "usize_of_isize i = nat (i mod 2 ^ 64)"

definition isize_MAX :: int where
  "isize_MAX = 2 ^ 63 - 1"

definition usize_MAX :: nat where
  "usize_MAX = 2 ^ 64 - 1"

text \<open>\<^verbatim>\<open>fetch_add(1, ..)\<close> on an \<^verbatim>\<open>AtomicUsize\<close> wraps around.\<close>

definition usize_incr :: "nat \<Rightarrow> nat" where
  "usize_incr n = (n + 1) mod 2 ^ 64"

lemma usize_of_isize_pos [simp]: "0 \<le> i \<Longrightarrow> i < 2 ^ 64 \<Longrightarrow> usize_of_isize i = nat i"
  by (simp add: usize_of_isize_def)

lemma usize_of_isize_neg:
  assumes "i < 0" "- (2 ^ 63) \<le> i"
  shows "2 ^ 63 \<le> usize_of_isize i"
proof -
  have "i mod 2 ^ 64 = (i + 2 ^ 64) mod 2 ^ 64" by simp
  also have "\<dots> = i + 2 ^ 64" using assms by (intro mod_pos_pos_trivial) auto
  finally show ?thesis using assms by (simp add: usize_of_isize_def nat_le_eq_zle le_nat_iff)
qed

lemma usize_incr_small: "n + 1 < 2 ^ 64 \<Longrightarrow> usize_incr n = n + 1"
  by (simp add: usize_incr_def)

text \<open>The bits of a power of two.\<close>

lemma bit_single [simp]: "bit (2 ^ m :: u64) j \<longleftrightarrow> j = m \<and> j < 64"
  by (auto simp: bit_exp_iff)

section \<open>The build-time constants\<close>

text \<open>The constants \<^verbatim>\<open>build.rs\<close> declares, each of which the environment may set.\<close>

record config =
  CPU_NUM :: nat
  EVENT_SORCE_NUM :: nat
  READY_QUEUE_SIZE :: nat
  TRAP_WAIT_QUEUE_SIZE :: nat
  LOWEST_PRIORITY :: int
  HIGHEST_PRIORITY :: int
  PROCESS_NUM :: nat
  STACK_POOL_SIZE :: nat

definition default_config :: config where
  "default_config = \<lparr>
     CPU_NUM = 1, EVENT_SORCE_NUM = 8, READY_QUEUE_SIZE = 256, TRAP_WAIT_QUEUE_SIZE = 256,
     LOWEST_PRIORITY = 15, HIGHEST_PRIORITY = 0, PROCESS_NUM = 256, STACK_POOL_SIZE = 16\<rparr>"

text \<open>
  The constants a build accepts: at least one core and one process, a non-empty priority
  range of at most 64 levels (\<^verbatim>\<open>ReadyQueue::new\<close> asserts it at compile time), room for the
  two sources every scheduler starts with, and magnitudes that stay away from the limits of
  the 64-bit integers.
\<close>

definition config_ok :: "config \<Rightarrow> bool" where
  "config_ok c \<longleftrightarrow>
     0 < CPU_NUM c \<and> CPU_NUM c \<le> TRAP_WAIT_QUEUE_SIZE c \<and>
     2 \<le> EVENT_SORCE_NUM c \<and> 0 < PROCESS_NUM c \<and> PROCESS_NUM c < 2 ^ 62 \<and>
     HIGHEST_PRIORITY c \<le> LOWEST_PRIORITY c \<and>
     LOWEST_PRIORITY c - HIGHEST_PRIORITY c < 64 \<and>
     - (2 ^ 62) \<le> HIGHEST_PRIORITY c \<and> LOWEST_PRIORITY c < 2 ^ 62"

lemma default_config_ok: "config_ok default_config"
  by (simp add: config_ok_def default_config_def)

lemma default_config_sel [simp]:
  "CPU_NUM default_config = 1" "EVENT_SORCE_NUM default_config = 8"
  "READY_QUEUE_SIZE default_config = 256" "TRAP_WAIT_QUEUE_SIZE default_config = 256"
  "LOWEST_PRIORITY default_config = 15" "HIGHEST_PRIORITY default_config = 0"
  "PROCESS_NUM default_config = 256" "STACK_POOL_SIZE default_config = 16"
  by (simp_all add: default_config_def)

lemma default_prios [simp]: "[0..15 :: int] = [0, 1, 2, 3, 4, 5, 6, 7, 8, 9, 10, 11, 12, 13, 14, 15]"
  by (simp add: upto_rec1)

lemma config_okD:
  assumes "config_ok c"
  shows "0 < CPU_NUM c" "CPU_NUM c \<le> TRAP_WAIT_QUEUE_SIZE c" "2 \<le> EVENT_SORCE_NUM c"
    "0 < PROCESS_NUM c" "PROCESS_NUM c < 2 ^ 62"
    "HIGHEST_PRIORITY c \<le> LOWEST_PRIORITY c" "LOWEST_PRIORITY c - HIGHEST_PRIORITY c < 64"
    "- (2 ^ 62) \<le> HIGHEST_PRIORITY c" "LOWEST_PRIORITY c < 2 ^ 62"
  using assms by (simp_all add: config_ok_def)

end
