(* ===== verification/Heapless.thy ===== *)
theory Heapless
  imports Prelude
begin

text \<open>
  The containers of the \<^verbatim>\<open>heapless\<close> crate are not part of the repository: their operations
  are parameters of the model, records of functions over the content of a container, and the
  behaviour the crate documents is stated by the law predicates \<open>deque_laws\<close>, \<open>vec_laws\<close> and
  \<open>index_map_laws\<close>, which properties name as hypotheses. The content of a \<^verbatim>\<open>Deque\<close> is the
  list of its elements, front first; of a \<^verbatim>\<open>Vec\<close> the list of its elements; of the
  \<^verbatim>\<open>FnvIndexMap\<close> from stack addresses to the stacks at these addresses the list of the keys.
\<close>

section \<open>The bounded double-ended queue\<close>

text \<open>\<open>None\<close> of \<open>dq_push_back\<close> is \<^verbatim>\<open>Err(value)\<close>: the queue is full and unchanged.\<close>

record 'a deque_ops =
  dq_new :: "'a list"
  dq_push_back :: "'a list \<Rightarrow> 'a \<Rightarrow> 'a list option"
  dq_pop_front :: "'a list \<Rightarrow> ('a \<times> 'a list) option"
  dq_front :: "'a list \<Rightarrow> 'a option"
  dq_is_empty :: "'a list \<Rightarrow> bool"
  dq_len :: "'a list \<Rightarrow> nat"

definition deque_laws :: "nat \<Rightarrow> 'a deque_ops \<Rightarrow> bool" where
  "deque_laws N D \<longleftrightarrow>
     dq_new D = [] \<and>
     (\<forall>q x. dq_push_back D q x = (if length q < N then Some (q @ [x]) else None)) \<and>
     (\<forall>q. dq_pop_front D q = (case q of [] \<Rightarrow> None | x # q' \<Rightarrow> Some (x, q'))) \<and>
     (\<forall>q. dq_front D q = (case q of [] \<Rightarrow> None | x # _ \<Rightarrow> Some x)) \<and>
     (\<forall>q. dq_is_empty D q \<longleftrightarrow> q = []) \<and>
     (\<forall>q. dq_len D q = length q)"

lemma deque_lawsD:
  assumes "deque_laws N D"
  shows "dq_new D = []"
    "dq_push_back D q x = (if length q < N then Some (q @ [x]) else None)"
    "dq_pop_front D q = (case q of [] \<Rightarrow> None | y # q' \<Rightarrow> Some (y, q'))"
    "dq_front D q = (case q of [] \<Rightarrow> None | y # _ \<Rightarrow> Some y)"
    "dq_is_empty D q \<longleftrightarrow> q = []"
    "dq_len D q = length q"
  using assms by (simp_all add: deque_laws_def)

text \<open>A concrete queue that satisfies the laws, for the witnesses.\<close>

definition list_deque :: "nat \<Rightarrow> 'a deque_ops" where
  "list_deque N = \<lparr>
     dq_new = [],
     dq_push_back = (\<lambda>q x. if length q < N then Some (q @ [x]) else None),
     dq_pop_front = (\<lambda>q. case q of [] \<Rightarrow> None | x # q' \<Rightarrow> Some (x, q')),
     dq_front = (\<lambda>q. case q of [] \<Rightarrow> None | x # _ \<Rightarrow> Some x),
     dq_is_empty = (\<lambda>q. q = []),
     dq_len = length\<rparr>"

lemma list_deque_laws [simp, intro]: "deque_laws N (list_deque N)"
  by (simp add: deque_laws_def list_deque_def)

section \<open>The bounded vector\<close>

text \<open>
  \<open>vec_push\<close> and \<open>vec_insert\<close> give \<open>None\<close> where the vector is full (\<^verbatim>\<open>Err\<close>); inserting
  behind the end and removing outside the vector panic.
\<close>

record 'a vec_ops =
  vec_new :: "'a list"
  vec_from :: "'a list \<Rightarrow> 'a list"
  vec_push :: "'a list \<Rightarrow> 'a \<Rightarrow> 'a list option"
  vec_insert :: "'a list \<Rightarrow> nat \<Rightarrow> 'a \<Rightarrow> 'a list option result"
  vec_remove :: "'a list \<Rightarrow> nat \<Rightarrow> 'a list result"

definition vec_laws :: "nat \<Rightarrow> 'a vec_ops \<Rightarrow> bool" where
  "vec_laws N V \<longleftrightarrow>
     vec_new V = [] \<and>
     (\<forall>xs. length xs \<le> N \<longrightarrow> vec_from V xs = xs) \<and>
     (\<forall>v x. vec_push V v x = (if length v < N then Some (v @ [x]) else None)) \<and>
     (\<forall>v i x. vec_insert V v i x =
        (if length v < i then Inl Explicit_panic
         else if length v < N then Inr (Some (take i v @ [x] @ drop i v)) else Inr None)) \<and>
     (\<forall>v i. vec_remove V v i =
        (if i < length v then Inr (take i v @ drop (Suc i) v) else Inl Explicit_panic))"

lemma vec_lawsD:
  assumes "vec_laws N V"
  shows "vec_new V = []"
    "length xs \<le> N \<Longrightarrow> vec_from V xs = xs"
    "vec_push V v x = (if length v < N then Some (v @ [x]) else None)"
    "vec_insert V v i x =
       (if length v < i then Inl Explicit_panic
        else if length v < N then Inr (Some (take i v @ [x] @ drop i v)) else Inr None)"
    "vec_remove V v i =
       (if i < length v then Inr (take i v @ drop (Suc i) v) else Inl Explicit_panic)"
  using assms by (simp_all add: vec_laws_def)

definition list_vec :: "nat \<Rightarrow> 'a vec_ops" where
  "list_vec N = \<lparr>
     vec_new = [],
     vec_from = (\<lambda>xs. xs),
     vec_push = (\<lambda>v x. if length v < N then Some (v @ [x]) else None),
     vec_insert = (\<lambda>v i x. if length v < i then Inl Explicit_panic
        else if length v < N then Inr (Some (take i v @ [x] @ drop i v)) else Inr None),
     vec_remove = (\<lambda>v i. if i < length v then Inr (take i v @ drop (Suc i) v)
        else Inl Explicit_panic)\<rparr>"

lemma list_vec_laws [simp, intro]: "vec_laws N (list_vec N)"
  by (simp add: vec_laws_def list_vec_def)

section \<open>The bounded map from stack addresses\<close>

text \<open>
  The map of the stack pool has a stack's address as the key of the stack itself, so its
  content is the list of the keys. \<open>im_first\<close> is \<^verbatim>\<open>iter().next()\<close>, whose order the crate
  leaves open; \<open>im_remove\<close> removes a key and reports whether it was there; \<open>im_insert\<close> of a
  new key gives \<open>None\<close> (\<^verbatim>\<open>Err\<close>) where the map is full.
\<close>

record index_map_ops =
  im_new :: "nat list"
  im_first :: "nat list \<Rightarrow> nat option"
  im_remove :: "nat list \<Rightarrow> nat \<Rightarrow> bool \<times> nat list"
  im_insert :: "nat list \<Rightarrow> nat \<Rightarrow> nat list option"

definition index_map_laws :: "nat \<Rightarrow> index_map_ops \<Rightarrow> bool" where
  "index_map_laws N M \<longleftrightarrow>
     im_new M = [] \<and>
     (\<forall>m. im_first M m = None \<longleftrightarrow> m = []) \<and>
     (\<forall>m a. im_first M m = Some a \<longrightarrow> a \<in> set m) \<and>
     (\<forall>m a. distinct m \<longrightarrow> fst (im_remove M m a) = (a \<in> set m) \<and>
        set (snd (im_remove M m a)) = set m - {a} \<and> distinct (snd (im_remove M m a))) \<and>
     (\<forall>m a. distinct m \<and> a \<notin> set m \<longrightarrow>
        (if length m < N
         then (\<exists>m'. im_insert M m a = Some m' \<and> set m' = insert a (set m) \<and> distinct m')
         else im_insert M m a = None))"

definition list_index_map :: "nat \<Rightarrow> index_map_ops" where
  "list_index_map N = \<lparr>
     im_new = [],
     im_first = (\<lambda>m. case m of [] \<Rightarrow> None | a # _ \<Rightarrow> Some a),
     im_remove = (\<lambda>m a. (a \<in> set m, remove1 a m)),
     im_insert = (\<lambda>m a. if length m < N then Some (m @ [a]) else None)\<rparr>"

lemma list_index_map_laws [simp, intro]: "index_map_laws N (list_index_map N)"
  by (auto simp: index_map_laws_def list_index_map_def set_remove1_eq split: list.splits)

end
