(* ===== verification/Interface.thy ===== *)
theory Interface
  imports Heapless
begin

text \<open>
  \<^verbatim>\<open>src/interface.rs\<close>: the task states and the part of the trait \<^verbatim>\<open>Task\<close> that the
  interface file specifies as accessors of a task control block. A task is named by the
  address of its control block; the record \<open>tcb\<close> holds what the accessors read and write.
  The traits whose effects only the operating system knows (\<^verbatim>\<open>Task::poll\<close>, \<^verbatim>\<open>TrapInfo\<close>,
  \<^verbatim>\<open>Stack\<close>, \<^verbatim>\<open>VSpace\<close>, \<^verbatim>\<open>UserData\<close>) are parameters of the theories that call them.
\<close>

type_synonym task = nat

datatype TaskState = Ready | Running | Blocked | Exited | Blocking

text \<open>The representation \<^verbatim>\<open>repr(u8)\<close> of a state.\<close>

fun TaskState_repr :: "TaskState \<Rightarrow> 8 word" where
  "TaskState_repr Ready = 0"
| "TaskState_repr Running = 1"
| "TaskState_repr Blocked = 2"
| "TaskState_repr Exited = 3"
| "TaskState_repr Blocking = 4"

lemma TaskState_repr_inject [simp]: "TaskState_repr a = TaskState_repr b \<longleftrightarrow> a = b"
  by (cases a; cases b) simp_all

instantiation TaskState :: enum
begin

definition enum_TaskState :: "TaskState list" where
  "enum_TaskState = [Ready, Running, Blocked, Exited, Blocking]"

definition enum_all_TaskState :: "(TaskState \<Rightarrow> bool) \<Rightarrow> bool" where
  "enum_all_TaskState P \<longleftrightarrow> P Ready \<and> P Running \<and> P Blocked \<and> P Exited \<and> P Blocking"

definition enum_ex_TaskState :: "(TaskState \<Rightarrow> bool) \<Rightarrow> bool" where
  "enum_ex_TaskState P \<longleftrightarrow> P Ready \<or> P Running \<or> P Blocked \<or> P Exited \<or> P Blocking"

instance
proof
  have U: "(UNIV :: TaskState set) = {Ready, Running, Blocked, Exited, Blocking}"
  proof (rule set_eqI)
    show "x \<in> UNIV \<longleftrightarrow> x \<in> {Ready, Running, Blocked, Exited, Blocking}" for x :: TaskState
      by (cases x) simp_all
  qed
  show "(UNIV :: TaskState set) = set enum_class.enum"
    by (simp add: U enum_TaskState_def)
  show "distinct (enum_class.enum :: TaskState list)"
    by (simp add: enum_TaskState_def)
  show "enum_class.enum_all P \<longleftrightarrow> Ball UNIV P" for P :: "TaskState \<Rightarrow> bool"
    by (simp add: U enum_all_TaskState_def)
  show "enum_class.enum_ex P \<longleftrightarrow> Bex UNIV P" for P :: "TaskState \<Rightarrow> bool"
    by (simp add: U enum_ex_TaskState_def)
qed

end

record tcb =
  t_state :: TaskState
  t_priority :: int
  t_is_coroutine :: bool
  t_is_kernel :: bool
  t_pid :: nat
  t_thread_stack :: nat
  t_return_value :: "int option"
  t_dealloced :: bool

type_synonym tcbs = "task \<Rightarrow> tcb"

section \<open>State changes of a task\<close>

text \<open>\<^verbatim>\<open>set_state\<close> and \<^verbatim>\<open>match_set_state\<close> change the state and return the old one, in one
  atomic step.\<close>

definition set_state :: "tcbs \<Rightarrow> task \<Rightarrow> TaskState \<Rightarrow> TaskState \<times> tcbs" where
  "set_state T t st = (t_state (T t), T(t := (T t)\<lparr>t_state := st\<rparr>))"

fun match_state ::
  "TaskState \<Rightarrow> TaskState \<Rightarrow> TaskState \<Rightarrow> TaskState \<Rightarrow> TaskState \<Rightarrow> TaskState \<Rightarrow> TaskState" where
  "match_state from_ready from_running from_blocked from_exited from_blocking Ready = from_ready"
| "match_state from_ready from_running from_blocked from_exited from_blocking Running = from_running"
| "match_state from_ready from_running from_blocked from_exited from_blocking Blocked = from_blocked"
| "match_state from_ready from_running from_blocked from_exited from_blocking Exited = from_exited"
| "match_state from_ready from_running from_blocked from_exited from_blocking Blocking = from_blocking"

definition match_set_state ::
  "tcbs \<Rightarrow> task \<Rightarrow> TaskState \<Rightarrow> TaskState \<Rightarrow> TaskState \<Rightarrow> TaskState \<Rightarrow> TaskState \<Rightarrow> TaskState \<times> tcbs" where
  "match_set_state T t from_ready from_running from_blocked from_exited from_blocking =
     (t_state (T t),
      T(t := (T t)\<lparr>t_state :=
        match_state from_ready from_running from_blocked from_exited from_blocking (t_state (T t))\<rparr>))"

definition set_pid :: "tcbs \<Rightarrow> task \<Rightarrow> nat \<Rightarrow> tcbs" where
  "set_pid T t p = T(t := (T t)\<lparr>t_pid := p\<rparr>)"

definition set_return_value :: "tcbs \<Rightarrow> task \<Rightarrow> int \<Rightarrow> tcbs" where
  "set_return_value T t v = T(t := (T t)\<lparr>t_return_value := Some v\<rparr>)"

definition dealloc_task :: "tcbs \<Rightarrow> task \<Rightarrow> tcbs" where
  "dealloc_task T t = T(t := (T t)\<lparr>t_dealloced := True\<rparr>)"

lemmas task_ops = set_state_def match_set_state_def set_pid_def set_return_value_def dealloc_task_def

lemma match_set_state_other [simp]:
  "t' \<noteq> t \<Longrightarrow> snd (match_set_state T t a b c d e) t' = T t'"
  by (simp add: match_set_state_def)

end
