(* ===== verification/Event_Source.thy ===== *)
theory Event_Source
  imports Interface
begin

text \<open>
  \<^verbatim>\<open>src/schedule/event_source.rs\<close>: the table of functions through which a scheduler calls an
  event source, and the contract of the trait \<^verbatim>\<open>EventSource\<close> as the locale \<open>event_source\<close>.
  An address is either a kernel address of an object or of a piece of code, or the address in
  one user space of the same object or code.
\<close>

section \<open>Addresses\<close>

text \<open>
  The objects a scheduler's table points to: the trap wait queue and the ready queue inside a
  scheduler (named by the space that holds the scheduler), the code of the two functions of
  each implementation, objects outside the repository, and the variable \<^verbatim>\<open>USER_SCHEDULER\<close> of a
  vDSO image.
\<close>

datatype es_type = TRAP_WAIT_QUEUE | READY_QUEUE | EXTERNAL nat

datatype target =
    Source es_type nat
  | Hightest_priority_impl es_type
  | Take_task_impl es_type
  | USER_SCHEDULER_var

datatype ptr = Null | Kern target | User nat target

text \<open>
  A jump or an access in one privilege level reaches its target through an address of that
  level; with another address it faults.
\<close>

fun reach :: "bool \<Rightarrow> nat \<Rightarrow> ptr \<Rightarrow> target result" where
  "reach in_kernel space (Kern x) = (if in_kernel then Inr x else Inl Bad_address)"
| "reach in_kernel space (User v x) =
     (if \<not> in_kernel \<and> v = space then Inr x else Inl Bad_address)"
| "reach in_kernel space Null = Inl Null_pointer"

section \<open>The function table\<close>

record vtable =
  kernel_hightest_priority :: ptr
  user_hightest_priority :: ptr
  kernel_take_task :: ptr
  user_take_task :: ptr
  is_prio_per_cpu :: bool

definition EventSourceVtable_new :: "ptr \<Rightarrow> ptr \<Rightarrow> ptr \<Rightarrow> ptr \<Rightarrow> bool \<Rightarrow> vtable" where
  "EventSourceVtable_new khp uhp ktt utt per_cpu = \<lparr>
     kernel_hightest_priority = khp,
     user_hightest_priority = uhp,
     kernel_take_task = ktt,
     user_take_task = utt,
     is_prio_per_cpu = per_cpu\<rparr>"

text \<open>
  \<^verbatim>\<open>EventSource::vtable\<close>: the kernel's addresses of the implementation, for both levels.
\<close>

definition vtable_of :: "es_type \<Rightarrow> bool \<Rightarrow> vtable" where
  "vtable_of ty per_cpu =
     EventSourceVtable_new
       (Kern (Hightest_priority_impl ty)) (Kern (Hightest_priority_impl ty))
       (Kern (Take_task_impl ty)) (Kern (Take_task_impl ty)) per_cpu"

text \<open>
  \<^verbatim>\<open>with_user\<close>: the translation of a kernel address into the user space \<open>v\<close> is the parameter
  \<open>get_user_addr\<close> (the trait \<^verbatim>\<open>UserData\<close>; its arguments are the address, the length and the
  user space).
\<close>

type_synonym get_user_addr = "ptr \<Rightarrow> nat \<Rightarrow> nat option \<Rightarrow> ptr"

definition with_user :: "get_user_addr \<Rightarrow> vtable \<Rightarrow> nat \<Rightarrow> vtable result" where
  "with_user gua vt vspace =
     (let hp = gua (kernel_hightest_priority vt) 1 (Some vspace);
          tt = gua (kernel_take_task vt) 1 (Some vspace)
      in and_then (assert_that (hp \<noteq> Null \<and> tt \<noteq> Null)) (\<lambda>_.
         Inr (vt\<lparr>user_hightest_priority := hp, user_take_task := tt\<rparr>)))"

text \<open>The functions the table selects for the current privilege level.\<close>

definition vt_hightest_priority :: "vtable \<Rightarrow> bool \<Rightarrow> ptr" where
  "vt_hightest_priority vt in_kernel =
     (if in_kernel then kernel_hightest_priority vt else user_hightest_priority vt)"

definition vt_take_task :: "vtable \<Rightarrow> bool \<Rightarrow> ptr" where
  "vt_take_task vt in_kernel = (if in_kernel then kernel_take_task vt else user_take_task vt)"

text \<open>The documented behaviour of the translation: where it succeeds it gives the address of
  the same object in the requested user space.\<close>

definition user_addr_laws :: "get_user_addr \<Rightarrow> bool" where
  "user_addr_laws gua \<longleftrightarrow>
     (\<forall>x len v. gua (Kern x) len (Some v) = Null \<or> gua (Kern x) len (Some v) = User v x)"

text \<open>
  With translated addresses a call never faults, in the kernel and in the user space the
  table was made for.
\<close>

lemma with_user_reach:
  assumes "user_addr_laws gua" "with_user gua (vtable_of ty pc) v = Inr vt"
  shows "reach ik v (vt_hightest_priority vt ik) = Inr (Hightest_priority_impl ty)"
    and "reach ik v (vt_take_task vt ik) = Inr (Take_task_impl ty)"
    and "is_prio_per_cpu vt = pc"
proof -
  let ?h = "gua (Kern (Hightest_priority_impl ty)) 1 (Some v)"
  let ?t = "gua (Kern (Take_task_impl ty)) 1 (Some v)"
  from assms(2) have nn: "?h \<noteq> Null" "?t \<noteq> Null"
    and vt: "vt = (vtable_of ty pc)\<lparr>user_hightest_priority := ?h, user_take_task := ?t\<rparr>"
    by (auto simp: with_user_def and_then_Inr_iff vtable_of_def EventSourceVtable_new_def Let_def)
  from assms(1) nn have "?h = User v (Hightest_priority_impl ty)" "?t = User v (Take_task_impl ty)"
    unfolding user_addr_laws_def by blast+
  with vt show "reach ik v (vt_hightest_priority vt ik) = Inr (Hightest_priority_impl ty)"
    and "reach ik v (vt_take_task vt ik) = Inr (Take_task_impl ty)"
    and "is_prio_per_cpu vt = pc"
    by (cases ik; simp add: vt_hightest_priority_def vt_take_task_def vtable_of_def
        EventSourceVtable_new_def)+
qed

section \<open>The contract of an event source\<close>

text \<open>
  What the scheduler may rely on: \<open>hp\<close> is the reported priority, \<open>take_task\<close> the removal of a
  task, \<open>pending\<close> says whether the source has something to run on a core. The priority that
  \<open>take_task\<close> reports with the task is only required not to lie behind the source's
  priority after the removal: a source may report a priority that is too urgent, never one
  that hides pending work.
\<close>

locale event_source =
  fixes invar :: "'s \<Rightarrow> bool"
    and pending :: "'s \<Rightarrow> nat \<Rightarrow> bool"
    and hp :: "'s \<Rightarrow> nat \<Rightarrow> int"
    and take_task :: "'s \<Rightarrow> nat \<Rightarrow> ((task option \<times> int) \<times> 's) result"
    and highest :: int
    and lowest :: int
  assumes hp_pending: "invar s \<Longrightarrow> hp s cpu \<le> lowest \<longleftrightarrow> pending s cpu"
    and hp_bounds: "invar s \<Longrightarrow> highest \<le> hp s cpu \<and> hp s cpu \<le> lowest + 1"
    and take_idle: "invar s \<Longrightarrow> \<not> pending s cpu \<Longrightarrow>
          take_task s cpu = Inr ((None, lowest + 1), s)"
    and take_some: "invar s \<Longrightarrow> pending s cpu \<Longrightarrow>
          take_task s cpu = Inr ((r, p), s') \<Longrightarrow> r \<noteq> None"
    and take_invar: "invar s \<Longrightarrow> take_task s cpu = Inr (rp, s') \<Longrightarrow> invar s'"
    and take_prio: "invar s \<Longrightarrow> take_task s cpu = Inr ((r, p), s') \<Longrightarrow> p \<le> hp s' cpu"
begin

lemma idle_hp: "invar s \<Longrightarrow> \<not> pending s cpu \<Longrightarrow> hp s cpu = lowest + 1"
  using hp_pending [of s cpu] hp_bounds [of s cpu] by linarith

lemma take_None_iff:
  assumes "invar s" "take_task s cpu = Inr ((r, p), s')"
  shows "r = None \<longleftrightarrow> \<not> pending s cpu"
  using assms take_idle take_some by fastforce

lemma take_None_unchanged:
  assumes "invar s" "take_task s cpu = Inr ((None, p), s')"
  shows "s' = s \<and> p = lowest + 1"
proof -
  from assms take_None_iff have "\<not> pending s cpu" by blast
  from take_idle [OF assms(1) this] assms(2) show ?thesis by simp
qed

lemma take_reports_pending:
  assumes "invar s" "take_task s cpu = Inr ((r, p), s')" "pending s' cpu"
  shows "p \<le> lowest"
  using assms hp_pending [of s' cpu] take_invar take_prio by fastforce

end

section \<open>What a translated table guarantees\<close>

text \<open>
  The table of functions made for an address space selects, in the kernel and in that
  address space, addresses that reach the two functions of the implementation; it is made
  exactly when both translations succeed.
\<close>

lemma with_user_reaches:
  assumes "user_addr_laws gua"
  shows "if gua (Kern (Hightest_priority_impl ty)) 1 (Some v) = Null \<or>
        gua (Kern (Take_task_impl ty)) 1 (Some v) = Null
    then with_user gua (vtable_of ty pc) v = Inl Assertion_failed
    else \<exists>vt. with_user gua (vtable_of ty pc) v = Inr vt \<and> is_prio_per_cpu vt = pc \<and>
      reach ik v (vt_hightest_priority vt ik) = Inr (Hightest_priority_impl ty) \<and>
      reach ik v (vt_take_task vt ik) = Inr (Take_task_impl ty)"
proof (cases "gua (Kern (Hightest_priority_impl ty)) 1 (Some v) = Null \<or>
    gua (Kern (Take_task_impl ty)) 1 (Some v) = Null")
  case True
  then show ?thesis by (auto simp: with_user_def vtable_of_def EventSourceVtable_new_def Let_def)
next
  case False
  then obtain vt where "with_user gua (vtable_of ty pc) v = Inr vt"
    by (simp add: with_user_def vtable_of_def EventSourceVtable_new_def Let_def)
  with with_user_reach [OF assms this] False show ?thesis by simp
qed

text \<open>A translation that succeeds for every object of the kernel.\<close>

definition map_all :: get_user_addr where
  "map_all p len vspace = (case (p, vspace) of (Kern x, Some v) \<Rightarrow> User v x | _ \<Rightarrow> Null)"

lemma map_all_laws: "user_addr_laws map_all"
  by (simp add: user_addr_laws_def map_all_def)

lemma with_user_reaches_witness:
  "\<exists>vt. with_user map_all (vtable_of READY_QUEUE False) 3 = Inr vt \<and>
     reach False 3 (vt_take_task vt False) = Inr (Take_task_impl READY_QUEUE)"
  using with_user_reaches [OF map_all_laws, of READY_QUEUE 3 False False] by (auto simp: map_all_def)

end
