(* ===== verification/Ready_Queue.thy ===== *)
theory Ready_Queue
  imports Event_Source
begin

unbundle bit_operations_syntax

text \<open>
  \<^verbatim>\<open>src/schedule/ready_queue.rs\<close>: one bounded queue per priority and a 64-bit bitmap whose
  bit \<open>63 - k\<close> says that the queue of the \<open>k\<close>-th priority from the top is not empty. The
  operations here are the sequential ones, each lock and atomic access in program order;
  \<open>Ready_Queue_Smp\<close> interleaves them.
\<close>

section \<open>The program\<close>

definition PRIORITY_LEVELS :: "config \<Rightarrow> nat" where
  "PRIORITY_LEVELS c = usize_of_isize (LOWEST_PRIORITY c - HIGHEST_PRIORITY c) + 1"

fun highest_one_from :: "u64 \<Rightarrow> nat \<Rightarrow> nat option" where
  "highest_one_from bitmap 0 = (if bitmap AND push_bit 0 1 \<noteq> 0 then Some 0 else None)"
| "highest_one_from bitmap (Suc idx) =
     (if bitmap AND push_bit (Suc idx) 1 \<noteq> 0 then Some (Suc idx)
      else highest_one_from bitmap idx)"

definition highest_one :: "u64 \<Rightarrow> nat option" where
  "highest_one bitmap = highest_one_from bitmap 63"

record ready_queue =
  queues :: "task list list"
  prio_bitmap :: u64

definition ReadyQueue_new :: "config \<Rightarrow> task deque_ops \<Rightarrow> ready_queue result" where
  "ReadyQueue_new c D =
     and_then (assert_that (PRIORITY_LEVELS c \<le> 64)) (\<lambda>_.
       let bitmap_init = (if PRIORITY_LEVELS c \<le> 63 then push_bit (63 - PRIORITY_LEVELS c) 1 else 0)
       in Inr \<lparr>queues = replicate (PRIORITY_LEVELS c) (dq_new D), prio_bitmap = bitmap_init\<rparr>)"

text \<open>\<^verbatim>\<open>1 << (63 - prio + HIGHEST_PRIORITY)\<close>\<close>

definition prio_bit :: "config \<Rightarrow> int \<Rightarrow> u64" where
  "prio_bit c prio = push_bit (nat (63 - prio + HIGHEST_PRIORITY c)) 1"

text \<open>
  \<^verbatim>\<open>push_task\<close> returns the task (\<open>Inl\<close>, \<^verbatim>\<open>Err\<close>) where its queue is full. A priority
  outside the configured range indexes outside the array.
\<close>

definition rq_push_task ::
  "config \<Rightarrow> task deque_ops \<Rightarrow> tcbs \<Rightarrow> ready_queue \<Rightarrow> task \<Rightarrow> ((task + unit) \<times> ready_queue) result" where
  "rq_push_task c D T rq task =
     (let prio = t_priority (T task);
          i = usize_of_isize (prio - HIGHEST_PRIORITY c)
      in and_then (index (queues rq) i) (\<lambda>q.
         case dq_push_back D q task of
           None \<Rightarrow> Inr (Inl task, rq)
         | Some q' \<Rightarrow>
             Inr (Inr (), rq\<lparr>queues := (queues rq)[i := q'],
               prio_bitmap := prio_bitmap rq OR prio_bit c prio\<rparr>)))"

definition rq_hightest_priority :: "config \<Rightarrow> ready_queue \<Rightarrow> nat \<Rightarrow> int" where
  "rq_hightest_priority c rq cpu_id =
     63 + HIGHEST_PRIORITY c
       - (case highest_one (prio_bitmap rq) of None \<Rightarrow> - 1 | Some i \<Rightarrow> int i)"

text \<open>
  \<^verbatim>\<open>take_task\<close>: the scan from the highest priority. \<^verbatim>\<open>fetch_and\<close> returns the bitmap as it was
  before the bit is cleared, and that value is what the source names \<^verbatim>\<open>new_bitmap\<close>.
\<close>

function take_task_from ::
  "config \<Rightarrow> task deque_ops \<Rightarrow> ready_queue \<Rightarrow> int \<Rightarrow> ((task option \<times> int) \<times> ready_queue) result" where
  "take_task_from c D rq prio =
     (if prio \<le> LOWEST_PRIORITY c then
        let i = usize_of_isize (prio - HIGHEST_PRIORITY c)
        in and_then (index (queues rq) i) (\<lambda>queue.
           case dq_pop_front D queue of
             Some (task, queue') \<Rightarrow>
               let rq' = rq\<lparr>queues := (queues rq)[i := queue']\<rparr>
               in if dq_is_empty D queue' then
                    let new_bitmap = prio_bitmap rq;
                        highest_one_index =
                          (case highest_one new_bitmap of None \<Rightarrow> - 1 | Some j \<Rightarrow> int j);
                        next_prio = 63 + HIGHEST_PRIORITY c - highest_one_index
                    in Inr ((Some task, next_prio),
                         rq'\<lparr>prio_bitmap := prio_bitmap rq AND NOT (prio_bit c prio)\<rparr>)
                  else Inr ((Some task, prio), rq')
           | None \<Rightarrow> take_task_from c D rq (prio + 1))
      else Inr ((None, prio), rq))"
  by pat_completeness auto
termination
  by (relation "measure (\<lambda>(c, D, rq, prio). nat (LOWEST_PRIORITY c + 1 - prio))") auto

declare take_task_from.simps [simp del]

definition rq_take_task ::
  "config \<Rightarrow> task deque_ops \<Rightarrow> ready_queue \<Rightarrow> nat \<Rightarrow> ((task option \<times> int) \<times> ready_queue) result" where
  "rq_take_task c D rq cpu_id = take_task_from c D rq (HIGHEST_PRIORITY c)"

definition RQ_IS_PRIO_PER_CPU :: bool where
  "RQ_IS_PRIO_PER_CPU \<longleftrightarrow> False"

section \<open>The highest set bit\<close>

lemma highest_one_from_bit:
  "highest_one_from b 0 = (if bit b 0 then Some 0 else None)"
  "highest_one_from b (Suc n) = (if bit b (Suc n) then Some (Suc n) else highest_one_from b n)"
  by (simp_all only: highest_one_from.simps bit_iff_and_push_bit_not_eq_0)

declare highest_one_from.simps [simp del]

lemma highest_one_from_Some:
  "highest_one_from b n = Some i \<longleftrightarrow> i \<le> n \<and> bit b i \<and> (\<forall>j. i < j \<and> j \<le> n \<longrightarrow> \<not> bit b j)"
proof (induction n)
  case 0
  show ?case by (auto simp: highest_one_from_bit)
next
  case (Suc n)
  then show ?case
    by (cases "bit b (Suc n)") (auto simp: highest_one_from_bit le_Suc_eq)
qed

lemma highest_one_from_None:
  "highest_one_from b n = None \<longleftrightarrow> (\<forall>j \<le> n. \<not> bit b j)"
  by (induction n) (auto simp: highest_one_from_bit le_Suc_eq)

lemma highest_one_Some:
  "highest_one b = Some i \<longleftrightarrow> i < 64 \<and> bit b i \<and> (\<forall>j. i < j \<and> j < 64 \<longrightarrow> \<not> bit b j)"
  by (auto simp: highest_one_def highest_one_from_Some)

lemma highest_one_None: "highest_one b = None \<longleftrightarrow> (\<forall>j < 64. \<not> bit b j)"
  by (auto simp: highest_one_def highest_one_from_None)

section \<open>The bitmap mirrors the queues\<close>

text \<open>
  The number of empty queues before the first non-empty one; slot \<open>length qs\<close>, the bit behind
  the last priority, always counts as marked.
\<close>

definition top_slot :: "'a list list \<Rightarrow> nat" where
  "top_slot qs = length (takeWhile (\<lambda>q. q = []) qs)"

definition marked :: "'a list list \<Rightarrow> nat \<Rightarrow> bool" where
  "marked qs k \<longleftrightarrow> (if k < length qs then qs ! k \<noteq> [] else k = length qs)"

definition bitmap_inv :: "'a list list \<Rightarrow> u64 \<Rightarrow> bool" where
  "bitmap_inv qs b \<longleftrightarrow> (\<forall>k < 64. bit b (63 - k) \<longleftrightarrow> marked qs k)"

definition rq_inv :: "config \<Rightarrow> ready_queue \<Rightarrow> bool" where
  "rq_inv c rq \<longleftrightarrow>
     length (queues rq) = PRIORITY_LEVELS c \<and>
     bitmap_inv (queues rq) (prio_bitmap rq) \<and>
     (\<forall>q \<in> set (queues rq). length q \<le> READY_QUEUE_SIZE c)"

lemma top_slot_le: "top_slot qs \<le> length qs"
  by (simp add: top_slot_def length_takeWhile_le)

lemma top_slot_before: "k < top_slot qs \<Longrightarrow> qs ! k = []"
  using nth_mem [of k "takeWhile (\<lambda>q. q = []) qs"]
  by (auto simp: top_slot_def takeWhile_nth dest: set_takeWhileD)

lemma top_slot_at: "top_slot qs < length qs \<Longrightarrow> qs ! top_slot qs \<noteq> []"
  unfolding top_slot_def by (rule nth_length_takeWhile)

lemma top_slotI:
  assumes "k < length qs" "qs ! k \<noteq> []" "\<And>j. j < k \<Longrightarrow> qs ! j = []"
  shows "top_slot qs = k"
proof (rule ccontr)
  assume "top_slot qs \<noteq> k"
  then consider "top_slot qs < k" | "k < top_slot qs" by linarith
  then show False
    using assms top_slot_at [of qs] top_slot_before [of k qs] by cases auto
qed

lemma top_slot_endI:
  assumes "\<And>j. j < length qs \<Longrightarrow> qs ! j = []"
  shows "top_slot qs = length qs"
  by (metis assms le_neq_implies_less top_slot_at top_slot_le)

lemma top_slot_end_iff: "top_slot qs = length qs \<longleftrightarrow> (\<forall>q \<in> set qs. q = [])"
  by (metis in_set_conv_nth top_slot_before top_slot_endI)

lemma marked_top_slot: "marked qs (top_slot qs)"
  using top_slot_le [of qs] top_slot_at [of qs] by (auto simp: marked_def)

lemma not_marked_before: "k < top_slot qs \<Longrightarrow> \<not> marked qs k"
  using top_slot_le [of qs] top_slot_before [of k qs] by (auto simp: marked_def)

lemma bitmap_invD: "bitmap_inv qs b \<Longrightarrow> i < 64 \<Longrightarrow> bit b i \<longleftrightarrow> marked qs (63 - i)"
  unfolding bitmap_inv_def by (erule allE [of _ "63 - i"]) auto

lemma highest_one_bitmap:
  assumes "bitmap_inv qs b"
  shows "highest_one b = (if top_slot qs < 64 then Some (63 - top_slot qs) else None)"
proof (cases "top_slot qs < 64")
  case True
  have "bit b (63 - top_slot qs)"
    using True assms marked_top_slot [of qs] by (simp add: bitmap_invD)
  moreover have "\<not> bit b j" if "63 - top_slot qs < j" "j < 64" for j
  proof -
    have "63 - j < top_slot qs" using that True by linarith
    then show ?thesis using that assms not_marked_before [of "63 - j" qs] by (simp add: bitmap_invD)
  qed
  ultimately have "highest_one b = Some (63 - top_slot qs)" by (simp add: highest_one_Some)
  with True show ?thesis by simp
next
  case False
  have "\<not> bit b j" if "j < 64" for j
    using that False assms not_marked_before [of "63 - j" qs] by (simp add: bitmap_invD)
  with False show ?thesis by (simp add: highest_one_None)
qed

lemma PRIORITY_LEVELS_eq:
  assumes "config_ok c"
  shows "PRIORITY_LEVELS c = nat (LOWEST_PRIORITY c - HIGHEST_PRIORITY c) + 1"
    and "PRIORITY_LEVELS c \<le> 64" and "0 < PRIORITY_LEVELS c"
    and "int (PRIORITY_LEVELS c) = LOWEST_PRIORITY c - HIGHEST_PRIORITY c + 1"
  using config_okD [OF assms] by (auto simp: PRIORITY_LEVELS_def)

text \<open>The reported priority is the priority of the first non-empty queue.\<close>

lemma rq_hightest_priority_top:
  assumes "rq_inv c rq" "config_ok c"
  shows "rq_hightest_priority c rq cpu = HIGHEST_PRIORITY c + int (top_slot (queues rq))"
proof -
  have "top_slot (queues rq) \<le> 64"
    using assms top_slot_le [of "queues rq"] PRIORITY_LEVELS_eq [of c] by (simp add: rq_inv_def)
  then show ?thesis
    using assms highest_one_bitmap [of "queues rq" "prio_bitmap rq"]
    by (auto simp: rq_hightest_priority_def rq_inv_def of_nat_diff)
qed

text \<open>The slot of a priority.\<close>

definition slot :: "config \<Rightarrow> int \<Rightarrow> nat" where
  "slot c prio = nat (prio - HIGHEST_PRIORITY c)"

definition in_range :: "config \<Rightarrow> int \<Rightarrow> bool" where
  "in_range c prio \<longleftrightarrow> HIGHEST_PRIORITY c \<le> prio \<and> prio \<le> LOWEST_PRIORITY c"

lemma slot_less:
  assumes "config_ok c" "in_range c prio"
  shows "slot c prio < PRIORITY_LEVELS c"
  using assms PRIORITY_LEVELS_eq [of c] by (auto simp: slot_def in_range_def)

lemma usize_slot:
  assumes "config_ok c" "HIGHEST_PRIORITY c \<le> prio" "prio \<le> LOWEST_PRIORITY c + 1"
  shows "usize_of_isize (prio - HIGHEST_PRIORITY c) = slot c prio"
  using assms config_okD [of c] by (auto simp: slot_def)

lemma prio_bit_slot:
  assumes "config_ok c" "in_range c prio"
  shows "prio_bit c prio = push_bit (63 - slot c prio) 1"
proof -
  have "nat (63 - prio + HIGHEST_PRIORITY c) = 63 - slot c prio"
    using assms config_okD [of c] by (auto simp: slot_def in_range_def)
  then show ?thesis by (simp add: prio_bit_def)
qed

lemma bit_prio_bit:
  assumes "config_ok c" "in_range c prio" "j < 64"
  shows "bit (prio_bit c prio) j \<longleftrightarrow> j = 63 - slot c prio"
  using assms by (auto simp: prio_bit_slot bit_push_bit_iff bit_1_iff)

lemma bitmap_inv_set:
  assumes "bitmap_inv qs b" "config_ok c" "in_range c prio"
    and "length qs = PRIORITY_LEVELS c" "q \<noteq> []"
  shows "bitmap_inv (qs[slot c prio := q]) (b OR prio_bit c prio)"
  unfolding bitmap_inv_def
proof (intro allI impI)
  fix k :: nat assume k: "k < 64"
  have s: "slot c prio < length qs" "slot c prio < 64"
    using slot_less [OF assms(2,3)] assms(4) PRIORITY_LEVELS_eq [OF assms(2)] by auto
  have "bit b (63 - k) = marked qs k" using assms(1) k by (simp add: bitmap_inv_def)
  moreover have "bit (prio_bit c prio) (63 - k) \<longleftrightarrow> k = slot c prio"
    using k s bit_prio_bit [OF assms(2,3), of "63 - k"] by auto
  ultimately show "bit (b OR prio_bit c prio) (63 - k) = marked (qs[slot c prio := q]) k"
    using s assms(5) by (auto simp: bit_or_iff marked_def nth_list_update)
qed

lemma bitmap_inv_clear:
  assumes "bitmap_inv qs b" "config_ok c" "in_range c prio"
    and "length qs = PRIORITY_LEVELS c"
  shows "bitmap_inv (qs[slot c prio := []]) (b AND NOT (prio_bit c prio))"
  unfolding bitmap_inv_def
proof (intro allI impI)
  fix k :: nat assume k: "k < 64"
  have s: "slot c prio < length qs" "slot c prio < 64"
    using slot_less [OF assms(2,3)] assms(4) PRIORITY_LEVELS_eq [OF assms(2)] by auto
  have "bit b (63 - k) = marked qs k" using assms(1) k by (simp add: bitmap_inv_def)
  moreover have "bit (NOT (prio_bit c prio)) (63 - k) \<longleftrightarrow> k \<noteq> slot c prio"
    using k s bit_prio_bit [OF assms(2,3), of "63 - k"] by (auto simp: bit_not_iff)
  ultimately show "bit (b AND NOT (prio_bit c prio)) (63 - k) = marked (qs[slot c prio := []]) k"
    using s by (auto simp: bit_and_iff marked_def nth_list_update)
qed

lemma bitmap_inv_keep:
  assumes "bitmap_inv qs b" "k < length qs" "qs ! k \<noteq> []" "q \<noteq> []"
  shows "bitmap_inv (qs[k := q]) b"
  using assms by (auto simp: bitmap_inv_def marked_def nth_list_update)

section \<open>The operations keep the invariant\<close>

lemma ReadyQueue_new_ok:
  assumes "config_ok c" "deque_laws (READY_QUEUE_SIZE c) D"
  shows "\<exists>rq. ReadyQueue_new c D = Inr rq \<and> rq_inv c rq \<and> (\<forall>q \<in> set (queues rq). q = [])"
proof -
  let ?n = "PRIORITY_LEVELS c"
  let ?b = "if ?n \<le> 63 then push_bit (63 - ?n) 1 else (0 :: u64)"
  have n: "?n \<le> 64" using PRIORITY_LEVELS_eq [OF assms(1)] by simp
  have "bitmap_inv (replicate ?n []) ?b"
    unfolding bitmap_inv_def
  proof (intro allI impI)
    fix k :: nat assume "k < 64"
    then show "bit ?b (63 - k) = marked (replicate ?n []) k"
      using n by (auto simp: marked_def bit_push_bit_iff bit_1_iff)
  qed
  then show ?thesis
    using n by (auto simp: ReadyQueue_new_def deque_lawsD [OF assms(2)] rq_inv_def Let_def)
qed

lemma rq_push_task_in_range:
  assumes "rq_inv c rq" "config_ok c" "deque_laws (READY_QUEUE_SIZE c) D"
    and "in_range c (t_priority (T t))"
  shows "rq_push_task c D T rq t =
    (let k = slot c (t_priority (T t)) in
     if length (queues rq ! k) < READY_QUEUE_SIZE c
     then Inr (Inr (), rq\<lparr>queues := (queues rq)[k := queues rq ! k @ [t]],
            prio_bitmap := prio_bitmap rq OR prio_bit c (t_priority (T t))\<rparr>)
     else Inr (Inl t, rq))"
proof -
  have "slot c (t_priority (T t)) < length (queues rq)"
    using slot_less [OF assms(2,4)] assms(1) by (simp add: rq_inv_def)
  moreover have "usize_of_isize (t_priority (T t) - HIGHEST_PRIORITY c) = slot c (t_priority (T t))"
    using assms(2,4) usize_slot by (auto simp: in_range_def)
  ultimately show ?thesis
    by (simp add: rq_push_task_def deque_lawsD [OF assms(3)] Let_def)
qed

lemma rq_push_task_inv:
  assumes "rq_inv c rq" "config_ok c" "deque_laws (READY_QUEUE_SIZE c) D"
    and "in_range c (t_priority (T t))" "rq_push_task c D T rq t = Inr (r, rq')"
  shows "rq_inv c rq'"
proof -
  let ?k = "slot c (t_priority (T t))"
  have k: "?k < length (queues rq)"
    using slot_less [OF assms(2,4)] assms(1) by (simp add: rq_inv_def)
  have "bitmap_inv ((queues rq)[?k := queues rq ! ?k @ [t]])
          (prio_bitmap rq OR prio_bit c (t_priority (T t)))"
    using assms(1,2,4) by (intro bitmap_inv_set) (auto simp: rq_inv_def)
  moreover have "\<forall>q \<in> set ((queues rq)[?k := queues rq ! ?k @ [t]]). length q \<le> READY_QUEUE_SIZE c"
    if "length (queues rq ! ?k) < READY_QUEUE_SIZE c"
    using that assms(1) by (intro all_set_update) (auto simp: rq_inv_def)
  ultimately show ?thesis
    using assms rq_push_task_in_range [of c rq D T t]
    by (auto simp: rq_inv_def Let_def split: if_splits)
qed

lemma rq_push_task_out_of_range:
  assumes "rq_inv c rq" "config_ok c" "\<not> in_range c (t_priority (T t))"
    and "- (2 ^ 62) \<le> t_priority (T t)" "t_priority (T t) < 2 ^ 62"
  shows "rq_push_task c D T rq t = Inl Index_out_of_bounds"
proof -
  let ?d = "t_priority (T t) - HIGHEST_PRIORITY c"
  have "length (queues rq) \<le> usize_of_isize ?d"
  proof (cases "HIGHEST_PRIORITY c \<le> t_priority (T t)")
    case True
    then have "usize_of_isize ?d = nat ?d"
      using assms config_okD [OF assms(2)] by (intro usize_of_isize_pos) auto
    moreover have "int (length (queues rq)) \<le> ?d"
      using True assms PRIORITY_LEVELS_eq(4) [OF assms(2)] by (auto simp: rq_inv_def in_range_def)
    ultimately show ?thesis by linarith
  next
    case False
    then have "2 ^ 63 \<le> usize_of_isize ?d"
      using assms config_okD [OF assms(2)] by (intro usize_of_isize_neg) auto
    moreover have "length (queues rq) \<le> 64"
      using assms(1) PRIORITY_LEVELS_eq [OF assms(2)] by (simp add: rq_inv_def)
    ultimately show ?thesis by simp
  qed
  then show ?thesis by (simp add: rq_push_task_def index_def Let_def)
qed

section \<open>Taking a task\<close>

text \<open>
  What the scan computes: the head of the first non-empty queue, the bit cleared where the
  queue becomes empty, and the priority of that queue as the new priority in both cases.
\<close>

definition take_ref :: "config \<Rightarrow> ready_queue \<Rightarrow> (task option \<times> int) \<times> ready_queue" where
  "take_ref c rq =
     (let k = top_slot (queues rq); prio = HIGHEST_PRIORITY c + int k in
      if k < length (queues rq) then
        ((Some (hd (queues rq ! k)), prio),
         rq\<lparr>queues := (queues rq)[k := tl (queues rq ! k)],
            prio_bitmap :=
              (if tl (queues rq ! k) = [] then prio_bitmap rq AND NOT (prio_bit c prio)
               else prio_bitmap rq)\<rparr>)
      else ((None, LOWEST_PRIORITY c + 1), rq))"

lemma take_task_from_empty:
  assumes "config_ok c" "deque_laws N D" "in_range c prio"
    and "slot c prio < length (queues rq)" "queues rq ! slot c prio = []"
  shows "take_task_from c D rq prio = take_task_from c D rq (prio + 1)"
  using assms usize_slot [of c prio]
  by (subst take_task_from.simps) (auto simp: in_range_def deque_lawsD [OF assms(2)] Let_def)

lemma take_task_from_hit:
  assumes "config_ok c" "deque_laws N D" "rq_inv c rq" "top_slot (queues rq) < length (queues rq)"
  shows "take_task_from c D rq (HIGHEST_PRIORITY c + int (top_slot (queues rq))) = Inr (take_ref c rq)"
proof -
  let ?k = "top_slot (queues rq)" let ?p = "HIGHEST_PRIORITY c + int ?k"
  have p: "in_range c ?p"
    using assms PRIORITY_LEVELS_eq(4) [OF assms(1)] by (auto simp: in_range_def rq_inv_def)
  have s: "usize_of_isize (?p - HIGHEST_PRIORITY c) = ?k"
    using usize_slot [OF assms(1), of ?p] p by (simp add: in_range_def slot_def)
  obtain t q where tq: "queues rq ! ?k = t # q"
    using top_slot_at [OF assms(4)] by (cases "queues rq ! ?k") auto
  have hp: "63 + HIGHEST_PRIORITY c
      - (case highest_one (prio_bitmap rq) of None \<Rightarrow> - 1 | Some j \<Rightarrow> int j) = ?p"
    using rq_hightest_priority_top [OF assms(3,1)] by (simp add: rq_hightest_priority_def)
  show ?thesis
    using p s tq hp assms(4)
    by (subst take_task_from.simps)
      (simp add: take_ref_def in_range_def deque_lawsD [OF assms(2)] Let_def)
qed

lemma take_task_from_ref:
  assumes "config_ok c" "deque_laws N D" "rq_inv c rq"
    and "HIGHEST_PRIORITY c \<le> prio" "slot c prio \<le> top_slot (queues rq)"
  shows "take_task_from c D rq prio = Inr (take_ref c rq)"
  using assms(4,5)
proof (induction "top_slot (queues rq) - slot c prio" arbitrary: prio)
  case 0
  then have p: "prio = HIGHEST_PRIORITY c + int (top_slot (queues rq))"
    by (auto simp: slot_def)
  show ?case
  proof (cases "top_slot (queues rq) < length (queues rq)")
    case True
    with p show ?thesis using take_task_from_hit [OF assms(1-3)] by simp
  next
    case False
    then have "prio = LOWEST_PRIORITY c + 1"
      using p top_slot_le [of "queues rq"] assms(3) PRIORITY_LEVELS_eq(4) [OF assms(1)]
      by (simp add: rq_inv_def)
    with False show ?thesis by (subst take_task_from.simps) (simp add: take_ref_def)
  qed
next
  case (Suc n)
  have k: "slot c prio < top_slot (queues rq)" using Suc.hyps(2) by simp
  then have k': "slot c prio < length (queues rq)" "queues rq ! slot c prio = []"
    using top_slot_le [of "queues rq"] top_slot_before [OF k] by auto
  then have r: "in_range c prio"
    using Suc.prems(1) assms(3) PRIORITY_LEVELS_eq(4) [OF assms(1)]
    by (auto simp: in_range_def rq_inv_def slot_def)
  have "slot c (prio + 1) = slot c prio + 1" using Suc.prems(1) by (auto simp: slot_def)
  then have "take_task_from c D rq (prio + 1) = Inr (take_ref c rq)"
    using Suc.hyps Suc.prems k by (intro Suc.hyps(1)) auto
  then show ?case using take_task_from_empty [OF assms(1,2) r k'] by simp
qed

text \<open>With every queue empty the scan ends without a task, whatever the bitmap says.\<close>

lemma take_task_from_all_empty:
  assumes "config_ok c" "deque_laws N D" "length (queues rq) = PRIORITY_LEVELS c"
    and "\<forall>q \<in> set (queues rq). q = []"
    and "HIGHEST_PRIORITY c \<le> prio" "prio \<le> LOWEST_PRIORITY c + 1"
  shows "take_task_from c D rq prio = Inr ((None, LOWEST_PRIORITY c + 1), rq)"
  using assms(5,6)
proof (induction "nat (LOWEST_PRIORITY c + 1 - prio)" arbitrary: prio)
  case 0
  then show ?case by (subst take_task_from.simps) simp
next
  case (Suc n)
  then have r: "in_range c prio" by (simp add: in_range_def)
  then have "slot c prio < length (queues rq)" using slot_less [OF assms(1)] assms(3) by simp
  moreover from this have "queues rq ! slot c prio = []" using assms(4) nth_mem by blast
  ultimately have "take_task_from c D rq prio = take_task_from c D rq (prio + 1)"
    using take_task_from_empty [OF assms(1,2) r] by simp
  also have "\<dots> = Inr ((None, LOWEST_PRIORITY c + 1), rq)"
    using Suc.hyps(2) Suc.prems r by (intro Suc.hyps(1)) (auto simp: in_range_def)
  finally show ?case .
qed

lemma rq_take_task_all_empty:
  assumes "config_ok c" "deque_laws N D" "length (queues rq) = PRIORITY_LEVELS c"
    and "\<forall>q \<in> set (queues rq). q = []"
  shows "rq_take_task c D rq cpu = Inr ((None, LOWEST_PRIORITY c + 1), rq)"
  using take_task_from_all_empty [OF assms] config_okD [OF assms(1)] by (simp add: rq_take_task_def)

lemma rq_take_task_ref:
  assumes "config_ok c" "deque_laws N D" "rq_inv c rq"
  shows "rq_take_task c D rq cpu = Inr (take_ref c rq)"
  using take_task_from_ref [OF assms] by (simp add: rq_take_task_def slot_def)

lemma take_ref_inv:
  assumes "config_ok c" "rq_inv c rq"
  shows "rq_inv c (snd (take_ref c rq))"
proof (cases "top_slot (queues rq) < length (queues rq)")
  case True
  let ?k = "top_slot (queues rq)" let ?p = "HIGHEST_PRIORITY c + int ?k"
  have p: "in_range c ?p" "slot c ?p = ?k"
    using True assms(2) PRIORITY_LEVELS_eq(4) [OF assms(1)]
    by (auto simp: in_range_def rq_inv_def slot_def)
  have len: "\<forall>q \<in> set ((queues rq)[?k := tl (queues rq ! ?k)]). length q \<le> READY_QUEUE_SIZE c"
    using assms(2) nth_mem [OF True] by (intro all_set_update) (auto simp: rq_inv_def le_diff_conv)
  show ?thesis
  proof (cases "tl (queues rq ! ?k) = []")
    case tl: True
    have "bitmap_inv ((queues rq)[?k := []]) (prio_bitmap rq AND NOT (prio_bit c ?p))"
      using bitmap_inv_clear [of "queues rq" "prio_bitmap rq" c ?p] assms p
      by (simp add: rq_inv_def)
    with tl len assms(2) show ?thesis by (simp add: take_ref_def rq_inv_def Let_def)
  next
    case False
    then have "bitmap_inv ((queues rq)[?k := tl (queues rq ! ?k)]) (prio_bitmap rq)"
      using assms(2) True top_slot_at [OF True] by (intro bitmap_inv_keep) (auto simp: rq_inv_def)
    with False len assms(2) show ?thesis by (simp add: take_ref_def rq_inv_def Let_def)
  qed
qed (use assms in \<open>simp add: take_ref_def Let_def\<close>)

lemma top_slot_tl:
  assumes "top_slot qs < length qs"
  shows "top_slot qs \<le> top_slot (qs[top_slot qs := q])"
proof (rule ccontr)
  let ?qs = "qs[top_slot qs := q]"
  assume "\<not> top_slot qs \<le> top_slot ?qs"
  then have lt: "top_slot ?qs < top_slot qs" by simp
  then have "?qs ! top_slot ?qs \<noteq> []" using assms by (intro top_slot_at) simp
  with lt top_slot_before [OF lt] show False by simp
qed

lemma take_ref_prio:
  assumes "config_ok c" "rq_inv c rq" "take_ref c rq = ((r, p), rq')"
  shows "p \<le> rq_hightest_priority c rq' cpu"
proof -
  have inv: "rq_inv c rq'" using take_ref_inv [OF assms(1,2)] assms(3) by simp
  show ?thesis
  proof (cases "top_slot (queues rq) < length (queues rq)")
    case True
    then have "p = HIGHEST_PRIORITY c + int (top_slot (queues rq))"
      and "queues rq' = (queues rq)[top_slot (queues rq) := tl (queues rq ! top_slot (queues rq))]"
      using assms(3) by (auto simp: take_ref_def Let_def)
    then show ?thesis
      using rq_hightest_priority_top [OF inv assms(1)] top_slot_tl [OF True] by simp
  next
    case False
    then have "p = LOWEST_PRIORITY c + 1" "rq' = rq"
      using assms(3) by (auto simp: take_ref_def Let_def)
    moreover have "top_slot (queues rq) = length (queues rq)"
      using False top_slot_le [of "queues rq"] by simp
    ultimately show ?thesis
      using rq_hightest_priority_top [OF assms(2,1)] assms(2) PRIORITY_LEVELS_eq(4) [OF assms(1)]
      by (simp add: rq_inv_def)
  qed
qed

section \<open>The ready queue is an event source\<close>

definition rq_pending :: "ready_queue \<Rightarrow> nat \<Rightarrow> bool" where
  "rq_pending rq cpu \<longleftrightarrow> (\<exists>q \<in> set (queues rq). q \<noteq> [])"

definition rq_ok :: "config \<Rightarrow> task deque_ops \<Rightarrow> ready_queue \<Rightarrow> bool" where
  "rq_ok c D rq \<longleftrightarrow> config_ok c \<and> deque_laws (READY_QUEUE_SIZE c) D \<and> rq_inv c rq"

lemma rq_pending_top:
  "rq_pending rq cpu \<longleftrightarrow> top_slot (queues rq) < length (queues rq)"
  using top_slot_end_iff [of "queues rq"] top_slot_le [of "queues rq"]
  by (auto simp: rq_pending_def)

interpretation rqs: event_source "rq_ok c D" rq_pending "rq_hightest_priority c" "rq_take_task c D"
    "HIGHEST_PRIORITY c" "LOWEST_PRIORITY c"
  for c D
proof (unfold_locales, goal_cases)
  case (1 s cpu)
  then show ?case
    using rq_hightest_priority_top [of c s] PRIORITY_LEVELS_eq(4) [of c]
    by (auto simp: rq_ok_def rq_pending_top rq_inv_def)
next
  case (2 s cpu)
  then show ?case
    using rq_hightest_priority_top [of c s] PRIORITY_LEVELS_eq(4) [of c] top_slot_le [of "queues s"]
    by (auto simp: rq_ok_def rq_inv_def)
next
  case (3 s cpu)
  then show ?case
    using rq_take_task_ref [of c _ D s cpu] by (auto simp: rq_ok_def rq_pending_top take_ref_def Let_def)
next
  case (4 s cpu r p s')
  then show ?case
    using rq_take_task_ref [of c _ D s cpu] by (auto simp: rq_ok_def rq_pending_top take_ref_def Let_def)
next
  case (5 s cpu rp s')
  then have "take_ref c s = (rp, s')"
    using rq_take_task_ref [of c _ D s cpu] by (auto simp: rq_ok_def)
  with 5 show ?case using take_ref_inv [of c s] by (simp add: rq_ok_def)
next
  case (6 s cpu r p s')
  then show ?case
    using rq_take_task_ref [of c _ D s cpu] take_ref_prio [of c s r p s'] by (auto simp: rq_ok_def)
qed

section \<open>The abstract priority queue\<close>

text \<open>
  What a ready queue promises: a first-in first-out list per priority; a task is taken from the
  most urgent priority that has one.
\<close>

type_synonym prio_fifo = "int \<Rightarrow> task list"

definition rq_abs :: "config \<Rightarrow> ready_queue \<Rightarrow> prio_fifo" where
  "rq_abs c rq p = (if in_range c p then queues rq ! slot c p else [])"

definition fifo_top :: "config \<Rightarrow> prio_fifo \<Rightarrow> int option" where
  "fifo_top c A = find (\<lambda>p. A p \<noteq> []) [HIGHEST_PRIORITY c..LOWEST_PRIORITY c]"

definition fifo_push :: "prio_fifo \<Rightarrow> int \<Rightarrow> task \<Rightarrow> prio_fifo" where
  "fifo_push A p t = A(p := A p @ [t])"

definition fifo_take :: "config \<Rightarrow> prio_fifo \<Rightarrow> task option \<times> prio_fifo" where
  "fifo_take c A = (case fifo_top c A of
     None \<Rightarrow> (None, A)
   | Some p \<Rightarrow> (Some (hd (A p)), A(p := tl (A p))))"

lemma find_upto_Some:
  assumes "a \<le> k" "k \<le> b" "P k" "\<And>j. a \<le> j \<Longrightarrow> j < k \<Longrightarrow> \<not> P j"
  shows "find P [a..b] = Some (k :: int)"
proof -
  have "[a..b] = [a..k - 1] @ k # [k + 1..b]"
    using assms(1,2) by (rule upto_split3)
  moreover have "find P [a..k - 1] = None"
    using assms(4) by (simp add: find_None_iff)
  ultimately show ?thesis using assms(3) by (simp add: find_append)
qed

lemma slot_inject: "in_range c p \<Longrightarrow> in_range c q \<Longrightarrow> slot c p = slot c q \<longleftrightarrow> p = q"
  by (auto simp: slot_def in_range_def)

lemma fifo_top_abs:
  assumes "config_ok c" "rq_inv c rq"
  shows "fifo_top c (rq_abs c rq) =
    (if top_slot (queues rq) < length (queues rq)
     then Some (HIGHEST_PRIORITY c + int (top_slot (queues rq))) else None)"
proof (cases "top_slot (queues rq) < length (queues rq)")
  case True
  let ?p = "HIGHEST_PRIORITY c + int (top_slot (queues rq))"
  have p: "in_range c ?p" "slot c ?p = top_slot (queues rq)"
    using True assms PRIORITY_LEVELS_eq(4) [OF assms(1)]
    by (auto simp: in_range_def rq_inv_def slot_def)
  have "rq_abs c rq j = []" if "HIGHEST_PRIORITY c \<le> j" "j < ?p" for j
    using that top_slot_before [of "slot c j" "queues rq"] by (auto simp: rq_abs_def slot_def)
  moreover have "rq_abs c rq ?p \<noteq> []"
    using p top_slot_at [OF True] by (simp add: rq_abs_def)
  ultimately have "fifo_top c (rq_abs c rq) = Some ?p"
    unfolding fifo_top_def using p(1) by (intro find_upto_Some) (auto simp: in_range_def)
  with True show ?thesis by simp
next
  case False
  then have "\<forall>q \<in> set (queues rq). q = []"
    using top_slot_le [of "queues rq"] by (simp flip: top_slot_end_iff)
  then have "rq_abs c rq p = []" for p
    using slot_less [OF assms(1), of p] assms(2) by (auto simp: rq_abs_def rq_inv_def)
  then have "fifo_top c (rq_abs c rq) = None" by (simp add: fifo_top_def find_None_iff)
  with False show ?thesis by simp
qed

lemma rq_abs_update:
  assumes "config_ok c" "in_range c p" "length (queues rq) = PRIORITY_LEVELS c"
  shows "rq_abs c (rq\<lparr>queues := (queues rq)[slot c p := q], prio_bitmap := b\<rparr>) = (rq_abs c rq)(p := q)"
proof (rule ext)
  fix x show "rq_abs c (rq\<lparr>queues := (queues rq)[slot c p := q], prio_bitmap := b\<rparr>) x
      = ((rq_abs c rq)(p := q)) x"
    using assms slot_less [OF assms(1,2)] slot_inject [OF assms(2), of x]
    by (auto simp: rq_abs_def nth_list_update)
qed

text \<open>The reported priority is not behind any task.\<close>

lemma rq_prio_le:
  assumes "config_ok c" "rq_inv c rq" "in_range c p" "rq_abs c rq p \<noteq> []"
  shows "rq_hightest_priority c rq cpu \<le> p"
proof -
  have s: "slot c p < length (queues rq)" "queues rq ! slot c p \<noteq> []"
    using slot_less [OF assms(1,3)] assms(2-4) by (auto simp: rq_inv_def rq_abs_def)
  then have "top_slot (queues rq) \<le> slot c p" using top_slot_before not_le by metis
  then show ?thesis
    using rq_hightest_priority_top [OF assms(2,1)] assms(3)
    by (simp add: slot_def in_range_def le_nat_iff)
qed

lemma take_refines:
  assumes "config_ok c" "rq_inv c rq" "take_ref c rq = ((r, p), rq')"
  shows "fifo_take c (rq_abs c rq) = (r, rq_abs c rq')"
proof (cases "top_slot (queues rq) < length (queues rq)")
  case True
  let ?p = "HIGHEST_PRIORITY c + int (top_slot (queues rq))"
  have p: "in_range c ?p" "slot c ?p = top_slot (queues rq)"
    using True assms PRIORITY_LEVELS_eq(4) [OF assms(1)]
    by (auto simp: in_range_def rq_inv_def slot_def)
  have "rq_abs c rq ?p = queues rq ! top_slot (queues rq)" using p by (simp add: rq_abs_def)
  then show ?thesis
    using assms(2,3) True p(2) rq_abs_update [OF assms(1) p(1), of rq]
    by (auto simp: fifo_take_def fifo_top_abs [OF assms(1,2)] take_ref_def Let_def rq_inv_def)
next
  case False
  then show ?thesis
    using assms(3) fifo_top_abs [OF assms(1,2)] by (auto simp: fifo_take_def take_ref_def Let_def)
qed

lemma push_refines:
  assumes "config_ok c" "deque_laws (READY_QUEUE_SIZE c) D" "rq_inv c rq"
    and "in_range c (t_priority (T t))" "rq_push_task c D T rq t = Inr (Inr (), rq')"
  shows "rq_abs c rq' = fifo_push (rq_abs c rq) (t_priority (T t)) t"
  using assms rq_push_task_in_range [of c rq D T t] rq_abs_update [OF assms(1,4), of rq]
  by (auto simp: fifo_push_def rq_inv_def Let_def rq_abs_def split: if_splits)

text \<open>A ready queue with the given lists, its bitmap as the operations keep it.\<close>

definition bitmap_of :: "'a list list \<Rightarrow> u64" where
  "bitmap_of qs = horner_sum of_bool 2 (map (\<lambda>i. marked qs (63 - i)) [0..<64])"

lemma bitmap_of_inv: "bitmap_inv qs (bitmap_of qs)"
  unfolding bitmap_inv_def
proof (intro allI impI)
  fix k :: nat assume k: "k < 64"
  have l: "63 - k < 64" by linarith
  then have "[0..<64] ! (63 - k) = 63 - k" by (subst nth_upt) simp_all
  with k l show "bit (bitmap_of qs) (63 - k) = marked qs k"
    by (simp add: bitmap_of_def bit_horner_sum_bit_iff)
qed

definition queue_of :: "task list list \<Rightarrow> ready_queue" where
  "queue_of qs = \<lparr>queues = qs, prio_bitmap = bitmap_of qs\<rparr>"

lemma queue_of_inv:
  assumes "length qs = PRIORITY_LEVELS c" "\<forall>q \<in> set qs. length q \<le> READY_QUEUE_SIZE c"
  shows "rq_inv c (queue_of qs)"
  using assms bitmap_of_inv by (simp add: rq_inv_def queue_of_def)

section \<open>Runs of a ready queue\<close>

text \<open>Any sequence of operations, with the results of the takes.\<close>

datatype rq_op = Push task | Take

primrec rq_run ::
  "config \<Rightarrow> task deque_ops \<Rightarrow> tcbs \<Rightarrow> rq_op list \<Rightarrow> ready_queue \<Rightarrow> (task option list \<times> ready_queue) result" where
  "rq_run c D T [] rq = Inr ([], rq)"
| "rq_run c D T (x # xs) rq =
     (case x of
        Push t \<Rightarrow> and_then (rq_push_task c D T rq t) (\<lambda>(_, rq'). rq_run c D T xs rq')
      | Take \<Rightarrow> and_then (rq_take_task c D rq 0) (\<lambda>((r, _), rq').
          and_then (rq_run c D T xs rq') (\<lambda>(rs, rq''). Inr (r # rs, rq''))))"

text \<open>The same sequence on the abstract lists, each of which holds \<^verbatim>\<open>READY_QUEUE_SIZE\<close> tasks.\<close>

primrec fifo_run ::
  "config \<Rightarrow> tcbs \<Rightarrow> rq_op list \<Rightarrow> prio_fifo \<Rightarrow> task option list \<times> prio_fifo" where
  "fifo_run c T [] A = ([], A)"
| "fifo_run c T (x # xs) A =
     (case x of
        Push t \<Rightarrow> fifo_run c T xs
          (if length (A (t_priority (T t))) < READY_QUEUE_SIZE c then fifo_push A (t_priority (T t)) t else A)
      | Take \<Rightarrow> (case fifo_take c A of (r, A') \<Rightarrow>
          (case fifo_run c T xs A' of (rs, A'') \<Rightarrow> (r # rs, A''))))"

definition ops_in_range :: "config \<Rightarrow> tcbs \<Rightarrow> rq_op list \<Rightarrow> bool" where
  "ops_in_range c T xs \<longleftrightarrow> list_all (\<lambda>x. case x of Push t \<Rightarrow> in_range c (t_priority (T t)) | Take \<Rightarrow> True) xs"

lemma push_cases:
  assumes "config_ok c" "deque_laws (READY_QUEUE_SIZE c) D" "rq_inv c rq" "in_range c (t_priority (T t))"
  obtains (room) rq' where "length (rq_abs c rq (t_priority (T t))) < READY_QUEUE_SIZE c"
      "rq_push_task c D T rq t = Inr (Inr (), rq')" "rq_inv c rq'"
      "rq_abs c rq' = fifo_push (rq_abs c rq) (t_priority (T t)) t"
    | (full) "\<not> length (rq_abs c rq (t_priority (T t))) < READY_QUEUE_SIZE c"
      "rq_push_task c D T rq t = Inr (Inl t, rq)"
proof (cases "length (rq_abs c rq (t_priority (T t))) < READY_QUEUE_SIZE c")
  case True
  then obtain rq' where r: "rq_push_task c D T rq t = Inr (Inr (), rq')"
    using rq_push_task_in_range [where T = T and t = t, OF assms(3,1,2,4)] assms(4) by (auto simp: rq_abs_def Let_def)
  show thesis
    using room [OF True r] rq_push_task_inv [where T = T, OF assms(3,1,2,4) r]
      push_refines [where T = T, OF assms(1-4) r] by blast
next
  case False
  then show thesis
    using full rq_push_task_in_range [where T = T and t = t, OF assms(3,1,2,4)] assms(4) by (auto simp: rq_abs_def Let_def)
qed

lemma take_cases:
  assumes "config_ok c" "deque_laws (READY_QUEUE_SIZE c) D" "rq_inv c rq"
  obtains r p rq' where "rq_take_task c D rq cpu = Inr ((r, p), rq')" "rq_inv c rq'"
    "fifo_take c (rq_abs c rq) = (r, rq_abs c rq')"
    "p = (case fifo_top c (rq_abs c rq) of None \<Rightarrow> LOWEST_PRIORITY c + 1 | Some q \<Rightarrow> q)"
proof -
  obtain r p rq' where t: "take_ref c rq = ((r, p), rq')" by (cases "take_ref c rq") auto
  have "p = (case fifo_top c (rq_abs c rq) of None \<Rightarrow> LOWEST_PRIORITY c + 1 | Some q \<Rightarrow> q)"
    using t by (auto simp: fifo_top_abs [OF assms(1,3)] take_ref_def Let_def split: if_splits)
  then show thesis
    using that [of r p rq'] rq_take_task_ref [OF assms] t take_ref_inv [OF assms(1,3)]
      take_refines [OF assms(1,3) t] by simp
qed

lemma rq_run_refines:
  assumes "config_ok c" "deque_laws (READY_QUEUE_SIZE c) D" "rq_inv c rq" "ops_in_range c T xs"
  shows "\<exists>rs rq'. rq_run c D T xs rq = Inr (rs, rq') \<and> rq_inv c rq' \<and>
    fifo_run c T xs (rq_abs c rq) = (rs, rq_abs c rq')"
  using assms(3,4)
proof (induction xs arbitrary: rq)
  case (Cons x xs)
  show ?case
  proof (cases x)
    case (Push t)
    with Cons.prems have "in_range c (t_priority (T t))" "ops_in_range c T xs"
      by (simp_all add: ops_in_range_def)
    from push_cases [where T = T and t = t, OF assms(1,2) Cons.prems(1) this(1)] show ?thesis
    proof cases
      case (1 rq1)
      from Cons.IH [OF 1(3) \<open>ops_in_range c T xs\<close>] show ?thesis
        using Push 1 by simp
    next
      case 2
      from Cons.IH [OF Cons.prems(1) \<open>ops_in_range c T xs\<close>] show ?thesis
        using Push 2 by simp
    qed
  next
    case Take
    obtain r p rq1 where t: "rq_take_task c D rq 0 = Inr ((r, p), rq1)" "rq_inv c rq1"
      "fifo_take c (rq_abs c rq) = (r, rq_abs c rq1)"
      using take_cases [OF assms(1,2) Cons.prems(1)] by metis
    have "ops_in_range c T xs" using Cons.prems(2) by (simp add: ops_in_range_def)
    from Cons.IH [OF t(2) this] show ?thesis using Take t by auto
  qed
qed simp

section \<open>Properties of the ready queue\<close>

definition one_queue :: "task list \<Rightarrow> task list list" where
  "one_queue q = [[], q] @ replicate 14 []"

definition example_queue :: "task list \<Rightarrow> ready_queue" where
  "example_queue q = queue_of (one_queue q)"

lemma default_levels [simp]: "PRIORITY_LEVELS default_config = 16"
  using PRIORITY_LEVELS_eq(1) [OF default_config_ok] by (simp add:)

lemma example_queue_inv: "length q \<le> 256 \<Longrightarrow> rq_inv default_config (example_queue q)"
  unfolding example_queue_def by (rule queue_of_inv) (simp_all add: one_queue_def)

lemma default_deque: "deque_laws (READY_QUEUE_SIZE default_config) (list_deque 256)"
  by (simp add:)

lemma example_queue_abs:
  "rq_abs default_config (example_queue q) = (\<lambda>p. if p = 1 then q else [])"
proof
  fix p
  have "nat p = 1 \<longleftrightarrow> p = 1" by auto
  then show "rq_abs default_config (example_queue q) p = (if p = 1 then q else [])"
    by (auto simp: rq_abs_def example_queue_def queue_of_def one_queue_def in_range_def slot_def
        nth_Cons' nth_append)
qed

text \<open>
  A take from a ready queue never panics; it gives the first task of the most urgent
  non-empty priority, or none where all are empty, refining the take of a priority FIFO, and
  reports the priority it took from.
\<close>

lemma ready_queue_take:
  assumes "config_ok c" "deque_laws (READY_QUEUE_SIZE c) D" "rq_inv c rq"
  shows "\<exists>r p rq'. rq_take_task c D rq cpu = Inr ((r, p), rq') \<and> rq_inv c rq' \<and>
    fifo_take c (rq_abs c rq) = (r, rq_abs c rq') \<and>
    p = (case fifo_top c (rq_abs c rq) of None \<Rightarrow> LOWEST_PRIORITY c + 1 | Some q \<Rightarrow> q)"
  using take_cases [OF assms] by metis

lemma ready_queue_take_witness:
  "\<exists>rq'. rq_take_task default_config (list_deque 256) (example_queue [7, 8]) 0 = Inr ((Some 7, 1), rq')"
proof -
  have "fifo_top default_config (\<lambda>p. if p = 1 then [7, 8] else []) = Some 1"
    by (simp add: fifo_top_def)
  then show ?thesis
    using ready_queue_take [OF default_config_ok default_deque example_queue_inv, of "[7, 8]" 0]
    by (auto simp: example_queue_abs fifo_take_def)
qed

text \<open>
  A push of a task whose priority is configured appends it to the list of its priority
  where that list has room; where it is full the task comes back and the queue is unchanged.
\<close>

lemma ready_queue_push:
  assumes "config_ok c" "deque_laws (READY_QUEUE_SIZE c) D" "rq_inv c rq" "in_range c (t_priority (T t))"
  shows "if length (rq_abs c rq (t_priority (T t))) < READY_QUEUE_SIZE c
    then \<exists>rq'. rq_push_task c D T rq t = Inr (Inr (), rq') \<and> rq_inv c rq' \<and>
      rq_abs c rq' = fifo_push (rq_abs c rq) (t_priority (T t)) t
    else rq_push_task c D T rq t = Inr (Inl t, rq)"
proof (rule push_cases [where T = T and t = t, OF assms])
qed auto

definition one_task :: "int \<Rightarrow> tcbs" where
  "one_task p = (\<lambda>_. \<lparr>t_state = Ready, t_priority = p, t_is_coroutine = False, t_is_kernel = True,
     t_pid = 0, t_thread_stack = 0, t_return_value = None, t_dealloced = False\<rparr>)"

lemma ready_queue_push_witness:
  "\<exists>rq'. rq_push_task default_config (list_deque 256) (one_task 1) (example_queue [7]) 9 = Inr (Inr (), rq') \<and>
     rq_abs default_config rq' 1 = [7, 9]"
  using ready_queue_push [OF default_config_ok default_deque example_queue_inv, of "[7]" "one_task 1" 9]
  by (auto simp: example_queue_abs one_task_def in_range_def fifo_push_def)

text \<open>
  A push of a task whose priority lies outside the configured range panics on the array
  index, above and below the range (below it the difference wraps around).
\<close>

lemma ready_queue_push_out_of_range:
  assumes "rq_inv c rq" "config_ok c" "\<not> in_range c (t_priority (T t))"
    and "- (2 ^ 62) \<le> t_priority (T t)" "t_priority (T t) < 2 ^ 62"
  shows "rq_push_task c D T rq t = Inl Index_out_of_bounds"
  using assms by (rule rq_push_task_out_of_range)

lemma ready_queue_push_out_of_range_witness:
  "rq_push_task default_config (list_deque 256) (one_task (- 3)) (example_queue []) 9 = Inl Index_out_of_bounds"
  using ready_queue_push_out_of_range [OF example_queue_inv default_config_ok, of "[]" "one_task (- 3)" 9]
  by (simp add: one_task_def in_range_def)

text \<open>
  C30: The priority computed from the bitmap, a scan over 64 bits, is the most urgent priority
  with a task, and one behind the lowest where there is none.
\<close>

theorem ready_queue_bitmap_priority:
  assumes "config_ok c" "rq_inv c rq"
  shows "rq_hightest_priority c rq cpu =
    (case fifo_top c (rq_abs c rq) of None \<Rightarrow> LOWEST_PRIORITY c + 1 | Some p \<Rightarrow> p)"
  using rq_hightest_priority_top [OF assms(2,1)] top_slot_le [of "queues rq"] assms(2)
    PRIORITY_LEVELS_eq(4) [OF assms(1)]
  by (auto simp: fifo_top_abs [OF assms] rq_inv_def)

lemma ready_queue_bitmap_priority_witness:
  "rq_hightest_priority default_config (example_queue [7]) 0 = 1"
  using ready_queue_bitmap_priority [OF default_config_ok example_queue_inv, of "[7]" 0]
  by (simp add: example_queue_abs fifo_top_def)

text \<open>
  C38: Where a take empties the most urgent list, the priority it reports is still that of the
  emptied list, more urgent than the queue's priority after the take: the value \<^verbatim>\<open>fetch_and\<close>
  returns is the bitmap before the bit was cleared.
\<close>

theorem ready_queue_take_stale_priority:
  assumes "config_ok c" "deque_laws (READY_QUEUE_SIZE c) D" "rq_inv c rq"
    and "fifo_top c (rq_abs c rq) = Some p" "rq_abs c rq p = [t]"
  shows "\<exists>rq'. rq_take_task c D rq cpu = Inr ((Some t, p), rq') \<and> p < rq_hightest_priority c rq' cpu"
proof -
  obtain r q rq' where t: "rq_take_task c D rq cpu = Inr ((r, q), rq')" "rq_inv c rq'"
    "fifo_take c (rq_abs c rq) = (r, rq_abs c rq')" "q = p"
    using take_cases [OF assms(1-3)] assms(4) by (metis option.simps(5))
  have r: "r = Some t" using t(3) assms(4,5) by (auto simp: fifo_take_def)
  have "rq_abs c rq' = (rq_abs c rq)(p := [])" using t(3) assms(4,5) by (simp add: fifo_take_def)
  then have empty: "rq_abs c rq' p = []" by simp
  have tk: "take_ref c rq = ((Some t, p), rq')" using rq_take_task_ref [OF assms(1-3), of cpu] t r by simp
  have le: "p \<le> rq_hightest_priority c rq' cpu" using take_ref_prio [OF assms(1,3) tk] .
  have "p \<le> LOWEST_PRIORITY c" using assms(4) by (auto simp: fifo_top_def find_Some_iff dest: nth_mem)
  moreover have "rq_abs c rq' p \<noteq> []" if "fifo_top c (rq_abs c rq') = Some p"
    using that by (auto simp: fifo_top_def find_Some_iff)
  ultimately have "rq_hightest_priority c rq' cpu \<noteq> p"
    using rq_hightest_priority_top [OF t(2) assms(1)] empty fifo_top_abs [OF assms(1) t(2)]
      top_slot_le [of "queues rq'"] t(2) PRIORITY_LEVELS_eq(4) [OF assms(1)]
    by (auto simp: rq_inv_def split: if_splits)
  with t r le show ?thesis by simp
qed

lemma ready_queue_take_stale_priority_witness:
  "\<exists>rq'. rq_take_task default_config (list_deque 256) (example_queue [7]) 0 = Inr ((Some 7, 1), rq') \<and>
     1 < rq_hightest_priority default_config rq' 0"
  by (rule ready_queue_take_stale_priority [OF default_config_ok default_deque example_queue_inv])
    (simp_all add: example_queue_abs fifo_top_def)

text \<open>
  C6: No sequence of pushes of configured priorities and takes makes a new ready queue panic,
  and the takes of the sequence give what the bounded priority lists give.
\<close>

theorem ready_queue_runs:
  assumes "config_ok c" "deque_laws (READY_QUEUE_SIZE c) D" "ops_in_range c T xs"
  shows "\<exists>rq rs rq'. ReadyQueue_new c D = Inr rq \<and> rq_run c D T xs rq = Inr (rs, rq') \<and>
    fifo_run c T xs (\<lambda>_. []) = (rs, rq_abs c rq')"
proof -
  obtain rq where rq: "ReadyQueue_new c D = Inr rq" "rq_inv c rq" "\<forall>q \<in> set (queues rq). q = []"
    using ReadyQueue_new_ok [OF assms(1,2)] by blast
  have "rq_abs c rq = (\<lambda>_. [])"
    using rq(2,3) slot_less [OF assms(1)] by (auto simp: rq_abs_def rq_inv_def)
  then show ?thesis using rq_run_refines [OF assms(1,2) rq(2) assms(3)] rq(1) by auto
qed

lemma ready_queue_runs_witness:
  "\<exists>rq rq'. ReadyQueue_new default_config (list_deque 256) = Inr rq \<and>
     rq_run default_config (list_deque 256) (one_task 3) [Push 5, Push 6, Take, Take, Take] rq =
       Inr ([Some 5, Some 6, None], rq')"
proof -
  have "ops_in_range default_config (one_task 3) [Push 5, Push 6, Take, Take, Take]"
    by (simp add: ops_in_range_def one_task_def in_range_def)
  moreover have "fst (fifo_run default_config (one_task 3) [Push 5, Push 6, Take, Take, Take] (\<lambda>_. [])) =
      [Some 5, Some 6, None]"
    by (simp add: fifo_take_def fifo_top_def fifo_push_def one_task_def)
  ultimately show ?thesis
    using ready_queue_runs [OF default_config_ok default_deque, of "one_task 3"] by fastforce
qed

end
