(* ===== verification/Process_Info.thy ===== *)
theory Process_Info
  imports Interface
begin

text \<open>
  \<^verbatim>\<open>src/schedule/process_info.rs\<close>: the global process table. A per-core array is a function
  of the core's number. An address space and a scheduler are named by the numbers of the
  space that holds them; \<open>None\<close> is the null pointer.
\<close>

section \<open>The program\<close>

record process_info =
  pi_valid :: bool
  pi_highest_prio :: "nat \<Rightarrow> int"
  pi_vspace :: "nat option"
  pi_scheduler :: "nat option"

record process_table =
  pt_table :: "process_info list"
  pt_next_i :: nat

definition ProcessInfo_empty :: process_info where
  "ProcessInfo_empty = \<lparr>pi_valid = False, pi_highest_prio = (\<lambda>_. isize_MAX),
     pi_vspace = None, pi_scheduler = None\<rparr>"

text \<open>The kernel is registered as process 0, without an address space.\<close>

definition ProcessInfoTable_default :: "config \<Rightarrow> process_table" where
  "ProcessInfoTable_default c = \<lparr>
     pt_table = (replicate (PROCESS_NUM c) ProcessInfo_empty)[0 := ProcessInfo_empty\<lparr>pi_valid := True\<rparr>],
     pt_next_i = 1\<rparr>"

text \<open>
  The loop of \<^verbatim>\<open>register_process\<close>: \<^verbatim>\<open>swap(true)\<close> changes a slot that is free only. \<open>None\<close>
  outside is a loop that does not return.
\<close>

partial_function (option) register_from ::
  "config \<Rightarrow> nat \<Rightarrow> process_table \<Rightarrow> nat \<Rightarrow> (nat option \<times> process_table) result option" where
  "register_from c start_index pt idx =
     (if length (pt_table pt) \<le> idx then Some (Inl Index_out_of_bounds)
      else if \<not> pi_valid (pt_table pt ! idx) then
        Some (Inr (Some idx,
          pt\<lparr>pt_table := (pt_table pt)[idx := (pt_table pt ! idx)\<lparr>pi_valid := True\<rparr>]\<rparr>))
      else
        let idx' = pt_next_i pt mod PROCESS_NUM c;
            pt' = pt\<lparr>pt_next_i := usize_incr (pt_next_i pt)\<rparr>
        in if idx' = start_index then Some (Inr (None, pt'))
           else register_from c start_index pt' idx')"

definition register_process ::
  "config \<Rightarrow> process_table \<Rightarrow> (nat option \<times> process_table) result option" where
  "register_process c pt =
     (let start_index = pt_next_i pt mod PROCESS_NUM c
      in register_from c start_index (pt\<lparr>pt_next_i := usize_incr (pt_next_i pt)\<rparr>) start_index)"

text \<open>
  \<^verbatim>\<open>unregister_process\<close>: the first component of the result says whether the slot was taken,
  the second is the address space handed to \<^verbatim>\<open>VSpace::dealloc\<close>.
\<close>

definition unregister_process ::
  "process_table \<Rightarrow> nat \<Rightarrow> ((bool \<times> nat option) \<times> process_table) result" where
  "unregister_process pt i =
     and_then (index (pt_table pt) i) (\<lambda>e.
       Inr ((pi_valid e, pi_vspace e),
         pt\<lparr>pt_table := (pt_table pt)[i := e\<lparr>pi_vspace := None, pi_valid := False\<rparr>]\<rparr>))"

text \<open>
  The loop of \<^verbatim>\<open>highest_prio_process\<close> over the window of table positions, with the smallest
  priority so far and the processes that have it.
\<close>

primrec highest_scan ::
  "config \<Rightarrow> nat vec_ops \<Rightarrow> process_table \<Rightarrow> nat \<Rightarrow> nat list \<Rightarrow> int \<Rightarrow> nat list \<Rightarrow> nat list result" where
  "highest_scan c V pt cpu_id [] highest_prio processes = Inr processes"
| "highest_scan c V pt cpu_id (i # is) highest_prio processes =
     and_then (index (pt_table pt) (i mod PROCESS_NUM c)) (\<lambda>e.
       if \<not> pi_valid e then highest_scan c V pt cpu_id is highest_prio processes
       else let prio = pi_highest_prio e cpu_id in
         if \<not> pi_valid e then highest_scan c V pt cpu_id is highest_prio processes
         else if prio < highest_prio then
           highest_scan c V pt cpu_id is prio (vec_from V [i mod PROCESS_NUM c])
         else if prio = highest_prio then
           and_then (unwrap (vec_push V processes (i mod PROCESS_NUM c))) (\<lambda>processes'.
             highest_scan c V pt cpu_id is highest_prio processes')
         else highest_scan c V pt cpu_id is highest_prio processes)"

definition scan_window :: "config \<Rightarrow> process_table \<Rightarrow> nat list" where
  "scan_window c pt =
     (let next_i = pt_next_i pt;
          start = (if PROCESS_NUM c \<le> next_i then next_i - PROCESS_NUM c else 0)
      in [start..<next_i])"

definition highest_prio_process ::
  "config \<Rightarrow> nat vec_ops \<Rightarrow> process_table \<Rightarrow> nat \<Rightarrow> nat \<Rightarrow> nat result" where
  "highest_prio_process c V pt current_process cpu_id =
     and_then (highest_scan c V pt cpu_id (scan_window c pt) isize_MAX (vec_new V)) (\<lambda>processes.
       if current_process \<in> set processes then Inr current_process
       else index processes 0)"

section \<open>The invariant of the table\<close>

text \<open>
  The kernel's slot is taken, every taken slot lies in the window the scan looks at, and the
  priorities are values of \<^verbatim>\<open>isize\<close>.
\<close>

definition pt_valid_at :: "process_table \<Rightarrow> nat \<Rightarrow> bool" where
  "pt_valid_at pt i \<longleftrightarrow> i < length (pt_table pt) \<and> pi_valid (pt_table pt ! i)"

definition pt_prio :: "process_table \<Rightarrow> nat \<Rightarrow> nat \<Rightarrow> int" where
  "pt_prio pt i cpu = pi_highest_prio (pt_table pt ! i) cpu"

definition pt_inv :: "config \<Rightarrow> process_table \<Rightarrow> bool" where
  "pt_inv c pt \<longleftrightarrow>
     length (pt_table pt) = PROCESS_NUM c \<and>
     pt_valid_at pt 0 \<and>
     (\<forall>i. pt_valid_at pt i \<longrightarrow> PROCESS_NUM c \<le> pt_next_i pt \<or> i < pt_next_i pt) \<and>
     (\<forall>i < PROCESS_NUM c. \<forall>cpu. pt_prio pt i cpu \<le> isize_MAX)"

lemma pt_invD:
  assumes "pt_inv c pt"
  shows "length (pt_table pt) = PROCESS_NUM c" "pt_valid_at pt 0" "0 < PROCESS_NUM c"
    "pt_valid_at pt i \<Longrightarrow> PROCESS_NUM c \<le> pt_next_i pt \<or> i < pt_next_i pt"
    "i < PROCESS_NUM c \<Longrightarrow> pt_prio pt i cpu \<le> isize_MAX"
  using assms by (auto simp: pt_inv_def pt_valid_at_def simp flip: length_greater_0_conv)

lemma default_pt_inv:
  assumes "0 < PROCESS_NUM c"
  shows "pt_inv c (ProcessInfoTable_default c)"
  using assms
  by (auto simp: pt_inv_def pt_valid_at_def pt_prio_def ProcessInfoTable_default_def
      ProcessInfo_empty_def nth_list_update split: if_splits)

section \<open>Registration finds a free slot\<close>

definition free_at :: "process_table \<Rightarrow> nat \<Rightarrow> bool" where
  "free_at pt i \<longleftrightarrow> \<not> pi_valid (pt_table pt ! i)"

lemma register_from_step:
  "idx < length (pt_table pt) \<Longrightarrow> register_from c start pt idx =
     (if free_at pt idx then
        Some (Inr (Some idx,
          pt\<lparr>pt_table := (pt_table pt)[idx := (pt_table pt ! idx)\<lparr>pi_valid := True\<rparr>]\<rparr>))
      else if pt_next_i pt mod PROCESS_NUM c = start then
        Some (Inr (None, pt\<lparr>pt_next_i := usize_incr (pt_next_i pt)\<rparr>))
      else register_from c start (pt\<lparr>pt_next_i := usize_incr (pt_next_i pt)\<rparr>)
        (pt_next_i pt mod PROCESS_NUM c))"
  by (subst register_from.simps) (simp add: free_at_def Let_def)

text \<open>The loop after \<open>j\<close> attempts, starting at position \<open>n\<close>.\<close>

lemma register_from_spec:
  assumes "0 < PROCESS_NUM c" "length (pt_table pt) = PROCESS_NUM c"
    and "j < PROCESS_NUM c" "pt_next_i pt = n + j + 1" "n + PROCESS_NUM c + 1 < 2 ^ 64"
    and "\<forall>m < j. \<not> free_at pt ((n + m) mod PROCESS_NUM c)"
  shows "(\<exists>m. j \<le> m \<and> m < PROCESS_NUM c \<and> free_at pt ((n + m) mod PROCESS_NUM c) \<and>
        register_from c (n mod PROCESS_NUM c) pt ((n + j) mod PROCESS_NUM c) =
          Some (Inr (Some ((n + m) mod PROCESS_NUM c),
            pt\<lparr>pt_table := (pt_table pt)[(n + m) mod PROCESS_NUM c :=
                (pt_table pt ! ((n + m) mod PROCESS_NUM c))\<lparr>pi_valid := True\<rparr>],
               pt_next_i := n + m + 1\<rparr>))) \<or>
      ((\<forall>m < PROCESS_NUM c. \<not> free_at pt ((n + m) mod PROCESS_NUM c)) \<and>
        register_from c (n mod PROCESS_NUM c) pt ((n + j) mod PROCESS_NUM c) =
          Some (Inr (None, pt\<lparr>pt_next_i := n + PROCESS_NUM c + 1\<rparr>)))"
  using assms(2-4,6)
proof (induction "PROCESS_NUM c - 1 - j" arbitrary: j pt)
  case 0
  let ?P = "PROCESS_NUM c" let ?i = "(n + j) mod ?P"
  have j: "j = ?P - 1" using 0 by simp
  have i: "?i < length (pt_table pt)" using 0 assms(1) by simp
  show ?case
  proof (cases "free_at pt ?i")
    case True
    then show ?thesis
      using 0 i assms(1)
      by (intro disjI1 exI [of _ j]) (simp add: register_from_step)
  next
    case False
    have "pt_next_i pt mod ?P = n mod ?P" using 0 j assms(1) by simp
    moreover have "usize_incr (pt_next_i pt) = n + ?P + 1"
      using 0 j assms(1,5) by (simp add: usize_incr_small)
    moreover have "\<not> free_at pt ((n + m) mod ?P)" if "m < ?P" for m
      using that 0(5) False j by (cases "m = j") auto
    ultimately show ?thesis
      using False i assms(1) 0(3)
      by (intro disjI2) (simp add: register_from_step)
  qed
next
  case (Suc k)
  let ?P = "PROCESS_NUM c" let ?i = "(n + j) mod ?P"
  have i: "?i < length (pt_table pt)" using Suc assms(1) by simp
  show ?case
  proof (cases "free_at pt ?i")
    case True
    then show ?thesis
      using Suc i assms(1)
      by (intro disjI1 exI [of _ j]) (simp add: register_from_step)
  next
    case False
    let ?pt = "pt\<lparr>pt_next_i := n + (j + 1) + 1\<rparr>"
    have lt: "j + 1 < ?P" using Suc.hyps(2) by simp
    have "(n + (j + 1)) mod ?P \<noteq> n mod ?P"
    proof
      assume "(n + (j + 1)) mod ?P = n mod ?P"
      then have "?P dvd j + 1" by (metis add_diff_cancel_left' le_add1 mod_eq_dvd_iff_nat)
      then show False using lt by (auto dest: dvd_imp_le)
    qed
    then have step: "register_from c (n mod ?P) pt ?i
        = register_from c (n mod ?P) ?pt ((n + (j + 1)) mod ?P)"
      using False i Suc.prems lt assms(1,5)
      by (simp add: register_from_step usize_incr_small)
    have nf: "\<forall>m < j + 1. \<not> free_at ?pt ((n + m) mod ?P)"
      using Suc.prems(4) False by (auto simp: free_at_def less_Suc_eq)
    have k: "k = ?P - 1 - (j + 1)" using Suc.hyps(2) by simp
    have "length (pt_table ?pt) = ?P" "pt_next_i ?pt = n + (j + 1) + 1"
      using Suc.prems(1) by simp_all
    from Suc.hyps(1) [OF k this(1) lt this(2) nf] show ?thesis
      unfolding step
    proof (elim disjE exE conjE, goal_cases)
      case (1 m)
      then show ?case by (intro disjI1 exI [of _ m]) (simp add: free_at_def)
    next
      case 2
      then show ?case by (intro disjI2) (simp add: free_at_def)
    qed
  qed
qed

lemma mod_window:
  assumes "0 < P" "i < P"
  shows "\<exists>m < P. (n + m) mod P = (i :: nat)"
proof -
  have "(n + (i + P - n mod P) mod P) mod P = (n + (i + P - n mod P)) mod P"
    by (simp add: mod_add_right_eq)
  also have "n + (i + P - n mod P) = i + P + P * (n div P)"
  proof -
    have "n = P * (n div P) + n mod P" by simp
    then show ?thesis using mod_less_divisor [OF assms(1), of n] by linarith
  qed
  also have "\<dots> mod P = i" using assms by simp
  finally show ?thesis using assms(1) by (intro exI [of _ "(i + P - n mod P) mod P"]) simp
qed

text \<open>
  Registration returns; it takes a slot that was free and changes nothing else of the table,
  or every slot is taken and the table stays as it is.
\<close>

lemma register_process_spec:
  assumes "pt_inv c pt" "pt_next_i pt + PROCESS_NUM c + 1 < 2 ^ 64"
  obtains
    (registered) i n where "register_process c pt = Some (Inr (Some i,
        pt\<lparr>pt_table := (pt_table pt)[i := (pt_table pt ! i)\<lparr>pi_valid := True\<rparr>], pt_next_i := n\<rparr>))"
      "i < PROCESS_NUM c" "\<not> pt_valid_at pt i" "pt_next_i pt < n"
      "PROCESS_NUM c \<le> n \<or> i < n" "n \<le> pt_next_i pt + PROCESS_NUM c"
  | (table_full) "register_process c pt = Some (Inr (None, pt\<lparr>pt_next_i := pt_next_i pt + PROCESS_NUM c + 1\<rparr>))"
      "\<forall>i < PROCESS_NUM c. pt_valid_at pt i"
proof -
  let ?P = "PROCESS_NUM c" let ?n = "pt_next_i pt"
  let ?pt = "pt\<lparr>pt_next_i := ?n + 1\<rparr>"
  note inv = pt_invD [OF assms(1)]
  have start: "register_process c pt = register_from c (?n mod ?P) ?pt ((?n + 0) mod ?P)"
    using assms(2) by (simp add: register_process_def Let_def usize_incr_small)
  have fr: "free_at ?pt i \<longleftrightarrow> \<not> pt_valid_at pt i" if "i < ?P" for i
    using that inv(1) by (simp add: free_at_def pt_valid_at_def)
  have "(\<exists>m < ?P. free_at ?pt ((?n + m) mod ?P) \<and>
        register_process c pt = Some (Inr (Some ((?n + m) mod ?P),
          ?pt\<lparr>pt_table := (pt_table ?pt)[(?n + m) mod ?P :=
            (pt_table ?pt ! ((?n + m) mod ?P))\<lparr>pi_valid := True\<rparr>], pt_next_i := ?n + m + 1\<rparr>))) \<or>
      (\<forall>m < ?P. \<not> free_at ?pt ((?n + m) mod ?P)) \<and>
        register_process c pt = Some (Inr (None, ?pt\<lparr>pt_next_i := ?n + ?P + 1\<rparr>))"
    unfolding start using register_from_spec [of c ?pt 0 ?n] inv(1,3) assms(2) by auto
  then show ?thesis
  proof (elim disjE exE conjE)
    fix m
    assume m: "m < ?P" "free_at ?pt ((?n + m) mod ?P)"
      "register_process c pt = Some (Inr (Some ((?n + m) mod ?P),
          ?pt\<lparr>pt_table := (pt_table ?pt)[(?n + m) mod ?P :=
            (pt_table ?pt ! ((?n + m) mod ?P))\<lparr>pi_valid := True\<rparr>], pt_next_i := ?n + m + 1\<rparr>))"
    show ?thesis
    proof (rule registered [of "(?n + m) mod ?P" "?n + m + 1"])
      show "?P \<le> ?n + m + 1 \<or> (?n + m) mod ?P < ?n + m + 1"
        by (simp add: less_Suc_eq_le)
    qed (use m fr inv(3) in auto)
  next
    assume all: "\<forall>m < ?P. \<not> free_at ?pt ((?n + m) mod ?P)"
      and eq: "register_process c pt = Some (Inr (None, ?pt\<lparr>pt_next_i := ?n + ?P + 1\<rparr>))"
    have "\<not> free_at ?pt i" if "i < ?P" for i
      using mod_window [OF inv(3) that, of ?n] all by blast
    with eq fr show ?thesis by (intro table_full) auto
  qed
qed

lemma register_process_inv:
  assumes "pt_inv c pt" "pt_next_i pt + PROCESS_NUM c + 1 < 2 ^ 64"
    and "register_process c pt = Some (Inr (r, pt'))"
  shows "pt_inv c pt'"
proof -
  note inv = pt_invD [OF assms(1)]
  from assms(1,2) show ?thesis
  proof (cases rule: register_process_spec)
    case (registered i n)
    with assms(3) have pt': "pt' = pt\<lparr>pt_table := (pt_table pt)[i := (pt_table pt ! i)\<lparr>pi_valid := True\<rparr>],
        pt_next_i := n\<rparr>" by simp
    have v: "pt_valid_at pt' k \<longleftrightarrow> k = i \<or> pt_valid_at pt k" for k
      using registered(2) inv(1) by (auto simp: pt' pt_valid_at_def nth_list_update)
    have p: "pt_prio pt' k cpu = pt_prio pt k cpu" for k cpu
      using registered(2) inv(1) by (cases "k = i") (simp_all add: pt' pt_prio_def)
    show ?thesis
      unfolding pt_inv_def v p using registered inv by (fastforce simp: pt')
  next
    case table_full
    with assms show ?thesis by (auto simp: pt_inv_def pt_valid_at_def pt_prio_def)
  qed
qed

section \<open>The process with the most urgent task\<close>

definition candidates :: "config \<Rightarrow> process_table \<Rightarrow> nat list \<Rightarrow> nat list" where
  "candidates c pt is = filter (pt_valid_at pt) (map (\<lambda>i. i mod PROCESS_NUM c) is)"

lemma candidates_simps [simp]:
  "candidates c pt [] = []"
  "candidates c pt (i # is) =
     (if pt_valid_at pt (i mod PROCESS_NUM c) then (i mod PROCESS_NUM c) # candidates c pt is
      else candidates c pt is)"
  by (simp_all add: candidates_def)

lemma highest_scan_spec:
  assumes "vec_laws (PROCESS_NUM c) V" "0 < PROCESS_NUM c" "length (pt_table pt) = PROCESS_NUM c"
    and "length ps + length is \<le> PROCESS_NUM c"
  shows "\<exists>hp'. highest_scan c V pt cpu is hp ps =
        Inr ((if hp' < hp then [] else ps) @ filter (\<lambda>i. pt_prio pt i cpu = hp') (candidates c pt is)) \<and>
      hp' \<le> hp \<and> (\<forall>i \<in> set (candidates c pt is). hp' \<le> pt_prio pt i cpu) \<and>
      (hp' = hp \<or> (\<exists>i \<in> set (candidates c pt is). pt_prio pt i cpu = hp'))"
  using assms(4)
proof (induction "is" arbitrary: hp ps)
  case Nil
  then show ?case by simp
next
  case (Cons i "is")
  let ?i = "i mod PROCESS_NUM c" let ?p = "pt_prio pt ?i cpu"
  note laws = vec_lawsD [OF assms(1)]
  have i: "?i < length (pt_table pt)" using assms(2,3) by simp
  have v: "pt_valid_at pt ?i \<longleftrightarrow> pi_valid (pt_table pt ! ?i)" using i by (simp add: pt_valid_at_def)
  show ?case
  proof (cases "pt_valid_at pt ?i")
    case False
    then show ?thesis using Cons.IH [of ps hp] Cons.prems i v by simp
  next
    case valid: True
    consider "?p < hp" | "?p = hp" | "hp < ?p" by linarith
    then show ?thesis
    proof cases
      case 1
      then have "highest_scan c V pt cpu (i # is) hp ps = highest_scan c V pt cpu is ?p [?i]"
        using valid v i Cons.prems by (simp add: laws pt_prio_def)
      moreover obtain hp' where hp': "highest_scan c V pt cpu is ?p [?i] =
            Inr ((if hp' < ?p then [] else [?i]) @ filter (\<lambda>i. pt_prio pt i cpu = hp') (candidates c pt is))"
          "hp' \<le> ?p" "\<forall>i \<in> set (candidates c pt is). hp' \<le> pt_prio pt i cpu"
          "hp' = ?p \<or> (\<exists>i \<in> set (candidates c pt is). pt_prio pt i cpu = hp')"
        using Cons.IH [of "[?i]" ?p] Cons.prems by auto
      ultimately show ?thesis using valid 1 by (intro exI [of _ hp']) auto
    next
      case 2
      then have "highest_scan c V pt cpu (i # is) hp ps = highest_scan c V pt cpu is hp (ps @ [?i])"
        using valid v i Cons.prems by (simp add: laws pt_prio_def)
      moreover obtain hp' where hp': "highest_scan c V pt cpu is hp (ps @ [?i]) =
            Inr ((if hp' < hp then [] else ps @ [?i]) @ filter (\<lambda>i. pt_prio pt i cpu = hp') (candidates c pt is))"
          "hp' \<le> hp" "\<forall>i \<in> set (candidates c pt is). hp' \<le> pt_prio pt i cpu"
          "hp' = hp \<or> (\<exists>i \<in> set (candidates c pt is). pt_prio pt i cpu = hp')"
        using Cons.IH [of "ps @ [?i]" hp] Cons.prems by auto
      ultimately show ?thesis using valid 2 by (intro exI [of _ hp']) auto
    next
      case 3
      then have "highest_scan c V pt cpu (i # is) hp ps = highest_scan c V pt cpu is hp ps"
        using valid v i by (simp add: pt_prio_def)
      moreover obtain hp' where hp': "highest_scan c V pt cpu is hp ps =
            Inr ((if hp' < hp then [] else ps) @ filter (\<lambda>i. pt_prio pt i cpu = hp') (candidates c pt is))"
          "hp' \<le> hp" "\<forall>i \<in> set (candidates c pt is). hp' \<le> pt_prio pt i cpu"
          "hp' = hp \<or> (\<exists>i \<in> set (candidates c pt is). pt_prio pt i cpu = hp')"
        using Cons.IH [of ps hp] Cons.prems by auto
      ultimately show ?thesis using valid 3 by (intro exI [of _ hp']) auto
    qed
  qed
qed

lemma length_scan_window: "length (scan_window c pt) \<le> PROCESS_NUM c"
  by (simp add: scan_window_def Let_def)

text \<open>The window of the scan reaches every taken slot.\<close>

lemma candidates_window:
  assumes "pt_inv c pt"
  shows "set (candidates c pt (scan_window c pt)) = {i. pt_valid_at pt i}"
proof (intro equalityI subsetI)
  fix i assume "i \<in> {i. pt_valid_at pt i}"
  then have v: "pt_valid_at pt i" by simp
  note inv = pt_invD [OF assms]
  have i: "i < PROCESS_NUM c" using v inv(1) by (simp add: pt_valid_at_def)
  show "i \<in> set (candidates c pt (scan_window c pt))"
  proof (cases "PROCESS_NUM c \<le> pt_next_i pt")
    case True
    obtain m where m: "m < PROCESS_NUM c" "(pt_next_i pt - PROCESS_NUM c + m) mod PROCESS_NUM c = i"
      using mod_window [OF inv(3) i] by blast
    then have "pt_next_i pt - PROCESS_NUM c + m \<in> set (scan_window c pt)"
      using True by (auto simp: scan_window_def Let_def)
    with m(2) v show ?thesis by (force simp: candidates_def)
  next
    case False
    then have "i \<in> set (scan_window c pt)" using inv(4) [OF v] by (simp add: scan_window_def Let_def)
    with i v show ?thesis by (force simp: candidates_def)
  qed
qed (auto simp: candidates_def)

lemma highest_prio_process_spec:
  assumes "pt_inv c pt" "vec_laws (PROCESS_NUM c) V"
  shows "\<exists>r. highest_prio_process c V pt cur cpu = Inr r \<and> pt_valid_at pt r \<and>
    (\<forall>j. pt_valid_at pt j \<longrightarrow> pt_prio pt r cpu \<le> pt_prio pt j cpu) \<and>
    (pt_valid_at pt cur \<and> (\<forall>j. pt_valid_at pt j \<longrightarrow> pt_prio pt cur cpu \<le> pt_prio pt j cpu) \<longrightarrow> r = cur)"
proof -
  note inv = pt_invD [OF assms(1)]
  let ?cand = "candidates c pt (scan_window c pt)"
  let ?best = "\<lambda>hp. filter (\<lambda>i. pt_prio pt i cpu = hp) ?cand"
  obtain hp where scan: "highest_scan c V pt cpu (scan_window c pt) isize_MAX (vec_new V) = Inr (?best hp)"
    and le: "hp \<le> isize_MAX" "\<forall>i \<in> set ?cand. hp \<le> pt_prio pt i cpu"
    and at: "hp = isize_MAX \<or> (\<exists>i \<in> set ?cand. pt_prio pt i cpu = hp)"
    using highest_scan_spec [OF assms(2) inv(3,1), of "[]" "scan_window c pt" cpu isize_MAX]
      length_scan_window [of c pt] vec_lawsD(1) [OF assms(2)] by auto
  have z: "0 \<in> set ?cand" using candidates_window [OF assms(1)] inv(2) by simp
  have "\<exists>i \<in> set ?cand. pt_prio pt i cpu = hp"
    using at le(2) z inv(5) [of 0 cpu] inv(3) by force
  then have ne: "?best hp \<noteq> []" by (auto simp: filter_empty_conv)
  have best: "i \<in> set (?best hp) \<longleftrightarrow>
      pt_valid_at pt i \<and> (\<forall>j. pt_valid_at pt j \<longrightarrow> pt_prio pt i cpu \<le> pt_prio pt j cpu)" for i
    using le(2) ne candidates_window [OF assms(1)] by (force simp: filter_empty_conv)
  obtain ps where ps: "ps = ?best hp" by blast
  have "hd ps \<in> set ps" using ne unfolding ps by (rule hd_in_set)
  with scan ne best show ?thesis
    unfolding ps [symmetric] by (cases "cur \<in> set ps") (auto simp: highest_prio_process_def index_def hd_conv_nth)
qed

section \<open>Changes of one entry\<close>

text \<open>\<^verbatim>\<open>Scheduler::update_prio\<close> and the other writers of the table change an entry of a process
  in place.\<close>

definition pt_update :: "(process_info \<Rightarrow> process_info) \<Rightarrow> nat \<Rightarrow> process_table \<Rightarrow> process_table" where
  "pt_update f i pt = pt\<lparr>pt_table := (pt_table pt)[i := f (pt_table pt ! i)]\<rparr>"

lemma pt_update_simps [simp]:
  "length (pt_table (pt_update f i pt)) = length (pt_table pt)"
  "pt_next_i (pt_update f i pt) = pt_next_i pt"
  by (simp_all add: pt_update_def)

lemma pt_update_nth [simp]:
  "pt_table (pt_update f i pt) ! j =
     (if i = j \<and> i < length (pt_table pt) then f (pt_table pt ! j) else pt_table pt ! j)"
proof (cases "i = j \<and> i < length (pt_table pt)")
  case True
  then show ?thesis by (simp add: pt_update_def)
next
  case False
  then show ?thesis
    by (cases "i = j") (simp_all add: pt_update_def list_update_beyond not_less)
qed

lemma pt_update_valid_at:
  assumes "\<And>e. pi_valid (f e) = pi_valid e"
  shows "pt_valid_at (pt_update f i pt) j = pt_valid_at pt j"
  using assms by (auto simp: pt_valid_at_def)

lemma pt_update_inv:
  assumes "pt_inv c pt" "\<And>e. pi_valid (f e) = pi_valid e"
    and "\<And>e cpu. (\<And>k. pi_highest_prio e k \<le> isize_MAX) \<Longrightarrow> pi_highest_prio (f e) cpu \<le> isize_MAX"
  shows "pt_inv c (pt_update f i pt)"
  using assms(1) assms(3)
  by (auto simp: pt_inv_def pt_update_valid_at [of f, OF assms(2)] pt_prio_def)

lemma unregister_process_spec:
  assumes "pt_inv c pt" "i < PROCESS_NUM c"
  shows "unregister_process pt i =
     Inr ((pt_valid_at pt i, pi_vspace (pt_table pt ! i)),
       pt_update (\<lambda>e. e\<lparr>pi_vspace := None, pi_valid := False\<rparr>) i pt)"
  using assms pt_invD(1) [OF assms(1)]
  by (simp add: unregister_process_def pt_valid_at_def pt_update_def)

text \<open>Dropping any process but the kernel keeps the invariant.\<close>

lemma unregister_process_inv:
  assumes "pt_inv c pt" "i < PROCESS_NUM c" "i \<noteq> 0" "unregister_process pt i = Inr (r, pt')"
  shows "pt_inv c pt'"
proof -
  have pt': "pt' = pt_update (\<lambda>e. e\<lparr>pi_vspace := None, pi_valid := False\<rparr>) i pt"
    using unregister_process_spec [OF assms(1,2)] assms(4) by simp
  have "pt_valid_at pt' j \<longleftrightarrow> pt_valid_at pt j \<and> j \<noteq> i" for j
    by (auto simp: pt' pt_valid_at_def)
  then show ?thesis
    using assms(1,3) by (auto simp: pt_inv_def pt' pt_prio_def)
qed

section \<open>What the table guarantees\<close>

text \<open>
  C29: While the counter of attempts is away from its wrap-around, registering a process returns:
  it takes a free slot and marks it taken, changing nothing else of the table, exactly when one
  is free, and otherwise changes the counter only; the invariant of the table is kept.
\<close>

theorem register_process_slot:
  assumes "pt_inv c pt" "pt_next_i pt + PROCESS_NUM c + 1 < 2 ^ 64"
  shows "\<exists>r pt'. register_process c pt = Some (Inr (r, pt')) \<and> pt_inv c pt' \<and>
    (case r of
       None \<Rightarrow> pt_table pt' = pt_table pt \<and> (\<forall>i < PROCESS_NUM c. pt_valid_at pt i)
     | Some i \<Rightarrow> i < PROCESS_NUM c \<and> \<not> pt_valid_at pt i \<and>
         pt_table pt' = (pt_table pt)[i := (pt_table pt ! i)\<lparr>pi_valid := True\<rparr>])"
  using assms
proof (cases rule: register_process_spec)
  case (registered i n)
  with register_process_inv [OF assms registered(1)] show ?thesis by auto
next
  case table_full
  with register_process_inv [OF assms table_full(1)] show ?thesis by auto
qed

lemma register_process_slot_witness:
  "\<exists>i pt'. register_process default_config (ProcessInfoTable_default default_config) = Some (Inr (Some i, pt')) \<and>
     0 < i"
proof -
  let ?pt = "ProcessInfoTable_default default_config"
  have inv: "pt_inv default_config ?pt" by (rule default_pt_inv) simp
  have v: "pt_valid_at ?pt i \<longleftrightarrow> i = 0" for i
    by (auto simp: pt_valid_at_def ProcessInfoTable_default_def ProcessInfo_empty_def nth_list_update)
  have n: "pt_next_i ?pt = 1" by (simp add: ProcessInfoTable_default_def)
  obtain r pt' where r: "register_process default_config ?pt = Some (Inr (r, pt'))"
    "case r of None \<Rightarrow> pt_table pt' = pt_table ?pt \<and> (\<forall>i < PROCESS_NUM default_config. pt_valid_at ?pt i)
     | Some i \<Rightarrow> i < PROCESS_NUM default_config \<and> \<not> pt_valid_at ?pt i \<and>
         pt_table pt' = (pt_table ?pt)[i := (pt_table ?pt ! i)\<lparr>pi_valid := True\<rparr>]"
    using register_process_slot [OF inv] n by auto
  have "\<not> (\<forall>i < PROCESS_NUM default_config. pt_valid_at ?pt i)"
    unfolding v by (intro notI) (drule spec [of _ 1], simp)
  with r(2) obtain i where "r = Some i" "\<not> pt_valid_at ?pt i" by (cases r) auto
  with r(1) v show ?thesis by auto
qed

text \<open>A table with the kernel and two processes, for the next properties.\<close>

definition small_table :: "int \<Rightarrow> int \<Rightarrow> int \<Rightarrow> process_table" where
  "small_table p0 p1 p2 = \<lparr>
     pt_table = map (\<lambda>p. \<lparr>pi_valid = True, pi_highest_prio = (\<lambda>_. p), pi_vspace = Some 7, pi_scheduler = Some 7\<rparr>)
       [p0, p1, p2],
     pt_next_i = 3\<rparr>"

definition three_processes :: config where
  "three_processes = default_config\<lparr>PROCESS_NUM := 3\<rparr>"

lemma three_processes_sel [simp]: "PROCESS_NUM three_processes = 3"
  by (simp add: three_processes_def)

lemma small_table_valid [simp]: "pt_valid_at (small_table p0 p1 p2) i \<longleftrightarrow> i < 3"
  by (auto simp: pt_valid_at_def small_table_def less_Suc_eq numeral_3_eq_3)

lemma small_table_prio [simp]:
  "pt_prio (small_table p0 p1 p2) 0 cpu = p0"
  "pt_prio (small_table p0 p1 p2) (Suc 0) cpu = p1"
  "pt_prio (small_table p0 p1 p2) (Suc (Suc 0)) cpu = p2"
  by (simp_all add: pt_prio_def small_table_def)

lemma small_table_inv:
  "p0 \<le> isize_MAX \<Longrightarrow> p1 \<le> isize_MAX \<Longrightarrow> p2 \<le> isize_MAX \<Longrightarrow> pt_inv three_processes (small_table p0 p1 p2)"
  by (auto simp: pt_inv_def less_Suc_eq numeral_3_eq_3) (simp_all add: small_table_def)

text \<open>
  The scan of the process table panics for no core; it gives a registered process whose
  published priority is the most urgent of all registered processes, and the current process
  where that one is as urgent.
\<close>

lemma highest_prio_process_best:
  assumes "pt_inv c pt" "vec_laws (PROCESS_NUM c) V"
  shows "\<exists>r. highest_prio_process c V pt cur cpu = Inr r \<and> pt_valid_at pt r \<and>
    (\<forall>j. pt_valid_at pt j \<longrightarrow> pt_prio pt r cpu \<le> pt_prio pt j cpu) \<and>
    (pt_valid_at pt cur \<and> (\<forall>j. pt_valid_at pt j \<longrightarrow> pt_prio pt cur cpu \<le> pt_prio pt j cpu) \<longrightarrow> r = cur)"
  using assms by (rule highest_prio_process_spec)

lemma highest_prio_process_best_witness:
  "highest_prio_process three_processes (list_vec 3) (small_table 5 2 2) 2 0 = Inr 2"
proof -
  have "pt_inv three_processes (small_table 5 2 2)"
    by (rule small_table_inv) (simp_all add: isize_MAX_def)
  from highest_prio_process_best [OF this, of "list_vec 3" 2 0] show ?thesis
    by (auto simp: less_Suc_eq numeral_3_eq_3 numeral_2_eq_2)
qed

end
