(* ===== verification/Stack_Handler.thy ===== *)
theory Stack_Handler
  imports Heapless "HOL-Library.Multiset"
begin

text \<open>
  \<^verbatim>\<open>src/stack/handler.rs\<close>: the pool of empty stacks of every core, the stack each core runs
  on, and the stack each core keeps for the next trap. A stack is named by the address of its
  \<^verbatim>\<open>Stack\<close> structure. The trait \<^verbatim>\<open>Stack\<close> is implemented by the operating system: its
  operations are the parameter \<open>stack_os\<close>, acting on the system's own state, which is a
  number here (of which the model looks at nothing).
\<close>

section \<open>The program\<close>

record stack_os =
  stk_alloc :: "nat \<Rightarrow> nat \<times> nat"        \<comment> \<open>the new stack, the system's new state\<close>
  stk_dealloc :: "nat \<Rightarrow> nat \<Rightarrow> nat"
  stk_base :: "nat \<Rightarrow> nat"

record stack_handler =
  free_stacks :: "nat \<Rightarrow> nat list"
  current_stack :: "nat \<Rightarrow> nat option"
  trap_stack :: "nat \<Rightarrow> nat option"

type_synonym stacks = "stack_handler \<times> nat"

definition StackHandler_default :: "index_map_ops \<Rightarrow> stack_handler" where
  "StackHandler_default M = \<lparr>free_stacks = (\<lambda>_. im_new M), current_stack = (\<lambda>_. None),
     trap_stack = (\<lambda>_. None)\<rparr>"

definition alloc_stack ::
  "index_map_ops \<Rightarrow> stack_os \<Rightarrow> stacks \<Rightarrow> nat \<Rightarrow> (nat \<times> stacks) result" where
  "alloc_stack M S st cpu_id =
     (case st of (sh, w) \<Rightarrow>
       case im_first M (free_stacks sh cpu_id) of
         Some addr \<Rightarrow>
           (case im_remove M (free_stacks sh cpu_id) addr of (found, m) \<Rightarrow>
              if found then Inr (addr, (sh\<lparr>free_stacks := (free_stacks sh)(cpu_id := m)\<rparr>, w))
              else Inl Unwrap_failed)
       | None \<Rightarrow> (case stk_alloc S w of (stack, w') \<Rightarrow> Inr (stack, (sh, w'))))"

definition dealloc_stack :: "index_map_ops \<Rightarrow> stack_os \<Rightarrow> stacks \<Rightarrow> nat \<Rightarrow> nat \<Rightarrow> stacks" where
  "dealloc_stack M S st stack cpu_id =
     (case st of (sh, w) \<Rightarrow>
        let m = snd (im_remove M (free_stacks sh cpu_id) stack);
            sh' = sh\<lparr>free_stacks := (free_stacks sh)(cpu_id := m)\<rparr>
        in case im_insert M m stack of
             None \<Rightarrow> (sh', stk_dealloc S stack w)
           | Some m' \<Rightarrow> (sh\<lparr>free_stacks := (free_stacks sh)(cpu_id := m')\<rparr>, w))"

text \<open>\<^verbatim>\<open>set_current_stack\<close> panics where another core runs on the same stack; it returns the
  stack the core ran on before.\<close>

definition in_use_by :: "stack_os \<Rightarrow> stack_handler \<Rightarrow> nat \<Rightarrow> nat \<Rightarrow> bool" where
  "in_use_by S sh stack i \<longleftrightarrow> (case current_stack sh i of
     None \<Rightarrow> False
   | Some cs \<Rightarrow> cs = stack \<and> stk_base S cs = stk_base S stack)"

definition set_current_stack ::
  "config \<Rightarrow> stack_os \<Rightarrow> stacks \<Rightarrow> nat \<Rightarrow> nat \<Rightarrow> (nat option \<times> stacks) result" where
  "set_current_stack c S st stack cpu_id =
     (case st of (sh, w) \<Rightarrow>
        if list_ex (in_use_by S sh stack) ([0..<cpu_id] @ [cpu_id + 1..<CPU_NUM c])
        then Inl Explicit_panic
        else Inr (current_stack sh cpu_id,
               (sh\<lparr>current_stack := (current_stack sh)(cpu_id := Some stack)\<rparr>, w)))"

definition take_current_stack :: "stacks \<Rightarrow> nat \<Rightarrow> (nat \<times> stacks) result" where
  "take_current_stack st cpu_id =
     (case st of (sh, w) \<Rightarrow>
        and_then (unwrap (current_stack sh cpu_id)) (\<lambda>stack.
          Inr (stack, (sh\<lparr>current_stack := (current_stack sh)(cpu_id := None)\<rparr>, w))))"

definition set_trap_stack :: "stacks \<Rightarrow> nat \<Rightarrow> nat \<Rightarrow> nat option \<times> stacks" where
  "set_trap_stack st stack cpu_id =
     (case st of (sh, w) \<Rightarrow>
        (trap_stack sh cpu_id, (sh\<lparr>trap_stack := (trap_stack sh)(cpu_id := Some stack)\<rparr>, w)))"

text \<open>\<^verbatim>\<open>alloc_trap_stack\<close> returns the base of the stack.\<close>

definition alloc_trap_stack ::
  "index_map_ops \<Rightarrow> stack_os \<Rightarrow> stacks \<Rightarrow> nat \<Rightarrow> (nat \<times> stacks) result" where
  "alloc_trap_stack M S st cpu_id =
     and_then (alloc_stack M S st cpu_id) (\<lambda>(stack, st1).
       let base = stk_base S stack; (old, st2) = set_trap_stack st1 stack cpu_id
       in and_then (assert_that (old = None)) (\<lambda>_. Inr (base, st2)))"

text \<open>The status of the stack, a parameter of the next two, is not used by the source.\<close>

definition get_empty_stack ::
  "config \<Rightarrow> index_map_ops \<Rightarrow> stack_os \<Rightarrow> nat \<Rightarrow> stacks \<Rightarrow> nat \<Rightarrow> (nat \<times> stacks) result" where
  "get_empty_stack c M S cpu_id st stack_type =
     and_then
       (if current_stack (fst st) cpu_id = None then
          and_then (alloc_stack M S st cpu_id) (\<lambda>(empty_stack, st1).
            and_then (set_current_stack c S st1 empty_stack cpu_id) (\<lambda>(old_stack, st2).
              and_then (assert_that (old_stack = None)) (\<lambda>_. Inr st2)))
        else Inr st)
       (\<lambda>st'. and_then (unwrap (current_stack (fst st') cpu_id)) (\<lambda>stack.
          Inr (stk_base S stack, st')))"

definition get_thread_stack ::
  "config \<Rightarrow> index_map_ops \<Rightarrow> stack_os \<Rightarrow> nat \<Rightarrow> stacks \<Rightarrow> nat option \<Rightarrow> nat \<Rightarrow> stacks result" where
  "get_thread_stack c M S cpu_id st thread_stack stack_type =
     and_then
       (case thread_stack of
          Some stack \<Rightarrow> set_current_stack c S st stack cpu_id
        | None \<Rightarrow>
            (case st of (sh, w) \<Rightarrow>
               Inr (current_stack sh cpu_id,
                 (sh\<lparr>current_stack := (current_stack sh)(cpu_id := None)\<rparr>, w))))
       (\<lambda>(old_stack, st').
          case old_stack of
            Some stack \<Rightarrow> Inr (dealloc_stack M S st' stack cpu_id)
          | None \<Rightarrow> Inr st')"

section \<open>Which stacks the handler owns\<close>

definition opt_mset :: "'a option \<Rightarrow> 'a multiset" where
  "opt_mset x = (case x of None \<Rightarrow> {#} | Some a \<Rightarrow> {#a#})"

lemma opt_mset_simps [simp]: "opt_mset None = {#}" "opt_mset (Some a) = {#a#}"
  by (simp_all add: opt_mset_def)

definition held :: "config \<Rightarrow> stack_handler \<Rightarrow> nat multiset" where
  "held c sh =
     (\<Sum>i<CPU_NUM c. mset (free_stacks sh i)) +
     (\<Sum>i<CPU_NUM c. opt_mset (current_stack sh i)) +
     (\<Sum>i<CPU_NUM c. opt_mset (trap_stack sh i))"

text \<open>The handler owns no stack twice, and no pool is over its size.\<close>

definition sh_inv :: "config \<Rightarrow> stack_handler \<Rightarrow> bool" where
  "sh_inv c sh \<longleftrightarrow>
     (\<forall>s. count (held c sh) s \<le> 1) \<and>
     (\<forall>i < CPU_NUM c. length (free_stacks sh i) \<le> STACK_POOL_SIZE c)"

text \<open>The documented behaviour of \<^verbatim>\<open>Stack::alloc\<close>: the stack it returns is not in use.\<close>

definition stack_laws :: "(nat \<Rightarrow> nat \<Rightarrow> bool) \<Rightarrow> stack_os \<Rightarrow> bool" where
  "stack_laws live S \<longleftrightarrow>
     (\<forall>w s w'. stk_alloc S w = (s, w') \<longrightarrow>
        \<not> live w s \<and> (\<forall>x. live w' x \<longleftrightarrow> live w x \<or> x = s)) \<and>
     (\<forall>w s x. live (stk_dealloc S s w) x \<longleftrightarrow> live w x \<and> x \<noteq> s)"

lemma sum_fun_upd:
  fixes f :: "'a \<Rightarrow> 'b multiset" and k :: nat
  assumes "k < n"
  shows "(\<Sum>i<n. f ((g(k := v)) i)) + f (g k) = (\<Sum>i<n. f (g i)) + f v"
proof -
  have "(\<Sum>i<n. f (h i)) = f (h k) + (\<Sum>i\<in>{..<n} - {k}. f (h i))" for h
    using assms by (intro sum.remove) auto
  from this [of "g(k := v)"] this [of g] show ?thesis by (simp add: add.commute)
qed

lemma held_current:
  assumes "cpu < CPU_NUM c"
  shows "held c (sh\<lparr>current_stack := (current_stack sh)(cpu := x)\<rparr>) + opt_mset (current_stack sh cpu)
    = held c sh + opt_mset x"
  using sum_fun_upd [OF assms, of opt_mset "current_stack sh" x]
  by (simp add: held_def ac_simps)

lemma held_trap:
  assumes "cpu < CPU_NUM c"
  shows "held c (sh\<lparr>trap_stack := (trap_stack sh)(cpu := x)\<rparr>) + opt_mset (trap_stack sh cpu)
    = held c sh + opt_mset x"
  using sum_fun_upd [OF assms, of opt_mset "trap_stack sh" x]
  by (simp add: held_def ac_simps)

lemma held_free:
  assumes "cpu < CPU_NUM c"
  shows "held c (sh\<lparr>free_stacks := (free_stacks sh)(cpu := m)\<rparr>) + mset (free_stacks sh cpu)
    = held c sh + mset m"
  using sum_fun_upd [OF assms, of mset "free_stacks sh" m]
  by (simp add: held_def ac_simps)

lemma part_le_sum:
  fixes f :: "nat \<Rightarrow> 'b multiset"
  assumes "k < n"
  shows "f k \<subseteq># (\<Sum>i<n. f i)"
proof -
  have "(\<Sum>i<n. f i) = f k + (\<Sum>i\<in>{..<n} - {k}. f i)"
    using assms by (intro sum.remove) auto
  then show ?thesis by simp
qed

lemma held_parts:
  assumes "cpu < CPU_NUM c"
  shows "mset (free_stacks sh cpu) + opt_mset (current_stack sh cpu) + opt_mset (trap_stack sh cpu)
    \<subseteq># held c sh"
  unfolding held_def
  using part_le_sum [OF assms, of "\<lambda>i. mset (free_stacks sh i)"]
    part_le_sum [OF assms, of "\<lambda>i. opt_mset (current_stack sh i)"]
    part_le_sum [OF assms, of "\<lambda>i. opt_mset (trap_stack sh i)"]
  by (intro subset_mset.add_mono)

lemma distinctI_count: "(\<And>a. count (mset xs) a \<le> 1) \<Longrightarrow> distinct xs"
  unfolding distinct_count_atmost_1
proof (intro allI)
  fix a assume le: "\<And>a. count (mset xs) a \<le> 1"
  show "count (mset xs) a = (if a \<in> set xs then 1 else 0)"
  proof (cases "a \<in> set xs")
    case True
    then have "0 < count (mset xs) a" by simp
    then have "count (mset xs) a = 1" using le [of a] by linarith
    with True show ?thesis by simp
  next
    case False
    then show ?thesis by (simp add: count_eq_zero_iff)
  qed
qed

text \<open>The invariant with the system's view: every stack the handler owns is allocated.\<close>

definition own_inv :: "config \<Rightarrow> (nat \<Rightarrow> nat \<Rightarrow> bool) \<Rightarrow> stacks \<Rightarrow> bool" where
  "own_inv c live st \<longleftrightarrow> sh_inv c (fst st) \<and> (\<forall>s \<in># held c (fst st). live (snd st) s)"

text \<open>A stack in other hands: allocated, and not owned by the handler.\<close>

definition loose :: "config \<Rightarrow> (nat \<Rightarrow> nat \<Rightarrow> bool) \<Rightarrow> stacks \<Rightarrow> nat \<Rightarrow> bool" where
  "loose c live st s \<longleftrightarrow> s \<notin># held c (fst st) \<and> live (snd st) s"

lemma own_invD:
  assumes "own_inv c live (sh, w)"
  shows "count (held c sh) s \<le> 1" "i < CPU_NUM c \<Longrightarrow> length (free_stacks sh i) \<le> STACK_POOL_SIZE c"
    "s \<in># held c sh \<Longrightarrow> live w s"
  using assms by (auto simp: own_inv_def sh_inv_def)

lemma own_inv_distinct_free:
  assumes "own_inv c live (sh, w)" "cpu < CPU_NUM c"
  shows "distinct (free_stacks sh cpu)"
proof -
  have "mset (free_stacks sh cpu) \<subseteq># held c sh"
    using held_parts [OF assms(2), of sh] by (meson mset_subset_eq_add_left subset_mset.trans)
  then have "count (mset (free_stacks sh cpu)) s \<le> count (held c sh) s" for s
    by (rule mset_subset_eq_count)
  then have "count (mset (free_stacks sh cpu)) s \<le> 1" for s
    by (rule order_trans [OF _ own_invD(1) [OF assms(1)]])
  then show ?thesis by (rule distinctI_count)
qed

text \<open>Two hands swap: what the handler gains was loose.\<close>

lemma own_inv_gain:
  assumes "own_inv c live (sh, w)" "loose c live (sh, w) s"
    and "held c sh' + d = held c sh + {#s#}"
    and "\<And>i. i < CPU_NUM c \<Longrightarrow> length (free_stacks sh' i) \<le> STACK_POOL_SIZE c"
  shows "own_inv c live (sh', w)" "x \<in># d \<Longrightarrow> loose c live (sh', w) x"
    "loose c live (sh, w) x \<Longrightarrow> x \<noteq> s \<Longrightarrow> loose c live (sh', w) x"
proof -
  show "loose c live (sh', w) x" if "loose c live (sh, w) x" "x \<noteq> s"
  proof -
    have "x \<notin># held c sh' + d" unfolding assms(3) using that by (simp add: loose_def)
    then show ?thesis using that by (auto simp: loose_def)
  qed
  note inv = own_invD [OF assms(1)]
  have cnt: "count (held c sh') x + count d x = count (held c sh) x + (if x = s then 1 else 0)" for x
    using arg_cong [OF assms(3), of "\<lambda>m. count m x"] by simp
  have s: "count (held c sh) s = 0" "live w s"
    using assms(2) by (auto simp: loose_def not_in_iff)
  have le: "count (held c sh') x + count d x \<le> 1" for x
    using cnt [of x] inv(1) [of x] s by (cases "x = s") auto
  have live: "live w x" if "0 < count (held c sh') x + count d x" for x
    using that cnt [of x] inv(3) [of x] s by (cases "x = s") (auto simp flip: count_greater_zero_iff)
  have "live w x" if "x \<in># held c sh'" for x
    using live [of x] that by (simp flip: count_greater_zero_iff)
  moreover have "count (held c sh') x \<le> 1" for x using le [of x] by linarith
  ultimately show "own_inv c live (sh', w)"
    using assms(4) by (simp add: own_inv_def sh_inv_def)
  show "loose c live (sh', w) x" if "x \<in># d"
  proof -
    have "0 < count d x" using that by simp
    then have "count (held c sh') x = 0" using le [of x] by linarith
    moreover have "live w x" using live [of x] \<open>0 < count d x\<close> by simp
    ultimately show ?thesis by (simp add: loose_def not_in_iff)
  qed
qed

text \<open>What the handler gives away becomes loose.\<close>

lemma own_inv_lose:
  assumes "own_inv c live (sh, w)" "held c sh' + d = held c sh"
    and "\<And>i. i < CPU_NUM c \<Longrightarrow> length (free_stacks sh' i) \<le> STACK_POOL_SIZE c"
  shows "own_inv c live (sh', w)" "x \<in># d \<Longrightarrow> loose c live (sh', w) x"
proof -
  note inv = own_invD [OF assms(1)]
  have cnt: "count (held c sh') x + count d x = count (held c sh) x" for x
    using arg_cong [OF assms(2), of "\<lambda>m. count m x"] by simp
  have "count (held c sh') x \<le> 1" for x using cnt [of x] inv(1) [of x] by linarith
  moreover have live: "live w x" if "0 < count (held c sh) x" for x using inv(3) that by simp
  moreover have "live w x" if "x \<in># held c sh'" for x
  proof -
    have "0 < count (held c sh') x" using that by simp
    then have "0 < count (held c sh) x" using cnt [of x] by linarith
    then show ?thesis by (rule live)
  qed
  ultimately show "own_inv c live (sh', w)" using assms(3) by (simp add: own_inv_def sh_inv_def)
  show "loose c live (sh', w) x" if "x \<in># d"
  proof -
    have d: "0 < count d x" using that by simp
    then have "count (held c sh') x = 0" using cnt [of x] inv(1) [of x] by linarith
    moreover have "live w x" using live [of x] cnt [of x] d by linarith
    ultimately show ?thesis by (simp add: loose_def not_in_iff)
  qed
qed

section \<open>The operations keep the ownership\<close>

definition handler_ok :: "config \<Rightarrow> index_map_ops \<Rightarrow> (nat \<Rightarrow> nat \<Rightarrow> bool) \<Rightarrow> stack_os \<Rightarrow> bool" where
  "handler_ok c M live S \<longleftrightarrow> index_map_laws (STACK_POOL_SIZE c) M \<and> stack_laws live S"

lemma index_mapD:
  assumes "index_map_laws N M" "distinct m"
  shows "im_first M m = None \<longleftrightarrow> m = []"
    and "im_first M m = Some a \<Longrightarrow> a \<in> set m"
    and "fst (im_remove M m a) \<longleftrightarrow> a \<in> set m"
    and "mset (snd (im_remove M m a)) = mset m - {#a#}"
    and "a \<notin> set m \<Longrightarrow> length m < N \<Longrightarrow> \<exists>m'. im_insert M m a = Some m' \<and> mset m' = mset m + {#a#}"
    and "a \<notin> set m \<Longrightarrow> \<not> length m < N \<Longrightarrow> im_insert M m a = None"
proof -
  note laws = assms(1) [unfolded index_map_laws_def]
  show "im_first M m = None \<longleftrightarrow> m = []" and "im_first M m = Some a \<Longrightarrow> a \<in> set m"
    and "fst (im_remove M m a) \<longleftrightarrow> a \<in> set m"
    and "a \<notin> set m \<Longrightarrow> \<not> length m < N \<Longrightarrow> im_insert M m a = None"
    using laws assms(2) by simp_all
  have "set (snd (im_remove M m a)) = set (remove1 a m)" "distinct (snd (im_remove M m a))"
    using laws assms(2) by simp_all
  then have "mset (snd (im_remove M m a)) = mset (remove1 a m)"
    using assms(2) by (intro iffD1 [OF set_eq_iff_mset_eq_distinct]) simp_all
  then show "mset (snd (im_remove M m a)) = mset m - {#a#}" by simp
  show "\<exists>m'. im_insert M m a = Some m' \<and> mset m' = mset m + {#a#}"
    if "a \<notin> set m" "length m < N"
  proof -
    have "\<exists>m'. im_insert M m a = Some m' \<and> set m' = insert a (set m) \<and> distinct m'"
    proof -
      have "distinct m \<and> a \<notin> set m \<longrightarrow> (if length m < N
          then (\<exists>m'. im_insert M m a = Some m' \<and> set m' = insert a (set m) \<and> distinct m')
          else im_insert M m a = None)" using laws by blast
      then show ?thesis using assms(2) that by simp
    qed
    then obtain m' where m': "im_insert M m a = Some m'" "set m' = insert a (set m)" "distinct m'"
      by blast
    then have "mset m' = mset (a # m)"
      using that(1) assms(2) by (subst set_eq_iff_mset_eq_distinct [symmetric]) auto
    with m'(1) show ?thesis by simp
  qed
qed

text \<open>Taking a stack: from the core's pool where it has one, otherwise a new one.\<close>

lemma alloc_stack_spec:
  assumes "handler_ok c M live S" "own_inv c live (sh, w)" "cpu < CPU_NUM c"
  obtains s sh' w' where "alloc_stack M S (sh, w) cpu = Inr (s, (sh', w'))"
    "own_inv c live (sh', w')" "loose c live (sh', w') s"
    "current_stack sh' = current_stack sh" "trap_stack sh' = trap_stack sh"
    "\<And>x. loose c live (sh, w) x \<Longrightarrow> loose c live (sh', w') x \<and> x \<noteq> s"
    "free_stacks sh cpu \<noteq> [] \<Longrightarrow> w' = w \<and> s \<in> set (free_stacks sh cpu)"
proof -
  have laws: "index_map_laws (STACK_POOL_SIZE c) M" "stack_laws live S"
    using assms(1) by (simp_all add: handler_ok_def)
  let ?m = "free_stacks sh cpu"
  have d: "distinct ?m" using assms(2,3) by (rule own_inv_distinct_free)
  note im = index_mapD [OF laws(1) d] and inv = own_invD [OF assms(2)]
  show thesis
  proof (cases "im_first M ?m")
    case (Some a)
    let ?m' = "snd (im_remove M ?m a)"
    let ?sh = "sh\<lparr>free_stacks := (free_stacks sh)(cpu := ?m')\<rparr>"
    have a: "a \<in> set ?m" using Some im(2) by simp
    have "mset ?m = mset ?m' + {#a#}" using im(4) [of a] a by simp
    then have "held c ?sh + {#a#} + mset ?m' = held c sh + mset ?m'"
      using held_free [OF assms(3), of sh ?m'] by (simp only: ac_simps)
    then have h: "held c ?sh + {#a#} = held c sh" by simp
    have "size (mset ?m') \<le> size (mset ?m)" unfolding im(4) by (rule size_mset_mono) simp
    then have l: "length (free_stacks ?sh i) \<le> STACK_POOL_SIZE c" if "i < CPU_NUM c" for i
      using inv(2) [OF that] inv(2) [OF assms(3)] by (auto simp: fun_upd_def)
    note lose = own_inv_lose [OF assms(2) h l]
    have "loose c live (?sh, w) x \<and> x \<noteq> a" if "loose c live (sh, w) x" for x
    proof -
      have "a \<in># held c sh" unfolding h [symmetric] by simp
      moreover have "x \<notin># held c ?sh + {#a#}" using that unfolding h by (simp add: loose_def)
      ultimately show ?thesis using that by (auto simp: loose_def)
    qed
    then show thesis
      using that [of a ?sh w] Some a im(3) [of a] lose
      by (cases "im_remove M ?m a") (auto simp: alloc_stack_def)
  next
    case None
    then have e: "?m = []" using im(1) by simp
    obtain s w' where al: "stk_alloc S w = (s, w')" by (cases "stk_alloc S w")
    then have s: "\<not> live w s" "\<And>x. live w' x \<longleftrightarrow> live w x \<or> x = s"
      using laws(2) by (auto simp: stack_laws_def)
    have "own_inv c live (sh, w')" "loose c live (sh, w') s"
      using assms(2) s by (auto simp: own_inv_def loose_def)
    moreover have "loose c live (sh, w') x \<and> x \<noteq> s" if "loose c live (sh, w) x" for x
      using that s by (auto simp: loose_def)
    ultimately show thesis
      using that [of s sh w'] None al e by (simp add: alloc_stack_def)
  qed
qed

text \<open>Giving a stack back: into the core's pool, or to the system where the pool is full.\<close>

lemma dealloc_stack_spec:
  assumes "handler_ok c M live S" "own_inv c live (sh, w)" "cpu < CPU_NUM c" "loose c live (sh, w) s"
  obtains sh' w' where "dealloc_stack M S (sh, w) s cpu = (sh', w')" "own_inv c live (sh', w')"
    "current_stack sh' = current_stack sh" "trap_stack sh' = trap_stack sh"
    "\<And>x. loose c live (sh, w) x \<Longrightarrow> x \<noteq> s \<Longrightarrow> loose c live (sh', w') x"
proof -
  have laws: "index_map_laws (STACK_POOL_SIZE c) M" "stack_laws live S"
    using assms(1) by (simp_all add: handler_ok_def)
  let ?m = "free_stacks sh cpu" let ?m' = "snd (im_remove M ?m s)"
  note inv = own_invD [OF assms(2)]
  have d: "distinct ?m" using assms(2,3) by (rule own_inv_distinct_free)
  have "mset ?m \<subseteq># held c sh"
    using held_parts [OF assms(3), of sh] by (meson mset_subset_eq_add_left subset_mset.trans)
  then have s: "s \<notin> set ?m" using assms(4) mset_subset_eqD by (fastforce simp: loose_def)
  have "mset ?m' = mset ?m" using index_mapD(4) [OF laws(1) d, of s] s by simp
  then have m': "mset ?m' = mset ?m" "length ?m' = length ?m" "s \<notin> set ?m'" "distinct ?m'"
    using s d by (auto dest: mset_eq_length mset_eq_setD mset_eq_imp_distinct_iff)
  show thesis
  proof (cases "length ?m' < STACK_POOL_SIZE c")
    case True
    then obtain m'' where m'': "im_insert M ?m' s = Some m''" "mset m'' = mset ?m' + {#s#}"
      using index_mapD(5) [OF laws(1) m'(4,3)] by blast
    let ?sh = "sh\<lparr>free_stacks := (free_stacks sh)(cpu := m'')\<rparr>"
    have "held c ?sh + {#} + mset ?m = held c sh + {#s#} + mset ?m"
      using held_free [OF assms(3), of sh m''] m''(2) m'(1) by (simp only: ac_simps add_0)
    then have h: "held c ?sh + {#} = held c sh + {#s#}" by simp
    have "size (mset m'') = Suc (length ?m)" unfolding m''(2) using m'(1) by simp
    then have l: "length (free_stacks ?sh i) \<le> STACK_POOL_SIZE c" if "i < CPU_NUM c" for i
      using inv(2) [OF that] True m'(2) by (auto simp: fun_upd_def)
    have "loose c live (?sh, w) x" if "loose c live (sh, w) x" "x \<noteq> s" for x
      using that h by (simp add: loose_def)
    then show thesis
      using that [of ?sh w] m''(1) own_inv_gain(1) [OF assms(2,4) h l]
      by (simp add: dealloc_stack_def Let_def)
  next
    case False
    then have e: "im_insert M ?m' s = None" using index_mapD(6) [OF laws(1) m'(4,3)] by simp
    let ?sh = "sh\<lparr>free_stacks := (free_stacks sh)(cpu := ?m')\<rparr>"
    have "held c ?sh + mset ?m = held c sh + mset ?m"
      using held_free [OF assms(3), of sh ?m'] m'(1) by simp
    then have h: "held c ?sh = held c sh" by simp
    have live: "live (stk_dealloc S s w) x \<longleftrightarrow> live w x \<and> x \<noteq> s" for x
      using laws(2) by (simp add: stack_laws_def)
    have "own_inv c live (?sh, stk_dealloc S s w)"
      using assms(2,4) m'(2) h live by (auto simp: own_inv_def sh_inv_def loose_def fun_upd_def)
    then show thesis
      using that [of ?sh "stk_dealloc S s w"] e h live
      by (simp add: dealloc_stack_def Let_def loose_def)
  qed
qed

lemma current_in_held:
  "i < CPU_NUM c \<Longrightarrow> current_stack sh i = Some s \<Longrightarrow> s \<in># held c sh"
  using held_parts [of i c sh] by (auto dest: mset_subset_eqD)

lemma trap_in_held:
  "i < CPU_NUM c \<Longrightarrow> trap_stack sh i = Some s \<Longrightarrow> s \<in># held c sh"
  using held_parts [of i c sh] by (auto dest: mset_subset_eqD)

text \<open>Two cores never run on one stack.\<close>

lemma current_stacks_differ:
  assumes "own_inv c live (sh, w)" "i < CPU_NUM c" "j < CPU_NUM c" "i \<noteq> j"
    and "current_stack sh i = Some s"
  shows "current_stack sh j \<noteq> Some s"
proof
  assume j: "current_stack sh j = Some s"
  let ?f = "\<lambda>i. opt_mset (current_stack sh i)"
  have "(\<Sum>i<CPU_NUM c. ?f i) = ?f i + (?f j + (\<Sum>i\<in>{..<CPU_NUM c} - {i} - {j}. ?f i))"
    using assms(2-4) by (subst sum.remove [of _ i], simp_all) (subst sum.remove [of _ j], auto)
  then have "2 \<le> count (held c sh) s" using assms(5) j by (simp add: held_def)
  with own_invD(1) [OF assms(1), of s] show False by linarith
qed

text \<open>Switching to a stack in nobody else's hands never panics.\<close>

lemma set_current_stack_spec:
  assumes "own_inv c live (sh, w)" "cpu < CPU_NUM c" "loose c live (sh, w) s"
  obtains sh' where "set_current_stack c S (sh, w) s cpu = Inr (current_stack sh cpu, (sh', w))"
    "sh' = sh\<lparr>current_stack := (current_stack sh)(cpu := Some s)\<rparr>"
    "own_inv c live (sh', w)" "\<And>x. current_stack sh cpu = Some x \<Longrightarrow> loose c live (sh', w) x"
    "\<And>x. loose c live (sh, w) x \<Longrightarrow> x \<noteq> s \<Longrightarrow> loose c live (sh', w) x"
proof -
  let ?sh = "sh\<lparr>current_stack := (current_stack sh)(cpu := Some s)\<rparr>"
  have "\<not> in_use_by S sh s i" if "i < CPU_NUM c" for i
    using current_in_held [OF that, of sh s] assms(3)
    by (auto simp: in_use_by_def loose_def split: option.splits)
  then have ok: "set_current_stack c S (sh, w) s cpu = Inr (current_stack sh cpu, (?sh, w))"
    using assms(2) by (auto simp: set_current_stack_def list_ex_iff)
  have h: "held c ?sh + opt_mset (current_stack sh cpu) = held c sh + {#s#}"
    using held_current [OF assms(2), of sh "Some s"] by simp
  have l: "length (free_stacks ?sh i) \<le> STACK_POOL_SIZE c" if "i < CPU_NUM c" for i
    using own_invD(2) [OF assms(1) that] by simp
  show thesis
    using that [OF ok refl own_inv_gain(1) [OF assms(1,3) h l]] own_inv_gain(2,3) [OF assms(1,3) h l] by simp
qed

lemma set_current_stack_panic_iff:
  assumes "cpu < CPU_NUM c"
  shows "set_current_stack c S (sh, w) s cpu = Inl Explicit_panic \<longleftrightarrow>
    (\<exists>i < CPU_NUM c. i \<noteq> cpu \<and> current_stack sh i = Some s)"
proof -
  have iff: "in_use_by S sh s i \<longleftrightarrow> current_stack sh i = Some s" for i
    by (auto simp: in_use_by_def split: option.splits)
  have ran: "set ([0..<cpu] @ [cpu + 1..<CPU_NUM c]) = {i. i < CPU_NUM c \<and> i \<noteq> cpu}"
    using assms by auto
  show ?thesis
    unfolding set_current_stack_def prod.case list_ex_iff ran iff by auto
qed

text \<open>\<^verbatim>\<open>get_thread_stack\<close>: the core runs on the thread's stack, and the stack it leaves goes
  back to the pool.\<close>

lemma get_thread_stack_spec:
  assumes "handler_ok c M live S" "own_inv c live (sh, w)" "cpu < CPU_NUM c"
    and "\<And>s. ts = Some s \<Longrightarrow> loose c live (sh, w) s"
  obtains sh' w' where "get_thread_stack c M S cpu (sh, w) ts k = Inr (sh', w')"
    "own_inv c live (sh', w')" "current_stack sh' = (current_stack sh)(cpu := ts)"
    "trap_stack sh' = trap_stack sh"
    "\<And>y. loose c live (sh, w) y \<Longrightarrow> ts \<noteq> Some y \<Longrightarrow> loose c live (sh', w') y"
proof (cases ts)
  case (Some s)
  obtain sh1 where s1: "set_current_stack c S (sh, w) s cpu = Inr (current_stack sh cpu, (sh1, w))"
    "sh1 = sh\<lparr>current_stack := (current_stack sh)(cpu := Some s)\<rparr>" "own_inv c live (sh1, w)"
    "\<And>x. current_stack sh cpu = Some x \<Longrightarrow> loose c live (sh1, w) x"
    "\<And>y. loose c live (sh, w) y \<Longrightarrow> y \<noteq> s \<Longrightarrow> loose c live (sh1, w) y"
    using set_current_stack_spec [OF assms(2,3) assms(4) [OF Some]] by metis
  show thesis
  proof (cases "current_stack sh cpu")
    case None
    with s1 Some that [of sh1 w] show thesis by (simp add: get_thread_stack_def)
  next
    case (Some old)
    obtain sh2 w2 where "dealloc_stack M S (sh1, w) old cpu = (sh2, w2)" "own_inv c live (sh2, w2)"
      "current_stack sh2 = current_stack sh1" "trap_stack sh2 = trap_stack sh1"
      "\<And>y. loose c live (sh1, w) y \<Longrightarrow> y \<noteq> old \<Longrightarrow> loose c live (sh2, w2) y"
      using dealloc_stack_spec [OF assms(1) s1(3) assms(3) s1(4) [OF Some]] by metis
    moreover have "y \<noteq> old" if "loose c live (sh, w) y" for y
      using that current_in_held [OF assms(3) Some] by (auto simp: loose_def)
    ultimately show thesis
      using s1 Some \<open>ts = Some s\<close> that [of sh2 w2] by (simp add: get_thread_stack_def)
  qed
next
  case None
  let ?sh1 = "sh\<lparr>current_stack := (current_stack sh)(cpu := None)\<rparr>"
  have h: "held c ?sh1 + opt_mset (current_stack sh cpu) = held c sh"
    using held_current [OF assms(3), of sh None] by simp
  have l: "length (free_stacks ?sh1 i) \<le> STACK_POOL_SIZE c" if "i < CPU_NUM c" for i
    using own_invD(2) [OF assms(2) that] by simp
  note lose = own_inv_lose [OF assms(2) h l]
  show thesis
  proof (cases "current_stack sh cpu")
    case cur: None
    with h have "loose c live (sh, w) y \<Longrightarrow> loose c live (?sh1, w) y" for y by (simp add: loose_def)
    with None cur lose(1) that [of ?sh1 w] show thesis by (simp add: get_thread_stack_def)
  next
    case (Some old)
    then have "loose c live (?sh1, w) old" using lose(2) [of old] by simp
    from dealloc_stack_spec [OF assms(1) lose(1) assms(3) this]
    obtain sh2 w2 where "dealloc_stack M S (?sh1, w) old cpu = (sh2, w2)" "own_inv c live (sh2, w2)"
      "current_stack sh2 = current_stack ?sh1" "trap_stack sh2 = trap_stack ?sh1"
      "\<And>y. loose c live (?sh1, w) y \<Longrightarrow> y \<noteq> old \<Longrightarrow> loose c live (sh2, w2) y"
      by metis
    moreover have "y \<noteq> old \<and> loose c live (?sh1, w) y" if "loose c live (sh, w) y" for y
      using that current_in_held [OF assms(3) Some] arg_cong [OF h, of "\<lambda>m. y \<in># m"] by (auto simp: loose_def)
    ultimately show thesis
      using None Some that [of sh2 w2] by (simp add: get_thread_stack_def)
  qed
qed

text \<open>\<^verbatim>\<open>get_empty_stack\<close>: the core runs on an empty stack, whose base is returned.\<close>

lemma get_empty_stack_spec:
  assumes "handler_ok c M live S" "own_inv c live (sh, w)" "cpu < CPU_NUM c"
  obtains s sh' w' where "get_empty_stack c M S cpu (sh, w) k = Inr (stk_base S s, (sh', w'))"
    "own_inv c live (sh', w')" "current_stack sh' cpu = Some s"
    "\<And>i. i \<noteq> cpu \<Longrightarrow> current_stack sh' i = current_stack sh i" "trap_stack sh' = trap_stack sh"
    "current_stack sh cpu \<noteq> None \<Longrightarrow> (sh', w') = (sh, w)"
    "\<And>y. loose c live (sh, w) y \<Longrightarrow> loose c live (sh', w') y \<and> y \<noteq> s"
proof (cases "current_stack sh cpu")
  case (Some s)
  then show thesis
    using that [of s sh w] assms(2) current_in_held [OF assms(3) Some] by (auto simp: get_empty_stack_def loose_def)
next
  case None
  obtain s sh1 w1 where a: "alloc_stack M S (sh, w) cpu = Inr (s, (sh1, w1))"
    "own_inv c live (sh1, w1)" "loose c live (sh1, w1) s"
    "current_stack sh1 = current_stack sh" "trap_stack sh1 = trap_stack sh"
    "\<And>y. loose c live (sh, w) y \<Longrightarrow> loose c live (sh1, w1) y \<and> y \<noteq> s"
    using alloc_stack_spec [OF assms] by metis
  obtain sh2 where b: "set_current_stack c S (sh1, w1) s cpu = Inr (current_stack sh1 cpu, (sh2, w1))"
    "sh2 = sh1\<lparr>current_stack := (current_stack sh1)(cpu := Some s)\<rparr>" "own_inv c live (sh2, w1)"
    "\<And>y. loose c live (sh1, w1) y \<Longrightarrow> y \<noteq> s \<Longrightarrow> loose c live (sh2, w1) y"
    using set_current_stack_spec [OF a(2) assms(3) a(3)] by metis
  show thesis
    using that [of s sh2 w1] None a b by (simp add: get_empty_stack_def)
qed

section \<open>The stack for the next trap\<close>

lemma set_trap_stack_spec:
  assumes "own_inv c live (sh, w)" "cpu < CPU_NUM c" "loose c live (sh, w) s"
  obtains sh' where "set_trap_stack (sh, w) s cpu = (trap_stack sh cpu, (sh', w))"
    "own_inv c live (sh', w)" "trap_stack sh' = (trap_stack sh)(cpu := Some s)"
    "current_stack sh' = current_stack sh"
    "\<And>x. trap_stack sh cpu = Some x \<Longrightarrow> loose c live (sh', w) x"
    "\<And>x. loose c live (sh, w) x \<Longrightarrow> x \<noteq> s \<Longrightarrow> loose c live (sh', w) x"
proof -
  let ?sh = "sh\<lparr>trap_stack := (trap_stack sh)(cpu := Some s)\<rparr>"
  have h: "held c ?sh + opt_mset (trap_stack sh cpu) = held c sh + {#s#}"
    using held_trap [OF assms(2), of sh "Some s"] by simp
  have l: "length (free_stacks ?sh i) \<le> STACK_POOL_SIZE c" if "i < CPU_NUM c" for i
    using own_invD(2) [OF assms(1) that] by simp
  show thesis
    using that [of ?sh] own_inv_gain [OF assms(1,3) h l] by (simp add: set_trap_stack_def)
qed

lemma alloc_trap_stack_spec:
  assumes "handler_ok c M live S" "own_inv c live (sh, w)" "cpu < CPU_NUM c" "trap_stack sh cpu = None"
  obtains s sh' w' where "alloc_trap_stack M S (sh, w) cpu = Inr (stk_base S s, (sh', w'))"
    "own_inv c live (sh', w')" "trap_stack sh' cpu = Some s" "current_stack sh' = current_stack sh"
proof -
  obtain s sh1 w1 where a: "alloc_stack M S (sh, w) cpu = Inr (s, (sh1, w1))"
    "own_inv c live (sh1, w1)" "loose c live (sh1, w1) s"
    "current_stack sh1 = current_stack sh" "trap_stack sh1 = trap_stack sh"
    using alloc_stack_spec [OF assms(1-3)] by metis
  obtain sh2 where b: "set_trap_stack (sh1, w1) s cpu = (trap_stack sh1 cpu, (sh2, w1))"
    "own_inv c live (sh2, w1)" "trap_stack sh2 = (trap_stack sh1)(cpu := Some s)"
    "current_stack sh2 = current_stack sh1"
    using set_trap_stack_spec [OF a(2) assms(3) a(3)] by metis
  show thesis
    using that [of s sh2 w1] a b assms(4) by (simp add: alloc_trap_stack_def Let_def)
qed

text \<open>What allocating a stack keeps of the system's state.\<close>

definition alloc_keeps :: "stack_os \<Rightarrow> (nat \<Rightarrow> bool) \<Rightarrow> bool" where
  "alloc_keeps S P \<longleftrightarrow> (\<forall>w s w'. stk_alloc S w = (s, w') \<longrightarrow> P w \<longrightarrow> P w')"

lemma alloc_stack_world:
  assumes "alloc_keeps S P" "alloc_stack M S (sh, w) cpu = Inr (s, (sh', w'))" "P w"
  shows "P w'"
  using assms by (auto simp: alloc_stack_def alloc_keeps_def split: option.splits prod.splits if_splits)

lemma alloc_trap_stack_world:
  assumes "alloc_keeps S P" "alloc_trap_stack M S (sh, w) cpu = Inr (b, (sh', w'))" "P w"
  shows "P w'"
proof -
  obtain s sh1 w1 where "alloc_stack M S (sh, w) cpu = Inr (s, (sh1, w1))" "w' = w1"
    using assms(2)
    by (auto simp: alloc_trap_stack_def and_then_Inr_iff set_trap_stack_def Let_def split: prod.splits)
  then show ?thesis using alloc_stack_world [OF assms(1) _ assms(3)] by blast
qed

lemma get_empty_stack_world:
  assumes "alloc_keeps S P" "get_empty_stack c M S cpu (sh, w) k = Inr (b, (sh', w'))" "P w"
  shows "P w'"
proof (cases "current_stack sh cpu")
  case (Some x)
  with assms(2,3) show ?thesis by (auto simp: get_empty_stack_def and_then_Inr_iff)
next
  case None
  then obtain x sh1 w1 where "alloc_stack M S (sh, w) cpu = Inr (x, (sh1, w1))" "w' = w1"
    using assms(2)
    by (auto simp: get_empty_stack_def and_then_Inr_iff set_current_stack_def split: if_splits)
  then show ?thesis using alloc_stack_world [OF assms(1) _ assms(3)] by blast
qed

end
