(* ===== verification/Current.thy ===== *)
theory Current
  imports Ready_Queue Process_Info Stack_Handler
begin

text \<open>
  \<^verbatim>\<open>src/current.rs\<close> and the data of \<^verbatim>\<open>src/schedule/scheduler.rs\<close> and
  \<^verbatim>\<open>src/schedule/trap_wait_queue.rs\<close>: the state of the machine the scheduler runs on. The
  variables keep the names of the source; a variable with one value per core is a function of
  the core's number. Variables private to a vDSO (\<^verbatim>\<open>USER_SCHEDULER\<close>, \<^verbatim>\<open>STACK_HANDLER\<close>) have
  one instance per space: space 0 is the kernel, space \<open>v\<close> the user half of the address space
  \<open>v\<close>.
\<close>

section \<open>The data of a scheduler\<close>

type_synonym trap_item = "nat \<times> task option"

record trap_wait_queue =
  tw_queues :: "nat \<Rightarrow> trap_item list"
  idle_handlers :: "task list"

record event_source_entry =
  kernel_data :: ptr
  user_data :: ptr
  es_vtable :: vtable

record scheduler =
  sources :: "event_source_entry list"
  global_index :: nat
  s_ready_queue :: ready_queue
  s_trap_wait_queue :: trap_wait_queue

section \<open>The machine\<close>

text \<open>
  After the variables of the source: the scratch register that holds the stack for the next
  trap, the interrupt enable bit, the address space a core translates with, what was handed to
  the system's \<^verbatim>\<open>dealloc\<close> functions, and the system's own state.
\<close>

record sys =
  TCBS :: tcbs
  CURRENT_TASK :: "nat \<Rightarrow> task option"
  SCHEDULER_WAIT_CONTEXT :: "nat \<Rightarrow> task option"
  IS_SLEEPING :: "nat \<Rightarrow> bool"
  KERNEL_SCHEDULER :: "nat option"
  IN_KERNEL :: "nat \<Rightarrow> bool"
  CURRENT_VSPACE :: "nat \<Rightarrow> nat"
  PROCESS_INFO_TABLE :: process_table
  KERNEL_STACKS :: stack_handler
  USER_SCHEDULER :: "nat \<Rightarrow> scheduler option"
  STACK_HANDLER :: "nat \<Rightarrow> stack_handler option"
  SSCRATCH :: "nat \<Rightarrow> nat"
  IRQ_ENABLED :: "nat \<Rightarrow> bool"
  ACTIVE_VSPACE :: "nat \<Rightarrow> nat"
  DROPPED_TRAPS :: "nat list"
  DROPPED_VSPACES :: "nat list"
  WORLD :: nat

text \<open>The containers the program uses.\<close>

record lib =
  ready_deque :: "task deque_ops"
  trap_deque :: "trap_item deque_ops"
  idle_deque :: "task deque_ops"
  sources_vec :: "event_source_entry vec_ops"
  pids_vec :: "nat vec_ops"
  stacks_map :: index_map_ops

definition lib_laws :: "config \<Rightarrow> lib \<Rightarrow> bool" where
  "lib_laws c L \<longleftrightarrow>
     deque_laws (READY_QUEUE_SIZE c) (ready_deque L) \<and>
     deque_laws (TRAP_WAIT_QUEUE_SIZE c) (trap_deque L) \<and>
     deque_laws (TRAP_WAIT_QUEUE_SIZE c) (idle_deque L) \<and>
     vec_laws (EVENT_SORCE_NUM c) (sources_vec L) \<and>
     vec_laws (PROCESS_NUM c) (pids_vec L) \<and>
     index_map_laws (STACK_POOL_SIZE c) (stacks_map L)"

lemma lib_lawsD:
  assumes "lib_laws c L"
  shows "deque_laws (READY_QUEUE_SIZE c) (ready_deque L)"
    "deque_laws (TRAP_WAIT_QUEUE_SIZE c) (trap_deque L)"
    "deque_laws (TRAP_WAIT_QUEUE_SIZE c) (idle_deque L)"
    "vec_laws (EVENT_SORCE_NUM c) (sources_vec L)"
    "vec_laws (PROCESS_NUM c) (pids_vec L)"
    "index_map_laws (STACK_POOL_SIZE c) (stacks_map L)"
  using assms by (simp_all add: lib_laws_def)

definition list_lib :: "config \<Rightarrow> lib" where
  "list_lib c = \<lparr>
     ready_deque = list_deque (READY_QUEUE_SIZE c),
     trap_deque = list_deque (TRAP_WAIT_QUEUE_SIZE c),
     idle_deque = list_deque (TRAP_WAIT_QUEUE_SIZE c),
     sources_vec = list_vec (EVENT_SORCE_NUM c),
     pids_vec = list_vec (PROCESS_NUM c),
     stacks_map = list_index_map (STACK_POOL_SIZE c)\<rparr>"

lemma list_lib_laws [simp, intro]: "lib_laws c (list_lib c)"
  by (simp add: lib_laws_def list_lib_def)

text \<open>
  The operating system: what the traits \<^verbatim>\<open>Stack\<close>, \<^verbatim>\<open>TrapInfo\<close>, \<^verbatim>\<open>Task\<close>, \<^verbatim>\<open>UserData\<close> and the
  event sources outside the repository do. A function that may run arbitrary code of the
  system takes the machine and returns it changed, and the core it returns on where the caller
  may have moved. \<open>os_task_live\<close> says which tasks exist in a state of the system; \<open>os_observed\<close> are the states a core sees,
  poll by poll, while it waits for another core to finish saving a task's context.
\<close>

record os =
  os_stack :: stack_os
  os_task_live :: "nat \<Rightarrow> task \<Rightarrow> bool"
  os_new_handler :: "nat option \<Rightarrow> sys \<Rightarrow> task \<times> sys"
  os_from_task :: "task \<Rightarrow> sys \<Rightarrow> nat \<times> sys"
  os_handle :: "nat \<Rightarrow> task option \<Rightarrow> nat \<Rightarrow> sys \<Rightarrow> nat \<times> sys"
  os_resched :: "task \<Rightarrow> nat \<Rightarrow> sys \<Rightarrow> nat \<times> sys"
  os_poll :: "task \<Rightarrow> nat \<Rightarrow> sys \<Rightarrow> int option \<times> nat \<times> sys"
  os_wfi :: "nat \<Rightarrow> sys \<Rightarrow> sys option"
  os_observed :: "task \<Rightarrow> sys \<Rightarrow> TaskState list"
  os_get_user_data :: "nat option \<Rightarrow> nat option"
  os_get_user_addr :: get_user_addr
  os_ext_hightest_priority :: "nat \<Rightarrow> nat \<Rightarrow> sys \<Rightarrow> int"
  os_ext_take_task :: "nat \<Rightarrow> nat \<Rightarrow> sys \<Rightarrow> (task option \<times> int) \<times> sys"

section \<open>Accessors\<close>

definition get_current_task :: "sys \<Rightarrow> nat \<Rightarrow> task result" where
  "get_current_task s cpu_id = deref (CURRENT_TASK s cpu_id)"

definition set_current_task :: "nat \<Rightarrow> task \<Rightarrow> sys \<Rightarrow> sys" where
  "set_current_task cpu_id task s = s\<lparr>CURRENT_TASK := (CURRENT_TASK s)(cpu_id := Some task)\<rparr>"

text \<open>
  The space whose private variables the running code sees: the kernel's in the kernel, those
  of the active address space otherwise.
\<close>

definition private_space :: "sys \<Rightarrow> nat \<Rightarrow> nat" where
  "private_space s cpu_id = (if IN_KERNEL s cpu_id then 0 else ACTIVE_VSPACE s cpu_id)"

text \<open>
  \<^verbatim>\<open>get_user_data\<close> of a private variable: the space whose instance the returned reference
  names. Without an address space the source passes \<^verbatim>\<open>CURRENT_VSPACE\<close>, which is a process
  number, in place of the pointer.
\<close>

definition get_user_data :: "os \<Rightarrow> sys \<Rightarrow> nat \<Rightarrow> nat option \<Rightarrow> nat result" where
  "get_user_data E s cpu_id vspace =
     (let vspace' = (case vspace of Some v \<Rightarrow> Some v | None \<Rightarrow> Some (CURRENT_VSPACE s cpu_id))
      in and_then (assert_that (vspace' \<noteq> None)) (\<lambda>_.
         case os_get_user_data E vspace' of
           None \<Rightarrow> Inl Assertion_failed
         | Some space \<Rightarrow> Inr space))"

text \<open>The documented behaviour of the trait \<^verbatim>\<open>UserData\<close>: the data of the requested space.\<close>

definition user_data_laws :: "os \<Rightarrow> bool" where
  "user_data_laws E \<longleftrightarrow>
     (\<forall>v. v \<noteq> 0 \<longrightarrow> os_get_user_data E (Some v) = Some v) \<and> user_addr_laws (os_get_user_addr E)"

definition get_user_addr :: "os \<Rightarrow> ptr \<Rightarrow> nat \<Rightarrow> nat option \<Rightarrow> ptr result" where
  "get_user_addr E data len vspace =
     (let user_ptr = os_get_user_addr E data len vspace
      in and_then (assert_that (user_ptr \<noteq> Null)) (\<lambda>_. Inr user_ptr))"

text \<open>\<^verbatim>\<open>USER_SCHEDULER.get().unwrap()\<close>, and a reference to the scheduler at an address.\<close>

definition scheduler_at :: "sys \<Rightarrow> nat \<Rightarrow> scheduler result" where
  "scheduler_at s k = unwrap (USER_SCHEDULER s k)"

definition set_scheduler :: "nat \<Rightarrow> scheduler \<Rightarrow> sys \<Rightarrow> sys" where
  "set_scheduler k sc s = s\<lparr>USER_SCHEDULER := (USER_SCHEDULER s)(k := Some sc)\<rparr>"

lemma set_scheduler_sel [simp]:
  "TCBS (set_scheduler k sc s) = TCBS s"
  "WORLD (set_scheduler k sc s) = WORLD s"
  "USER_SCHEDULER (set_scheduler k sc s) = (USER_SCHEDULER s)(k := Some sc)"
  "PROCESS_INFO_TABLE (set_scheduler k sc s) = PROCESS_INFO_TABLE s"
  "IN_KERNEL (set_scheduler k sc s) = IN_KERNEL s"
  "ACTIVE_VSPACE (set_scheduler k sc s) = ACTIVE_VSPACE s"
  by (simp_all add: set_scheduler_def)

definition kernel_scheduler :: "sys \<Rightarrow> nat result" where
  "kernel_scheduler s = deref (KERNEL_SCHEDULER s)"

text \<open>The interrupt guard of a core and the assertion \<^verbatim>\<open>assert_disable_irq\<close>.\<close>

definition irq_acquire :: "nat \<Rightarrow> sys \<Rightarrow> bool \<times> sys" where
  "irq_acquire cpu_id s =
     (IRQ_ENABLED s cpu_id, s\<lparr>IRQ_ENABLED := (IRQ_ENABLED s)(cpu_id := False)\<rparr>)"

definition irq_release :: "nat \<Rightarrow> bool \<Rightarrow> sys \<Rightarrow> sys" where
  "irq_release cpu_id st s = s\<lparr>IRQ_ENABLED := (IRQ_ENABLED s)(cpu_id := st)\<rparr>"

definition assert_disable_irq :: "nat \<Rightarrow> sys \<Rightarrow> unit result" where
  "assert_disable_irq cpu_id s = assert_that (\<not> IRQ_ENABLED s cpu_id)"

text \<open>\<^verbatim>\<open>set_pre_stack!\<close>\<close>

definition set_pre_stack :: "nat \<Rightarrow> nat \<Rightarrow> sys \<Rightarrow> sys" where
  "set_pre_stack cpu_id base s = s\<lparr>SSCRATCH := (SSCRATCH s)(cpu_id := base)\<rparr>"

text \<open>An operation on the kernel's stack handler, and on that of a user space.\<close>

definition on_kernel_stacks ::
  "(stacks \<Rightarrow> ('a \<times> stacks) result) \<Rightarrow> sys \<Rightarrow> ('a \<times> sys) result" where
  "on_kernel_stacks f s =
     and_then (f (KERNEL_STACKS s, WORLD s)) (\<lambda>(r, (sh, w)).
       Inr (r, s\<lparr>KERNEL_STACKS := sh, WORLD := w\<rparr>))"

definition on_user_stacks ::
  "nat \<Rightarrow> (stacks \<Rightarrow> ('a \<times> stacks) result) \<Rightarrow> sys \<Rightarrow> ('a \<times> sys) result" where
  "on_user_stacks k f s =
     and_then (unwrap (STACK_HANDLER s k)) (\<lambda>sh0.
       and_then (f (sh0, WORLD s)) (\<lambda>(r, (sh, w)).
         Inr (r, s\<lparr>STACK_HANDLER := (STACK_HANDLER s)(k := Some sh), WORLD := w\<rparr>)))"

lemmas sys_accessors = get_current_task_def set_current_task_def scheduler_at_def
  set_scheduler_def kernel_scheduler_def set_pre_stack_def

section \<open>Switching the address space\<close>

text \<open>
  \<^verbatim>\<open>switch_vspace\<close> of \<^verbatim>\<open>src/main_loop.rs\<close>. The effect of \<^verbatim>\<open>VSpace::into_vspace\<close> is that the
  core translates with the address space it is called on.
\<close>

definition switch_vspace :: "nat \<Rightarrow> nat \<Rightarrow> sys \<Rightarrow> sys result" where
  "switch_vspace cpu_id vspace_pid s =
     (let prev_vspace_pid = CURRENT_VSPACE s cpu_id;
          s1 = s\<lparr>CURRENT_VSPACE := (CURRENT_VSPACE s)(cpu_id := vspace_pid)\<rparr>
      in if vspace_pid \<noteq> prev_vspace_pid then
           and_then (index (pt_table (PROCESS_INFO_TABLE s1)) vspace_pid) (\<lambda>e.
             case pi_vspace e of
               None \<Rightarrow> Inr s1
             | Some vspace \<Rightarrow>
                 Inr (s1\<lparr>ACTIVE_VSPACE := (ACTIVE_VSPACE s1)(cpu_id := vspace)\<rparr>))
         else Inr s1)"

text \<open>
  After the switch the core is in the address space of the process, or, for a process that
  runs in every address space, in the one it was in.
\<close>

lemma switch_vspace_spec:
  assumes "switch_vspace cpu pid s = Inr s'"
  shows "CURRENT_VSPACE s' cpu = pid"
    "i \<noteq> cpu \<Longrightarrow> CURRENT_VSPACE s' i = CURRENT_VSPACE s i"
    "i \<noteq> cpu \<Longrightarrow> ACTIVE_VSPACE s' i = ACTIVE_VSPACE s i"
    "s' = s\<lparr>CURRENT_VSPACE := CURRENT_VSPACE s', ACTIVE_VSPACE := ACTIVE_VSPACE s'\<rparr>"
    "pid \<noteq> CURRENT_VSPACE s cpu \<Longrightarrow>
      ACTIVE_VSPACE s' cpu = (case pi_vspace (pt_table (PROCESS_INFO_TABLE s) ! pid) of
        None \<Rightarrow> ACTIVE_VSPACE s cpu | Some v \<Rightarrow> v)"
    "pid = CURRENT_VSPACE s cpu \<Longrightarrow> s' = s"
  using assms
  by (auto simp: switch_vspace_def Let_def index_def split: if_splits option.splits)

lemma switch_vspace_ok:
  assumes "pid < length (pt_table (PROCESS_INFO_TABLE s))"
  shows "\<exists>s'. switch_vspace cpu pid s = Inr s'"
  using assms by (auto simp: switch_vspace_def Let_def split: option.splits)

end
