(* ===== verification/Trap_Wait_Queue.thy ===== *)
theory Trap_Wait_Queue
  imports Current
begin

text \<open>
  \<^verbatim>\<open>src/schedule/trap_wait_queue.rs\<close>: the queue of the traps each core received, and the pool
  of idle trap handlers all cores share. The function a handler runs is in \<open>Trap_Handler\<close>,
  because it calls the scheduler.
\<close>

section \<open>The program\<close>

definition INACTIVE_PRIORITY :: "config \<Rightarrow> int" where
  "INACTIVE_PRIORITY c = LOWEST_PRIORITY c + 1"

definition ACTIVE_PRIORITY :: "config \<Rightarrow> int" where
  "ACTIVE_PRIORITY c = HIGHEST_PRIORITY c"

datatype IdleHandler = Runnable task | Blocking_handler task | Empty

definition TrapWaitQueue_new :: "lib \<Rightarrow> trap_wait_queue" where
  "TrapWaitQueue_new L = \<lparr>tw_queues = (\<lambda>_. dq_new (trap_deque L)), idle_handlers = dq_new (idle_deque L)\<rparr>"

definition set_twq :: "nat \<Rightarrow> trap_wait_queue \<Rightarrow> sys \<Rightarrow> sys result" where
  "set_twq k q s = and_then (scheduler_at s k) (\<lambda>sc.
     Inr (set_scheduler k (sc\<lparr>s_trap_wait_queue := q\<rparr>) s))"

text \<open>\<^verbatim>\<open>init\<close>: one handler per core, blocked, goes to the pool.\<close>

primrec twq_init_loop :: "lib \<Rightarrow> os \<Rightarrow> nat \<Rightarrow> nat list \<Rightarrow> sys \<Rightarrow> sys result" where
  "twq_init_loop L E k [] s = Inr s"
| "twq_init_loop L E k (cpuid # cpus) s =
     (case os_new_handler E (Some k) s of (handler, s1) \<Rightarrow>
        let s2 = s1\<lparr>TCBS := snd (set_state (TCBS s1) handler Blocked)\<rparr>
        in and_then (scheduler_at s2 k) (\<lambda>sc.
             let q = s_trap_wait_queue sc
             in and_then (unwrap (dq_push_back (idle_deque L) (idle_handlers q) handler)) (\<lambda>hs.
                  and_then (set_twq k (q\<lparr>idle_handlers := hs\<rparr>) s2) (\<lambda>s3.
                    twq_init_loop L E k cpus s3))))"

definition twq_init :: "config \<Rightarrow> lib \<Rightarrow> os \<Rightarrow> nat \<Rightarrow> sys \<Rightarrow> sys result" where
  "twq_init c L E k s = twq_init_loop L E k [0..<CPU_NUM c] s"

text \<open>\<^verbatim>\<open>push_trap\<close> returns the pair (\<open>Inl\<close>, \<^verbatim>\<open>Err\<close>) where the core's queue is full.\<close>

definition twq_push_trap ::
  "lib \<Rightarrow> trap_wait_queue \<Rightarrow> nat \<Rightarrow> task option \<Rightarrow> nat \<Rightarrow> (trap_item + unit) \<times> trap_wait_queue" where
  "twq_push_trap L q trap_info task cpuid =
     (case dq_push_back (trap_deque L) (tw_queues q cpuid) (trap_info, task) of
        None \<Rightarrow> (Inl (trap_info, task), q)
      | Some items \<Rightarrow> (Inr (), q\<lparr>tw_queues := (tw_queues q)(cpuid := items)\<rparr>))"

definition twq_hightest_priority :: "config \<Rightarrow> lib \<Rightarrow> trap_wait_queue \<Rightarrow> nat \<Rightarrow> int" where
  "twq_hightest_priority c L q cpu_id =
     (if dq_is_empty (trap_deque L) (tw_queues q cpu_id) then INACTIVE_PRIORITY c
      else ACTIVE_PRIORITY c)"

text \<open>
  \<^verbatim>\<open>get_idle_handler\<close>: a handler that saved its context becomes ready; one that is still saving
  it stays as it is and is handed out to be waited for.
\<close>

primrec idle_loop ::
  "nat \<Rightarrow> task deque_ops \<Rightarrow> tcbs \<Rightarrow> task list \<Rightarrow> (IdleHandler \<times> tcbs \<times> task list) result" where
  "idle_loop 0 D T queue = Inr (Empty, T, queue)"
| "idle_loop (Suc n) D T queue =
     and_then (unwrap (dq_pop_front D queue)) (\<lambda>(handler, queue').
       case match_set_state T handler Ready Running Ready Exited Blocking of (old, T') \<Rightarrow>
         (case old of
            Blocked \<Rightarrow> Inr (Runnable handler, T', queue')
          | Blocking \<Rightarrow> Inr (Blocking_handler handler, T', queue')
          | _ \<Rightarrow> Inl Explicit_panic))"

definition get_idle_handler ::
  "lib \<Rightarrow> tcbs \<Rightarrow> task list \<Rightarrow> (IdleHandler \<times> tcbs \<times> task list) result" where
  "get_idle_handler L T queue = idle_loop (dq_len (idle_deque L) queue) (idle_deque L) T queue"

definition create_new_handler :: "tcbs \<Rightarrow> task \<Rightarrow> (task \<times> tcbs) result" where
  "create_new_handler T handler =
     (case match_set_state T handler Ready Running Ready Exited Ready of (old, T') \<Rightarrow>
        if old = Ready \<or> old = Blocked then Inr (handler, T') else Inl Explicit_panic)"

text \<open>The busy-wait of \<^verbatim>\<open>take_task\<close>: every poll finds the state the other core has set.\<close>

fun wait_blocked :: "TaskState list \<Rightarrow> tcbs \<Rightarrow> task \<Rightarrow> tcbs result" where
  "wait_blocked [] T handler = Inl Spin"
| "wait_blocked (seen # later) T handler =
     (case match_set_state (T(handler := (T handler)\<lparr>t_state := seen\<rparr>)) handler
        Ready Running Ready Exited Blocking of (old, T') \<Rightarrow>
          if old = Blocked then Inr T' else wait_blocked later T' handler)"

text \<open>The process a trap belongs to: that of the task it interrupted, or the kernel.\<close>

definition trap_pid :: "tcbs \<Rightarrow> task option \<Rightarrow> nat" where
  "trap_pid T t = (case t of None \<Rightarrow> 0 | Some x \<Rightarrow> t_pid (T x))"

text \<open>The handler \<^verbatim>\<open>take_task\<close> makes of what the pool gave: it waits for one that is still
saving its context, and creates one when the pool is empty.\<close>

definition obtain_handler :: "os \<Rightarrow> sys \<Rightarrow> nat \<Rightarrow> IdleHandler \<Rightarrow> (task \<times> sys) result" where
  "obtain_handler E s cpu_id idle =
     (case idle of
        Runnable handler \<Rightarrow> Inr (handler, s)
      | Blocking_handler handler \<Rightarrow>
          and_then (wait_blocked (os_observed E handler s) (TCBS s) handler) (\<lambda>T.
            Inr (handler, s\<lparr>TCBS := T\<rparr>))
      | Empty \<Rightarrow>
          and_then (scheduler_at s (private_space s cpu_id)) (\<lambda>_.
            case os_new_handler E (Some (private_space s cpu_id)) s of (h, s') \<Rightarrow>
              and_then (create_new_handler (TCBS s') h) (\<lambda>(handler, T).
                Inr (handler, s'\<lparr>TCBS := T\<rparr>))))"

definition twq_take_task ::
  "config \<Rightarrow> lib \<Rightarrow> os \<Rightarrow> nat \<Rightarrow> sys \<Rightarrow> nat \<Rightarrow> ((task option \<times> int) \<times> sys) result" where
  "twq_take_task c L E k s cpu_id =
     and_then (scheduler_at s k) (\<lambda>sc.
       let q = s_trap_wait_queue sc in
       case dq_front (trap_deque L) (tw_queues q cpu_id) of
         None \<Rightarrow> Inr ((None, INACTIVE_PRIORITY c), s)
       | Some (_, task) \<Rightarrow>
           let pid = trap_pid (TCBS s) task
           in and_then (get_idle_handler L (TCBS s) (idle_handlers q)) (\<lambda>(idle, T, hs).
                and_then (set_twq k (q\<lparr>idle_handlers := hs\<rparr>) (s\<lparr>TCBS := T\<rparr>)) (\<lambda>s1.
                  and_then (obtain_handler E s1 cpu_id idle) (\<lambda>(handler, s2).
                    Inr ((Some handler, ACTIVE_PRIORITY c),
                      s2\<lparr>TCBS := set_pid (TCBS s2) handler pid\<rparr>)))))"

definition TWQ_IS_PRIO_PER_CPU :: bool where
  "TWQ_IS_PRIO_PER_CPU \<longleftrightarrow> True"

section \<open>The pool of idle handlers\<close>

text \<open>Every handler of the pool exists, is there once and is blocked, or about to be.\<close>

definition idle_inv :: "config \<Rightarrow> os \<Rightarrow> nat \<Rightarrow> tcbs \<Rightarrow> task list \<Rightarrow> bool" where
  "idle_inv c E w T hs \<longleftrightarrow> distinct hs \<and> length hs \<le> TRAP_WAIT_QUEUE_SIZE c \<and>
     (\<forall>h \<in> set hs. (t_state (T h) = Blocked \<or> t_state (T h) = Blocking) \<and> os_task_live E w h)"

lemma wait_blocked_released:
  assumes "Blocked \<in> set obs"
  shows "wait_blocked obs T h = Inr (T(h := (T h)\<lparr>t_state := Ready\<rparr>))"
  using assms
proof (induction obs arbitrary: T)
  case Nil
  then show ?case by simp
next
  case (Cons seen obs)
  show ?case
  proof (cases "seen = Blocked")
    case True
    then show ?thesis by (auto simp: match_set_state_def fun_eq_iff)
  next
    case False
    with Cons show ?thesis by (auto simp: match_set_state_def fun_eq_iff)
  qed
qed

lemma wait_blocked_spins:
  "Blocked \<notin> set obs \<Longrightarrow> wait_blocked obs T h = Inl Spin"
  by (induction obs arbitrary: T) (auto simp: match_set_state_def)

lemma wait_blocked_Inr:
  assumes "wait_blocked obs T h = Inr T'"
  shows "T' = T(h := (T h)\<lparr>t_state := Ready\<rparr>)"
proof (cases "Blocked \<in> set obs")
  case True
  then show ?thesis using assms wait_blocked_released [OF True, of T h] by simp
next
  case False
  then show ?thesis using assms wait_blocked_spins [OF False, of T h] by simp
qed

lemma get_idle_handler_Nil [simp]:
  "lib_laws c L \<Longrightarrow> get_idle_handler L T [] = Inr (Empty, T, [])"
  using deque_lawsD [OF lib_lawsD(3)] by (simp add: get_idle_handler_def)

lemma get_idle_handler_Cons:
  assumes "lib_laws c L" "idle_inv c E w T (h # hs)"
  shows "get_idle_handler L T (h # hs) =
    (if t_state (T h) = Blocked
     then Inr (Runnable h, T(h := (T h)\<lparr>t_state := Ready\<rparr>), hs)
     else Inr (Blocking_handler h, T, hs))"
proof -
  have "t_state (T h) = Blocked \<or> t_state (T h) = Blocking"
    using assms(2) by (simp add: idle_inv_def)
  moreover have "t_state (T h) = Blocking \<Longrightarrow> T(h := (T h)\<lparr>t_state := Blocking\<rparr>) = T"
    by (metis (no_types, lifting) fun_upd_triv tcb.surjective tcb.update_convs(1))
  ultimately show ?thesis
    using deque_lawsD [OF lib_lawsD(3) [OF assms(1)]]
    by (auto simp: get_idle_handler_def match_set_state_def)
qed

section \<open>Taking a handler\<close>

text \<open>
  The documented behaviour of \<^verbatim>\<open>TrapInfo::new_handler\<close>: it creates a new task, which is
  ready to run or blocked, and changes nothing else of the machine.
\<close>

definition handler_laws :: "os \<Rightarrow> bool" where
  "handler_laws E \<longleftrightarrow>
     (\<forall>p s h s'. os_new_handler E p s = (h, s') \<longrightarrow>
        \<not> os_task_live E (WORLD s) h \<and>
        (\<exists>tcb w. s' = s\<lparr>TCBS := (TCBS s)(h := tcb), WORLD := w\<rparr> \<and>
           (\<forall>x. os_task_live E (WORLD s) x \<or> x = h \<longrightarrow> os_task_live E w x) \<and>
           (t_state tcb = Ready \<or> t_state tcb = Blocked)))"

lemma handler_lawsE:
  assumes "handler_laws E" "os_new_handler E p s = (h, s')"
  obtains tcb w where "s' = s\<lparr>TCBS := (TCBS s)(h := tcb), WORLD := w\<rparr>"
    "t_state tcb = Ready \<or> t_state tcb = Blocked" "\<not> os_task_live E (WORLD s) h"
    "\<And>x. os_task_live E (WORLD s) x \<or> x = h \<Longrightarrow> os_task_live E w x"
  using assms unfolding handler_laws_def by blast

lemma twq_take_idle:
  assumes "lib_laws c L" "USER_SCHEDULER s k = Some sc" "tw_queues (s_trap_wait_queue sc) cpu = []"
  shows "twq_take_task c L E k s cpu = Inr ((None, INACTIVE_PRIORITY c), s)"
  using assms(2,3) deque_lawsD [OF lib_lawsD(2) [OF assms(1)]]
  by (simp add: twq_take_task_def scheduler_at_def)

text \<open>
  Taking hands out one handler for the core's first trap: ready, in the trap's address space,
  and no longer in the pool. It changes nothing but this handler and the pool.
\<close>

lemma twq_take_busy:
  assumes "lib_laws c L" "handler_laws E" "USER_SCHEDULER s k = Some sc"
    and "idle_inv c E (WORLD s) (TCBS s) (idle_handlers (s_trap_wait_queue sc))"
    and "tw_queues (s_trap_wait_queue sc) cpu = (info, t) # items"
    and "twq_take_task c L E k s cpu = Inr ((r, p), s')"
  obtains h tcb w where "r = Some h" "p = ACTIVE_PRIORITY c"
    "t_state tcb = Ready" "t_pid tcb = trap_pid (TCBS s) t"
    "s' = s\<lparr>TCBS := (TCBS s)(h := tcb), WORLD := w, USER_SCHEDULER := (USER_SCHEDULER s)(k :=
       Some (sc\<lparr>s_trap_wait_queue := (s_trap_wait_queue sc)
         \<lparr>idle_handlers := tl (idle_handlers (s_trap_wait_queue sc))\<rparr>\<rparr>))\<rparr>"
    "if idle_handlers (s_trap_wait_queue sc) = [] then \<not> os_task_live E (WORLD s) h \<and>
       (\<forall>x. os_task_live E (WORLD s) x \<or> x = h \<longrightarrow> os_task_live E w x) \<and>
       (\<exists>p u u'. os_new_handler E p u = (h, u') \<and> t_priority tcb = t_priority (TCBS u' h))
     else h = hd (idle_handlers (s_trap_wait_queue sc)) \<and> w = WORLD s"
proof -
  let ?q = "s_trap_wait_queue sc" let ?pid = "trap_pid (TCBS s) t"
  let ?S = "\<lambda>T hs. set_scheduler k (sc\<lparr>s_trap_wait_queue := ?q\<lparr>idle_handlers := hs\<rparr>\<rparr>) (s\<lparr>TCBS := T\<rparr>)"
  note dq = deque_lawsD [OF lib_lawsD(2) [OF assms(1)]]
  have step: "twq_take_task c L E k s cpu =
      and_then (get_idle_handler L (TCBS s) (idle_handlers ?q)) (\<lambda>(idle, T, hs).
        and_then (obtain_handler E (?S T hs) cpu idle)
          (\<lambda>(handler, s3). Inr ((Some handler, ACTIVE_PRIORITY c),
             s3\<lparr>TCBS := set_pid (TCBS s3) handler ?pid\<rparr>)))"
    using assms(3,5) dq
    by (simp add: twq_take_task_def scheduler_at_def set_twq_def Let_def split_def
        set_scheduler_def)
  show thesis
  proof (cases "idle_handlers ?q")
    case Nil
    let ?s1 = "?S (TCBS s) []"
    obtain h s2 where nh: "os_new_handler E (Some (private_space ?s1 cpu)) ?s1 = (h, s2)"
      by (cases "os_new_handler E (Some (private_space ?s1 cpu)) ?s1")
    obtain tcb w where s2: "s2 = ?s1\<lparr>TCBS := (TCBS ?s1)(h := tcb), WORLD := w\<rparr>"
      and ready: "t_state tcb = Ready \<or> t_state tcb = Blocked" and new: "\<not> os_task_live E (WORLD ?s1) h"
      and keeps: "\<And>x. os_task_live E (WORLD ?s1) x \<or> x = h \<Longrightarrow> os_task_live E w x"
      using handler_lawsE [OF assms(2) nh] by metis
    have c: "create_new_handler (TCBS s2) h = Inr (h, (TCBS s2)(h := tcb\<lparr>t_state := Ready\<rparr>))"
      using ready by (auto simp: s2 create_new_handler_def match_set_state_def)
    have id: "sc\<lparr>s_trap_wait_queue := ?q\<lparr>idle_handlers := []\<rparr>\<rparr> = sc" using Nil by simp
    have "\<exists>p u u'. os_new_handler E p u = (h, u') \<and> t_priority tcb = t_priority (TCBS u' h)"
      by (intro exI, rule conjI, rule nh) (simp add: s2)
    then have "\<not> os_task_live E (WORLD s) h \<and> (\<forall>x. os_task_live E (WORLD s) x \<or> x = h \<longrightarrow> os_task_live E w x) \<and>
        (\<exists>p u u'. os_new_handler E p u = (h, u') \<and> t_priority tcb = t_priority (TCBS u' h))"
      using new keeps by (simp add: set_scheduler_def)
    then show thesis
      using assms(1,6) Nil nh c
        that [of h "tcb\<lparr>t_state := Ready, t_pid := ?pid\<rparr>" w]
      by (auto simp: step obtain_handler_def s2 id and_then_Inr_iff set_pid_def set_scheduler_def)
  next
    case (Cons h hs)
    let ?tcb = "(TCBS s h)\<lparr>t_state := Ready, t_pid := ?pid\<rparr>"
    have g: "get_idle_handler L (TCBS s) (idle_handlers ?q) =
        (if t_state (TCBS s h) = Blocked
         then Inr (Runnable h, (TCBS s)(h := (TCBS s h)\<lparr>t_state := Ready\<rparr>), hs)
         else Inr (Blocking_handler h, TCBS s, hs))"
      using get_idle_handler_Cons [OF assms(1)] assms(4) Cons by simp
    have "r = Some h \<and> p = ACTIVE_PRIORITY c \<and> s' = ?S ((TCBS s)(h := ?tcb)) hs"
    proof (cases "t_state (TCBS s h) = Blocked")
      case True
      then show ?thesis using assms(6) by (auto simp: step obtain_handler_def g set_pid_def set_scheduler_def)
    next
      case False
      with assms(6) obtain T' where
        "wait_blocked (os_observed E h (?S (TCBS s) hs)) (TCBS s) h = Inr T'"
        "r = Some h" "p = ACTIVE_PRIORITY c" "s' = ?S (TCBS s) hs\<lparr>TCBS := set_pid T' h ?pid\<rparr>"
        by (auto simp: step obtain_handler_def g and_then_Inr_iff)
      note w = this
      have "T' = (TCBS s)(h := (TCBS s h)\<lparr>t_state := Ready\<rparr>)"
        using w(1) by (rule wait_blocked_Inr)
      then have "set_pid T' h ?pid = (TCBS s)(h := ?tcb)" by (simp add: set_pid_def)
      with w(2-4) show ?thesis by (simp add: set_scheduler_def)
    qed
    note r = this
    have "s' = s\<lparr>TCBS := (TCBS s)(h := ?tcb), WORLD := WORLD s,
        USER_SCHEDULER := (USER_SCHEDULER s)(k :=
          Some (sc\<lparr>s_trap_wait_queue := ?q\<lparr>idle_handlers := tl (idle_handlers ?q)\<rparr>\<rparr>))\<rparr>"
      using r by (simp add: Cons set_scheduler_def)
    with r show thesis by (intro that [of h ?tcb "WORLD s"]) (simp_all add: Cons)
  qed
qed

section \<open>Filling the pool\<close>

lemma twq_init_loop_ok:
  assumes "lib_laws c L" "handler_laws E" "USER_SCHEDULER s k = Some sc"
    and "idle_inv c E (WORLD s) (TCBS s) (idle_handlers (s_trap_wait_queue sc))"
    and "length (idle_handlers (s_trap_wait_queue sc)) + length cpus \<le> TRAP_WAIT_QUEUE_SIZE c"
  shows "\<exists>T w hs. twq_init_loop L E k cpus s = Inr (s\<lparr>TCBS := T, WORLD := w,
      USER_SCHEDULER := (USER_SCHEDULER s)(k := Some (sc\<lparr>s_trap_wait_queue :=
        (s_trap_wait_queue sc)\<lparr>idle_handlers := hs\<rparr>\<rparr>))\<rparr>) \<and>
    idle_inv c E w T hs \<and> length hs = length (idle_handlers (s_trap_wait_queue sc)) + length cpus"
  using assms(3-5)
proof (induction cpus arbitrary: s sc)
  case Nil
  show ?case
    by (rule exI [of _ "TCBS s"], rule exI [of _ "WORLD s"],
        rule exI [of _ "idle_handlers (s_trap_wait_queue sc)"])
      (use Nil in \<open>simp add: fun_upd_idem\<close>)
next
  case (Cons cpuid cpus)
  let ?hs = "idle_handlers (s_trap_wait_queue sc)"
  obtain h s1 where nh: "os_new_handler E (Some k) s = (h, s1)"
    by (cases "os_new_handler E (Some k) s")
  obtain tcb w where s1: "s1 = s\<lparr>TCBS := (TCBS s)(h := tcb), WORLD := w\<rparr>" and new: "\<not> os_task_live E (WORLD s) h" and live: "\<And>x. os_task_live E (WORLD s) x \<or> x = h \<Longrightarrow> os_task_live E w x"
    using handler_lawsE [OF assms(2) nh] by blast
  let ?T = "(TCBS s)(h := tcb\<lparr>t_state := Blocked\<rparr>)"
  let ?sc = "sc\<lparr>s_trap_wait_queue := (s_trap_wait_queue sc)\<lparr>idle_handlers := ?hs @ [h]\<rparr>\<rparr>"
  let ?s = "s\<lparr>WORLD := w, TCBS := ?T, USER_SCHEDULER := (USER_SCHEDULER s)(k := Some ?sc)\<rparr>"
  have "h \<notin> set ?hs" using new Cons.prems(2) by (auto simp: idle_inv_def)
  then have inv: "idle_inv c E (WORLD ?s) (TCBS ?s) (idle_handlers (s_trap_wait_queue ?sc))"
    using Cons.prems(2,3) live by (auto simp: idle_inv_def)
  have "twq_init_loop L E k (cpuid # cpus) s = twq_init_loop L E k cpus ?s"
    using Cons.prems(1,3) deque_lawsD(2) [OF lib_lawsD(3) [OF assms(1)]]
    by (simp add: nh s1 set_state_def Let_def scheduler_at_def set_twq_def set_scheduler_def)
  moreover have "\<exists>T w hs. twq_init_loop L E k cpus ?s = Inr (?s\<lparr>TCBS := T, WORLD := w,
      USER_SCHEDULER := (USER_SCHEDULER ?s)(k := Some (?sc\<lparr>s_trap_wait_queue :=
        (s_trap_wait_queue ?sc)\<lparr>idle_handlers := hs\<rparr>\<rparr>))\<rparr>) \<and>
    idle_inv c E w T hs \<and> length hs = length (idle_handlers (s_trap_wait_queue ?sc)) + length cpus"
    by (rule Cons.IH [OF _ inv]) (use Cons.prems in simp_all)
  ultimately show ?case by (simp del: fun_upd_apply)
qed

text \<open>What creating a handler keeps of the system's state, filling the pool keeps.\<close>

definition handler_keeps :: "os \<Rightarrow> (nat \<Rightarrow> bool) \<Rightarrow> bool" where
  "handler_keeps E P \<longleftrightarrow>
     (\<forall>p s h s'. os_new_handler E p s = (h, s') \<longrightarrow> P (WORLD s) \<longrightarrow> P (WORLD s'))"

lemma twq_init_loop_world:
  assumes "handler_keeps E P" "twq_init_loop L E k cpus s = Inr s'" "P (WORLD s)"
  shows "P (WORLD s')"
  using assms(2,3)
proof (induction cpus arbitrary: s)
  case (Cons cpuid cpus)
  obtain h s1 where nh: "os_new_handler E (Some k) s = (h, s1)"
    by (cases "os_new_handler E (Some k) s")
  have "P (WORLD s1)" using assms(1) nh Cons.prems(2) unfolding handler_keeps_def by blast
  then show ?case
    using Cons.prems(1) nh
    by (auto simp: and_then_Inr_iff Let_def set_twq_def intro!: Cons.IH)
qed simp

lemma twq_init_ok:
  assumes "lib_laws c L" "handler_laws E" "USER_SCHEDULER s k = Some sc"
    and "idle_handlers (s_trap_wait_queue sc) = []" "CPU_NUM c \<le> TRAP_WAIT_QUEUE_SIZE c"
  obtains T w hs where "twq_init c L E k s = Inr (s\<lparr>TCBS := T, WORLD := w,
      USER_SCHEDULER := (USER_SCHEDULER s)(k := Some (sc\<lparr>s_trap_wait_queue :=
        (s_trap_wait_queue sc)\<lparr>idle_handlers := hs\<rparr>\<rparr>))\<rparr>)"
    "idle_inv c E w T hs" "length hs = CPU_NUM c"
  using twq_init_loop_ok [OF assms(1-3), of "[0..<CPU_NUM c]"] assms(4,5) that
  by (auto simp: twq_init_def idle_inv_def)

section \<open>The trap wait queue as an event source\<close>

definition twq_ok :: "config \<Rightarrow> lib \<Rightarrow> os \<Rightarrow> nat \<Rightarrow> sys \<Rightarrow> bool" where
  "twq_ok c L E k s \<longleftrightarrow> config_ok c \<and> lib_laws c L \<and> handler_laws E \<and>
     (case USER_SCHEDULER s k of None \<Rightarrow> False
      | Some sc \<Rightarrow> idle_inv c E (WORLD s) (TCBS s) (idle_handlers (s_trap_wait_queue sc)))"

definition twq_of :: "sys \<Rightarrow> nat \<Rightarrow> trap_wait_queue" where
  "twq_of s k = s_trap_wait_queue (the (USER_SCHEDULER s k))"

definition twq_pending :: "nat \<Rightarrow> sys \<Rightarrow> nat \<Rightarrow> bool" where
  "twq_pending k s cpu \<longleftrightarrow> tw_queues (twq_of s k) cpu \<noteq> []"

lemma twq_okE:
  assumes "twq_ok c L E k s"
  obtains sc where "config_ok c" "lib_laws c L" "handler_laws E" "USER_SCHEDULER s k = Some sc"
    "idle_inv c E (WORLD s) (TCBS s) (idle_handlers (s_trap_wait_queue sc))" "twq_of s k = s_trap_wait_queue sc"
  using assms by (auto simp: twq_ok_def twq_of_def split: option.splits)

text \<open>The handler at the head of the pool, once it is blocked.\<close>

lemma twq_take_head:
  assumes "twq_ok c L E k s" "USER_SCHEDULER s k = Some sc"
    and "tw_queues (s_trap_wait_queue sc) cpu = (info, t) # items"
    and "idle_handlers (s_trap_wait_queue sc) = h # hs"
  shows "twq_take_task c L E k s cpu =
    (let s1 = set_scheduler k (sc\<lparr>s_trap_wait_queue := (s_trap_wait_queue sc)\<lparr>idle_handlers := hs\<rparr>\<rparr>) s in
     if t_state (TCBS s h) = Blocked \<or> Blocked \<in> set (os_observed E h s1) then
       Inr ((Some h, HIGHEST_PRIORITY c), s1\<lparr>TCBS := (TCBS s)(h := (TCBS s h)
         \<lparr>t_state := Ready, t_pid := trap_pid (TCBS s) t\<rparr>)\<rparr>)
     else Inl Spin)"
proof -
  have o: "lib_laws c L" "idle_inv c E (WORLD s) (TCBS s) (h # hs)"
    using assms(1,2,4) by (auto elim: twq_okE)
  note dq = deque_lawsD [OF lib_lawsD(2) [OF o(1)]]
  let ?s1 = "set_scheduler k (sc\<lparr>s_trap_wait_queue := (s_trap_wait_queue sc)\<lparr>idle_handlers := hs\<rparr>\<rparr>) s"
  show ?thesis
  proof (cases "t_state (TCBS s h) = Blocked")
    case True
    then show ?thesis
      using assms(2-4) dq get_idle_handler_Cons [OF o]
      by (simp add: twq_take_task_def scheduler_at_def set_twq_def obtain_handler_def set_pid_def
          set_scheduler_def Let_def ACTIVE_PRIORITY_def)
  next
    case False
    have w: "wait_blocked (os_observed E h ?s1) (TCBS s) h =
        (if Blocked \<in> set (os_observed E h ?s1) then Inr ((TCBS s)(h := (TCBS s h)\<lparr>t_state := Ready\<rparr>))
         else Inl Spin)"
      using wait_blocked_released wait_blocked_spins by simp
    have same: "s\<lparr>TCBS := TCBS s\<rparr> = s" by simp
    show ?thesis
      using False assms(2-4) dq get_idle_handler_Cons [OF o] w
      by (simp add: twq_take_task_def scheduler_at_def set_twq_def obtain_handler_def set_pid_def
          Let_def ACTIVE_PRIORITY_def same)
  qed
qed

lemma twq_hp:
  "lib_laws c L \<Longrightarrow> twq_hightest_priority c L (twq_of s k) cpu =
     (if twq_pending k s cpu then ACTIVE_PRIORITY c else INACTIVE_PRIORITY c)"
  using deque_lawsD [OF lib_lawsD(2)] by (simp add: twq_hightest_priority_def twq_pending_def)

lemma idle_inv_tl:
  "idle_inv c E w T hs \<Longrightarrow> hs = [] \<or> h = hd hs \<and> w' = w \<Longrightarrow> idle_inv c E w' (T(h := tcb)) (tl hs)"
  by (cases hs) (auto simp: idle_inv_def)

text \<open>Taking keeps the pool and the queues of every core.\<close>

lemma twq_take_ok:
  assumes "twq_ok c L E k s" "twq_take_task c L E k s cpu = Inr ((r, p), s')"
  shows "twq_ok c L E k s'" "tw_queues (twq_of s' k) = tw_queues (twq_of s k)"
    "p = (if twq_pending k s cpu then ACTIVE_PRIORITY c else INACTIVE_PRIORITY c)"
    "r \<noteq> None \<longleftrightarrow> twq_pending k s cpu"
proof -
  from assms(1) obtain sc where ok: "config_ok c" "lib_laws c L" "handler_laws E"
    "USER_SCHEDULER s k = Some sc" "idle_inv c E (WORLD s) (TCBS s) (idle_handlers (s_trap_wait_queue sc))"
    "twq_of s k = s_trap_wait_queue sc" by (rule twq_okE)
  have "twq_ok c L E k s' \<and> tw_queues (twq_of s' k) = tw_queues (twq_of s k) \<and>
    p = (if twq_pending k s cpu then ACTIVE_PRIORITY c else INACTIVE_PRIORITY c) \<and>
    (r \<noteq> None \<longleftrightarrow> twq_pending k s cpu)"
  proof (cases "tw_queues (s_trap_wait_queue sc) cpu")
    case Nil
    then show ?thesis using assms ok twq_take_idle [OF ok(2,4) Nil]
      by (simp add: twq_pending_def)
  next
    case (Cons it items)
    obtain info t where it: "it = (info, t)" by (cases it)
    obtain h tcb w where "r = Some h" "p = ACTIVE_PRIORITY c"
      "s' = s\<lparr>TCBS := (TCBS s)(h := tcb), WORLD := w, USER_SCHEDULER := (USER_SCHEDULER s)(k :=
         Some (sc\<lparr>s_trap_wait_queue := (s_trap_wait_queue sc)
           \<lparr>idle_handlers := tl (idle_handlers (s_trap_wait_queue sc))\<rparr>\<rparr>))\<rparr>"
      "idle_handlers (s_trap_wait_queue sc) \<noteq> [] \<longrightarrow> h = hd (idle_handlers (s_trap_wait_queue sc)) \<and> w = WORLD s"
      by (rule twq_take_busy [OF ok(2,3,4,5) Cons [unfolded it] assms(2)]) (simp split: if_splits)
    then show ?thesis
      using ok Cons idle_inv_tl [OF ok(5), of h w tcb]
      by (auto simp: twq_ok_def twq_of_def twq_pending_def split: if_splits)
  qed
  then show "twq_ok c L E k s'" "tw_queues (twq_of s' k) = tw_queues (twq_of s k)"
    "p = (if twq_pending k s cpu then ACTIVE_PRIORITY c else INACTIVE_PRIORITY c)"
    "r \<noteq> None \<longleftrightarrow> twq_pending k s cpu" by blast+
qed

text \<open>
  Taking never panics where the running core's own space has a scheduler; all that can keep it
  from an answer is a handler that never leaves \<^verbatim>\<open>Blocking\<close>.
\<close>

lemma twq_take_total:
  assumes "twq_ok c L E k s" "USER_SCHEDULER s (private_space s cpu) \<noteq> None"
  shows "(\<exists>r s'. twq_take_task c L E k s cpu = Inr (r, s')) \<or> twq_take_task c L E k s cpu = Inl Spin"
proof -
  obtain sc where ok: "config_ok c" "lib_laws c L" "handler_laws E" "USER_SCHEDULER s k = Some sc"
    "idle_inv c E (WORLD s) (TCBS s) (idle_handlers (s_trap_wait_queue sc))"
    using assms(1) by (rule twq_okE)
  let ?q = "s_trap_wait_queue sc"
  note dq = deque_lawsD [OF lib_lawsD(2) [OF ok(2)]]
  have ob: "(\<exists>h s2. obtain_handler E (set_scheduler k sc' (s\<lparr>TCBS := T\<rparr>)) cpu idle = Inr (h, s2)) \<or>
      obtain_handler E (set_scheduler k sc' (s\<lparr>TCBS := T\<rparr>)) cpu idle = Inl Spin" for sc' T idle
  proof -
    let ?s = "set_scheduler k sc' (s\<lparr>TCBS := T\<rparr>)"
    show ?thesis
    proof (cases idle)
      case (Blocking_handler h)
      show ?thesis
      proof (cases "Blocked \<in> set (os_observed E h ?s)")
        case True
        then show ?thesis using Blocking_handler by (simp add: obtain_handler_def wait_blocked_released)
      next
        case False
        then show ?thesis using Blocking_handler by (simp add: obtain_handler_def wait_blocked_spins)
      qed
    next
      case Empty
      obtain h s2 where nh: "os_new_handler E (Some (private_space ?s cpu)) ?s = (h, s2)"
        by (cases "os_new_handler E (Some (private_space ?s cpu)) ?s")
      obtain tcb w where "s2 = ?s\<lparr>TCBS := (TCBS ?s)(h := tcb), WORLD := w\<rparr>"
        "t_state tcb = Ready \<or> t_state tcb = Blocked" by (rule handler_lawsE [OF ok(3) nh]) blast
      then have "create_new_handler (TCBS s2) h = Inr (h, (TCBS s2)(h := tcb\<lparr>t_state := Ready\<rparr>))"
        by (auto simp: create_new_handler_def match_set_state_def)
      moreover have "scheduler_at ?s (private_space ?s cpu) \<noteq> Inl x" for x
        using assms(2) by (auto simp: scheduler_at_def set_scheduler_def private_space_def)
      then obtain sc2 where "scheduler_at ?s (private_space ?s cpu) = Inr sc2"
        by (cases "scheduler_at ?s (private_space ?s cpu)") auto
      ultimately show ?thesis using Empty nh by (simp add: obtain_handler_def)
    qed (simp add: obtain_handler_def)
  qed
  show ?thesis
  proof (cases "tw_queues ?q cpu")
    case Nil
    then show ?thesis using twq_take_idle [OF ok(2,4)] by simp
  next
    case (Cons it items)
    have step: "twq_take_task c L E k s cpu =
        and_then (get_idle_handler L (TCBS s) (idle_handlers ?q)) (\<lambda>(idle, T, hs).
          and_then (obtain_handler E (set_scheduler k (sc\<lparr>s_trap_wait_queue := ?q\<lparr>idle_handlers := hs\<rparr>\<rparr>)
              (s\<lparr>TCBS := T\<rparr>)) cpu idle)
            (\<lambda>(handler, s3). Inr ((Some handler, ACTIVE_PRIORITY c),
               s3\<lparr>TCBS := set_pid (TCBS s3) handler (trap_pid (TCBS s) (snd it))\<rparr>)))"
      using ok(4) dq Cons
      by (simp add: twq_take_task_def scheduler_at_def set_twq_def Let_def split_def set_scheduler_def)
    have "\<exists>x. get_idle_handler L (TCBS s) (idle_handlers ?q) = Inr x"
    proof (cases "idle_handlers ?q")
      case Nil
      then show ?thesis using ok(2) by simp
    next
      case (Cons h hs)
      then show ?thesis using get_idle_handler_Cons [OF ok(2), of E "WORLD s" "TCBS s" h hs] ok(5) by simp
    qed
    then obtain idle T hs where "get_idle_handler L (TCBS s) (idle_handlers ?q) = Inr (idle, T, hs)"
      by (metis prod.collapse)
    then show ?thesis
      using ob [of "sc\<lparr>s_trap_wait_queue := ?q\<lparr>idle_handlers := hs\<rparr>\<rparr>" T idle] by (auto simp: step)
  qed
qed

interpretation twqs: event_source "twq_ok c L E k" "twq_pending k"
  "\<lambda>s. twq_hightest_priority c L (twq_of s k)" "twq_take_task c L E k"
  "HIGHEST_PRIORITY c" "LOWEST_PRIORITY c"
proof
  fix s s' :: sys and cpu :: nat and r :: "task option" and p :: int
  assume ok: "twq_ok c L E k s"
  then obtain sc where o: "config_ok c" "lib_laws c L" "USER_SCHEDULER s k = Some sc"
    "twq_of s k = s_trap_wait_queue sc" by (rule twq_okE)
  note prios = config_okD(6) [OF o(1)] ACTIVE_PRIORITY_def INACTIVE_PRIORITY_def
  show "twq_hightest_priority c L (twq_of s k) cpu \<le> LOWEST_PRIORITY c \<longleftrightarrow> twq_pending k s cpu"
    using prios by (simp add: twq_hp [OF o(2)])
  show "HIGHEST_PRIORITY c \<le> twq_hightest_priority c L (twq_of s k) cpu \<and>
      twq_hightest_priority c L (twq_of s k) cpu \<le> LOWEST_PRIORITY c + 1"
    using prios by (simp add: twq_hp [OF o(2)])
  show "twq_take_task c L E k s cpu = Inr ((None, LOWEST_PRIORITY c + 1), s)"
    if "\<not> twq_pending k s cpu"
    using twq_take_idle [OF o(2,3)] that o(4) by (simp add: twq_pending_def INACTIVE_PRIORITY_def)
  show "r \<noteq> None" if "twq_pending k s cpu" "twq_take_task c L E k s cpu = Inr ((r, p), s')"
    using twq_take_ok(4) [OF ok that(2)] that(1) by simp
  show "p \<le> twq_hightest_priority c L (twq_of s' k) cpu"
    if "twq_take_task c L E k s cpu = Inr ((r, p), s')"
    using twq_take_ok(2,3) [OF ok that] by (simp add: twq_hp [OF o(2)] twq_pending_def)
next
  fix s s' :: sys and cpu :: nat and rp
  assume "twq_ok c L E k s" "twq_take_task c L E k s cpu = Inr (rp, s')"
  then show "twq_ok c L E k s'" using twq_take_ok(1) by (cases rp) blast
qed

end
