(* ===== verification/Scheduler.thy ===== *)
theory Scheduler
  imports Trap_Wait_Queue
begin

text \<open>
  \<^verbatim>\<open>src/schedule/scheduler.rs\<close>: a scheduler owns a trap wait queue and a ready queue, calls
  them and foreign event sources through its table of sources, and publishes the priority of
  its most urgent task in the process table. A scheduler is named by the space it lives in.
  A panic inside the lock on the sources ends the run, so the lock needs no state.
\<close>

section \<open>The table of sources\<close>

definition EventSourceEntry_new :: "ptr \<Rightarrow> ptr \<Rightarrow> vtable \<Rightarrow> event_source_entry" where
  "EventSourceEntry_new kd ud vt = \<lparr>kernel_data = kd, user_data = ud, es_vtable = vt\<rparr>"

definition entry_data :: "event_source_entry \<Rightarrow> bool \<Rightarrow> ptr" where
  "entry_data e ik = (if ik then kernel_data e else user_data e)"

definition in_kernel :: "scheduler \<Rightarrow> sys \<Rightarrow> nat \<Rightarrow> bool" where
  "in_kernel sc s cpu_id \<longleftrightarrow> global_index sc = 0 \<or> IN_KERNEL s cpu_id"

text \<open>
  A call through the table jumps to the selected code, which accesses the data. The kernel's
  scheduler runs in the kernel only, so the level the table is asked for is the level the core
  is in; a wrong address faults.
\<close>

definition es_hightest_priority ::
  "config \<Rightarrow> lib \<Rightarrow> os \<Rightarrow> sys \<Rightarrow> nat \<Rightarrow> bool \<Rightarrow> event_source_entry \<Rightarrow> int result" where
  "es_hightest_priority c L E s cpu_id ik e =
     and_then (reach ik (ACTIVE_VSPACE s cpu_id) (vt_hightest_priority (es_vtable e) ik)) (\<lambda>code.
     and_then (reach ik (ACTIVE_VSPACE s cpu_id) (entry_data e ik)) (\<lambda>data.
       case (code, data) of
         (Hightest_priority_impl ty, Source ty' k) \<Rightarrow>
           if ty = ty' then
             (case ty of
                TRAP_WAIT_QUEUE \<Rightarrow> and_then (scheduler_at s k) (\<lambda>sc.
                  Inr (twq_hightest_priority c L (s_trap_wait_queue sc) cpu_id))
              | READY_QUEUE \<Rightarrow> and_then (scheduler_at s k) (\<lambda>sc.
                  Inr (rq_hightest_priority c (s_ready_queue sc) cpu_id))
              | EXTERNAL n \<Rightarrow> Inr (os_ext_hightest_priority E n cpu_id s))
           else Inl Bad_address
       | _ \<Rightarrow> Inl Bad_address))"

definition es_take_task ::
  "config \<Rightarrow> lib \<Rightarrow> os \<Rightarrow> sys \<Rightarrow> nat \<Rightarrow> bool \<Rightarrow> event_source_entry \<Rightarrow>
    ((task option \<times> int) \<times> sys) result" where
  "es_take_task c L E s cpu_id ik e =
     and_then (reach ik (ACTIVE_VSPACE s cpu_id) (vt_take_task (es_vtable e) ik)) (\<lambda>code.
     and_then (reach ik (ACTIVE_VSPACE s cpu_id) (entry_data e ik)) (\<lambda>data.
       case (code, data) of
         (Take_task_impl ty, Source ty' k) \<Rightarrow>
           if ty = ty' then
             (case ty of
                TRAP_WAIT_QUEUE \<Rightarrow> twq_take_task c L E k s cpu_id
              | READY_QUEUE \<Rightarrow> and_then (scheduler_at s k) (\<lambda>sc.
                  and_then (rq_take_task c (ready_deque L) (s_ready_queue sc) cpu_id) (\<lambda>(r, rq).
                    Inr (r, set_scheduler k (sc\<lparr>s_ready_queue := rq\<rparr>) s)))
              | EXTERNAL n \<Rightarrow> Inr (os_ext_take_task E n cpu_id s))
           else Inl Bad_address
       | _ \<Rightarrow> Inl Bad_address))"

section \<open>Priorities\<close>

primrec fold_prios ::
  "config \<Rightarrow> lib \<Rightarrow> os \<Rightarrow> sys \<Rightarrow> nat \<Rightarrow> bool \<Rightarrow> event_source_entry list \<Rightarrow> int \<Rightarrow> int result" where
  "fold_prios c L E s cpu_id ik [] a = Inr a"
| "fold_prios c L E s cpu_id ik (e # es) a =
     and_then (es_hightest_priority c L E s cpu_id ik e) (\<lambda>b.
       fold_prios c L E s cpu_id ik es (if a < b then a else b))"

definition Scheduler_hightest_priority ::
  "config \<Rightarrow> lib \<Rightarrow> os \<Rightarrow> nat \<Rightarrow> sys \<Rightarrow> nat \<Rightarrow> int result" where
  "Scheduler_hightest_priority c L E k s cpu_id =
     and_then (scheduler_at s k) (\<lambda>sc.
       fold_prios c L E s cpu_id (in_kernel sc s cpu_id) (sources sc) isize_MAX)"

text \<open>\<^verbatim>\<open>table[pid].highest_prio[cpu].store(prio)\<close>: both arrays are checked.\<close>

definition store_prio :: "config \<Rightarrow> nat \<Rightarrow> int \<Rightarrow> nat \<Rightarrow> sys \<Rightarrow> sys result" where
  "store_prio c pid prio cpu_id s =
     and_then (index (pt_table (PROCESS_INFO_TABLE s)) pid) (\<lambda>_.
     and_then (index [0..<CPU_NUM c] cpu_id) (\<lambda>_.
       Inr (s\<lparr>PROCESS_INFO_TABLE :=
         pt_update (\<lambda>e. e\<lparr>pi_highest_prio := (pi_highest_prio e)(cpu_id := prio)\<rparr>) pid
           (PROCESS_INFO_TABLE s)\<rparr>)))"

primrec store_prios :: "config \<Rightarrow> nat \<Rightarrow> int \<Rightarrow> nat list \<Rightarrow> sys \<Rightarrow> sys result" where
  "store_prios c pid prio [] s = Inr s"
| "store_prios c pid prio (cpu # cpus) s =
     and_then (store_prio c pid prio cpu s) (store_prios c pid prio cpus)"

definition update_prio :: "config \<Rightarrow> nat \<Rightarrow> int \<Rightarrow> int \<Rightarrow> sys \<Rightarrow> sys result" where
  "update_prio c k prio cpu_id s =
     and_then (scheduler_at s k) (\<lambda>sc.
       if cpu_id < 0 then store_prios c (global_index sc) prio [0..<CPU_NUM c] s
       else store_prio c (global_index sc) prio (usize_of_isize cpu_id) s)"

definition get_and_update_current_prio ::
  "config \<Rightarrow> lib \<Rightarrow> os \<Rightarrow> nat \<Rightarrow> sys \<Rightarrow> nat \<Rightarrow> (int \<times> sys) result" where
  "get_and_update_current_prio c L E k s cpu_id =
     and_then (Scheduler_hightest_priority c L E k s cpu_id) (\<lambda>prio.
     and_then (update_prio c k prio (int cpu_id) s) (\<lambda>s'. Inr (prio, s')))"

definition get_and_update_all_prio ::
  "config \<Rightarrow> lib \<Rightarrow> os \<Rightarrow> nat \<Rightarrow> sys \<Rightarrow> nat \<Rightarrow> (int \<times> sys) result" where
  "get_and_update_all_prio c L E k s cpu_id =
     and_then (Scheduler_hightest_priority c L E k s cpu_id) (\<lambda>prio.
     and_then (update_prio c k prio (- 1) s) (\<lambda>s'. Inr (prio, s')))"

section \<open>Taking a task\<close>

text \<open>The fold of \<^verbatim>\<open>pop_task\<close> over the numbered priorities: the best and the second best.\<close>

type_synonym ranked = "nat \<times> int"

definition rank_step :: "ranked \<times> ranked \<Rightarrow> ranked \<Rightarrow> ranked \<times> ranked" where
  "rank_step b current =
     (case b of (first, second) \<Rightarrow>
        if snd current < snd first then (current, first)
        else if snd current < snd second then (first, current)
        else (first, second))"

primrec rank_sources ::
  "config \<Rightarrow> lib \<Rightarrow> os \<Rightarrow> sys \<Rightarrow> nat \<Rightarrow> bool \<Rightarrow> event_source_entry list \<Rightarrow> nat \<Rightarrow> ranked \<times> ranked \<Rightarrow>
    (ranked \<times> ranked) result" where
  "rank_sources c L E s cpu_id ik [] i b = Inr b"
| "rank_sources c L E s cpu_id ik (e # es) i b =
     and_then (es_hightest_priority c L E s cpu_id ik e) (\<lambda>p.
       rank_sources c L E s cpu_id ik es (Suc i) (rank_step b (i, p)))"

definition pop_task ::
  "config \<Rightarrow> lib \<Rightarrow> os \<Rightarrow> nat \<Rightarrow> sys \<Rightarrow> nat \<Rightarrow> ((task option \<times> int) \<times> sys) result" where
  "pop_task c L E k s cpu_id =
     and_then (scheduler_at s k) (\<lambda>sc.
       let ik = in_kernel sc s cpu_id in
       and_then (rank_sources c L E s cpu_id ik (sources sc) 0
           ((usize_MAX, isize_MAX), (usize_MAX, isize_MAX)))
         (\<lambda>((first_index, first_prio), (second_index, second_prio)).
           if first_index = usize_MAX then
             and_then (update_prio c k isize_MAX (int cpu_id) s) (\<lambda>s'. Inr ((None, isize_MAX), s'))
           else
             and_then (index (sources sc) first_index) (\<lambda>source.
             and_then (es_take_task c L E s cpu_id ik source) (\<lambda>((task, new_prio), s1).
               let prio = (if new_prio < second_prio then new_prio else second_prio) in
               and_then
                 (if is_prio_per_cpu (es_vtable source) then update_prio c k prio (int cpu_id) s1
                  else update_prio c k prio (- 1) s1)
                 (\<lambda>s2. Inr ((task, prio), s2))))))"

section \<open>Putting tasks and traps in\<close>

definition Scheduler_push_task ::
  "config \<Rightarrow> lib \<Rightarrow> os \<Rightarrow> nat \<Rightarrow> sys \<Rightarrow> nat \<Rightarrow> task \<Rightarrow> ((task + unit) \<times> sys) result" where
  "Scheduler_push_task c L E k s cpu_id task =
     and_then (scheduler_at s k) (\<lambda>sc.
     and_then (rq_push_task c (ready_deque L) (TCBS s) (s_ready_queue sc) task) (\<lambda>(res, rq).
       let s1 = set_scheduler k (sc\<lparr>s_ready_queue := rq\<rparr>) s in
       case res of
         Inl t \<Rightarrow> Inr (Inl t, s1)
       | Inr _ \<Rightarrow>
           and_then
             (if RQ_IS_PRIO_PER_CPU then get_and_update_current_prio c L E k s1 cpu_id
              else get_and_update_all_prio c L E k s1 cpu_id)
             (\<lambda>(_, s2). Inr (Inr (), s2))))"

text \<open>The queue of core \<open>target\<close> gets the trap; the running core \<open>cpu_id\<close> publishes its view.
An index outside the array of queues panics.\<close>

definition Scheduler_push_trap ::
  "config \<Rightarrow> lib \<Rightarrow> os \<Rightarrow> nat \<Rightarrow> sys \<Rightarrow> nat \<Rightarrow> nat \<Rightarrow> task option \<Rightarrow> nat \<Rightarrow>
    ((trap_item + unit) \<times> sys) result" where
  "Scheduler_push_trap c L E k s cpu_id trap_info task target =
     and_then (scheduler_at s k) (\<lambda>sc.
     and_then (index [0..<CPU_NUM c] target) (\<lambda>_.
       case twq_push_trap L (s_trap_wait_queue sc) trap_info task target of
         (Inl it, _) \<Rightarrow> Inr (Inl it, s)
       | (Inr _, q) \<Rightarrow>
           let s1 = set_scheduler k (sc\<lparr>s_trap_wait_queue := q\<rparr>) s in
           and_then
             (if TWQ_IS_PRIO_PER_CPU then get_and_update_current_prio c L E k s1 cpu_id
              else get_and_update_all_prio c L E k s1 cpu_id)
             (\<lambda>(_, s2). Inr (Inr (), s2))))"

section \<open>Creating a scheduler and changing its sources\<close>

definition push_source :: "lib \<Rightarrow> nat \<Rightarrow> event_source_entry \<Rightarrow> sys \<Rightarrow> sys result" where
  "push_source L k e s =
     and_then (scheduler_at s k) (\<lambda>sc.
     and_then (unwrap (vec_push (sources_vec L) (sources sc) e)) (\<lambda>es.
       Inr (set_scheduler k (sc\<lparr>sources := es\<rparr>) s)))"

text \<open>\<^verbatim>\<open>init_once\<close> panics where the variable has a value already.\<close>

definition init_except_sources :: "config \<Rightarrow> lib \<Rightarrow> nat \<Rightarrow> nat \<Rightarrow> sys \<Rightarrow> sys result" where
  "init_except_sources c L k gi s =
     and_then (ReadyQueue_new c (ready_deque L)) (\<lambda>rq.
       if USER_SCHEDULER s k \<noteq> None then Inl Explicit_panic
       else Inr (set_scheduler k
         \<lparr>sources = vec_new (sources_vec L), global_index = gi, s_ready_queue = rq,
          s_trap_wait_queue = TrapWaitQueue_new L\<rparr> s))"

definition Scheduler_init ::
  "config \<Rightarrow> lib \<Rightarrow> os \<Rightarrow> nat \<Rightarrow> nat \<Rightarrow> sys \<Rightarrow> nat \<Rightarrow> sys result" where
  "Scheduler_init c L E k gi s cpu_id =
     and_then (init_except_sources c L k gi s) (\<lambda>s1.
     and_then (twq_init c L E k s1) (\<lambda>s2.
       let twq = Kern (Source TRAP_WAIT_QUEUE k); rq = Kern (Source READY_QUEUE k) in
     and_then (push_source L k
       (EventSourceEntry_new twq twq (vtable_of TRAP_WAIT_QUEUE TWQ_IS_PRIO_PER_CPU)) s2) (\<lambda>s3.
     and_then (push_source L k
       (EventSourceEntry_new rq rq (vtable_of READY_QUEUE RQ_IS_PRIO_PER_CPU)) s3) (\<lambda>s4.
     and_then (get_and_update_all_prio c L E k s4 cpu_id) (\<lambda>(_, s5). Inr s5)))))"

text \<open>The address of a field of the scheduler \<^verbatim>\<open>user_ref\<close> points to: the field's offset is
added to the address of the scheduler.\<close>

fun field_addr :: "ptr \<Rightarrow> es_type \<Rightarrow> ptr" where
  "field_addr (User v USER_SCHEDULER_var) ty = User v (Source ty v)"
| "field_addr _ ty = Null"

definition init_sources ::
  "config \<Rightarrow> lib \<Rightarrow> os \<Rightarrow> nat \<Rightarrow> ptr \<Rightarrow> nat \<Rightarrow> sys \<Rightarrow> nat \<Rightarrow> sys result" where
  "init_sources c L E k user_ref vspace s cpu_id =
     and_then (twq_init c L E k s) (\<lambda>s1.
     and_then (with_user (os_get_user_addr E)
       (vtable_of TRAP_WAIT_QUEUE TWQ_IS_PRIO_PER_CPU) vspace) (\<lambda>twq_vtable.
     and_then (push_source L k (EventSourceEntry_new (Kern (Source TRAP_WAIT_QUEUE k))
       (field_addr user_ref TRAP_WAIT_QUEUE) twq_vtable) s1) (\<lambda>s2.
     and_then (with_user (os_get_user_addr E)
       (vtable_of READY_QUEUE RQ_IS_PRIO_PER_CPU) vspace) (\<lambda>rq_vtable.
     and_then (push_source L k (EventSourceEntry_new (Kern (Source READY_QUEUE k))
       (field_addr user_ref READY_QUEUE) rq_vtable) s2) (\<lambda>s3.
     and_then (get_and_update_all_prio c L E k s3 cpu_id) (\<lambda>(_, s4). Inr s4))))))"

definition register_event_source ::
  "config \<Rightarrow> lib \<Rightarrow> os \<Rightarrow> nat \<Rightarrow> sys \<Rightarrow> nat \<Rightarrow> ptr \<Rightarrow> ptr \<Rightarrow> vtable \<Rightarrow> int \<Rightarrow> (bool \<times> sys) result" where
  "register_event_source c L E k s cpu_id kd ud vt i =
     (if kd = Null \<or> ud = Null then Inr (False, s)
      else and_then (scheduler_at s k) (\<lambda>sc.
        let len = int (length (sources sc)) in
        if len < i \<or> i < - len - 1 then Inr (False, s)
        else
          let insert_index = (if 0 \<le> i then nat i else usize_of_isize (len + i)) in
          and_then (vec_insert (sources_vec L) (sources sc) insert_index
            (EventSourceEntry_new kd ud vt)) (\<lambda>r.
            case r of
              None \<Rightarrow> Inr (False, s)
            | Some es \<Rightarrow>
                and_then (get_and_update_all_prio c L E k
                  (set_scheduler k (sc\<lparr>sources := es\<rparr>) s) cpu_id) (\<lambda>(_, s'). Inr (True, s')))))"

primrec position :: "('a \<Rightarrow> bool) \<Rightarrow> 'a list \<Rightarrow> nat option" where
  "position P [] = None"
| "position P (x # xs) = (if P x then Some 0 else map_option Suc (position P xs))"

definition unregister_event_source ::
  "config \<Rightarrow> lib \<Rightarrow> os \<Rightarrow> nat \<Rightarrow> sys \<Rightarrow> nat \<Rightarrow> ptr \<Rightarrow> (bool \<times> sys) result" where
  "unregister_event_source c L E k s cpu_id es_ptr =
     and_then (scheduler_at s k) (\<lambda>sc.
       case position (\<lambda>e. entry_data e (in_kernel sc s cpu_id) = es_ptr) (sources sc) of
         None \<Rightarrow> Inr (False, s)
       | Some i \<Rightarrow>
           and_then (vec_remove (sources_vec L) (sources sc) i) (\<lambda>es.
           and_then (get_and_update_all_prio c L E k
             (set_scheduler k (sc\<lparr>sources := es\<rparr>) s) cpu_id) (\<lambda>(_, s'). Inr (True, s'))))"

section \<open>A scheduler in use\<close>

text \<open>An entry through which a core reaches the queue of type \<open>ty\<close> in the scheduler \<open>k\<close>.\<close>

definition entry_for :: "nat \<Rightarrow> bool \<Rightarrow> nat \<Rightarrow> es_type \<Rightarrow> bool \<Rightarrow> event_source_entry \<Rightarrow> bool" where
  "entry_for k ik vs ty pc e \<longleftrightarrow>
     reach ik vs (entry_data e ik) = Inr (Source ty k) \<and>
     reach ik vs (vt_hightest_priority (es_vtable e) ik) = Inr (Hightest_priority_impl ty) \<and>
     reach ik vs (vt_take_task (es_vtable e) ik) = Inr (Take_task_impl ty) \<and>
     is_prio_per_cpu (es_vtable e) = pc"

text \<open>The scheduler \<open>k\<close> with its two own sources, as core \<open>cpu\<close> may use it.\<close>

definition sched_ok :: "config \<Rightarrow> lib \<Rightarrow> os \<Rightarrow> nat \<Rightarrow> nat \<Rightarrow> sys \<Rightarrow> bool" where
  "sched_ok c L E k cpu s \<longleftrightarrow>
     cpu < CPU_NUM c \<and> CPU_NUM c < 2 ^ 62 \<and> twq_ok c L E k s \<and> pt_inv c (PROCESS_INFO_TABLE s) \<and>
     (case USER_SCHEDULER s k of None \<Rightarrow> False
      | Some sc \<Rightarrow>
          rq_inv c (s_ready_queue sc) \<and> global_index sc < PROCESS_NUM c \<and>
          (\<exists>e1 e2. sources sc = [e1, e2] \<and>
             entry_for k (in_kernel sc s cpu) (ACTIVE_VSPACE s cpu) TRAP_WAIT_QUEUE True e1 \<and>
             entry_for k (in_kernel sc s cpu) (ACTIVE_VSPACE s cpu) READY_QUEUE False e2))"

definition sched_of :: "sys \<Rightarrow> nat \<Rightarrow> scheduler" where
  "sched_of s k = the (USER_SCHEDULER s k)"

definition rq_of :: "sys \<Rightarrow> nat \<Rightarrow> ready_queue" where
  "rq_of s k = s_ready_queue (sched_of s k)"

lemma sched_okE:
  assumes "sched_ok c L E k cpu s"
  obtains e1 e2 where "USER_SCHEDULER s k = Some (sched_of s k)" "sources (sched_of s k) = [e1, e2]"
    "entry_for k (in_kernel (sched_of s k) s cpu) (ACTIVE_VSPACE s cpu) TRAP_WAIT_QUEUE True e1"
    "entry_for k (in_kernel (sched_of s k) s cpu) (ACTIVE_VSPACE s cpu) READY_QUEUE False e2"
  using assms by (auto simp: sched_ok_def sched_of_def split: option.splits)

lemma sched_okD:
  assumes "sched_ok c L E k cpu s"
  shows "config_ok c" "lib_laws c L" "handler_laws E" "cpu < CPU_NUM c" "CPU_NUM c < 2 ^ 62"
    "twq_ok c L E k s" "pt_inv c (PROCESS_INFO_TABLE s)" "rq_inv c (rq_of s k)"
    "global_index (sched_of s k) < PROCESS_NUM c"
    "USER_SCHEDULER s k = Some (sched_of s k)" "twq_of s k = s_trap_wait_queue (sched_of s k)"
    "rq_ok c (ready_deque L) (rq_of s k)"
  using assms
  by (auto simp: sched_ok_def sched_of_def rq_of_def twq_of_def twq_ok_def rq_ok_def
      lib_lawsD(1) split: option.splits)

text \<open>What a take from a scheduler's ready queue does, on the lists.\<close>

lemma sched_take_ref:
  assumes "sched_ok c L E k cpu s"
  obtains r p rq' where "take_ref c (rq_of s k) = ((r, p), rq')" "rq_inv c rq'"
    "fifo_take c (rq_abs c (rq_of s k)) = (r, rq_abs c rq')"
    "p = (case fifo_top c (rq_abs c (rq_of s k)) of None \<Rightarrow> LOWEST_PRIORITY c + 1 | Some q \<Rightarrow> q)"
proof -
  note D = sched_okD [OF assms]
  show thesis
    using take_cases [OF D(1) lib_lawsD(1) [OF D(2)] D(8)] rq_take_task_ref [OF D(1) lib_lawsD(1) [OF D(2)] D(8)]
      that by (metis Inr_inject)
qed

lemma sched_take_fifo:
  assumes "sched_ok c L E k cpu s" "fifo_take c (rq_abs c (rq_of s k)) = (r, rest)"
  obtains p rq' where "take_ref c (rq_of s k) = ((r, p), rq')" "rq_abs c rq' = rest"
  using sched_take_ref [OF assms(1)] assms(2) by (metis Pair_inject)

section \<open>Publishing a priority\<close>

definition publish :: "nat \<Rightarrow> (nat \<Rightarrow> bool) \<Rightarrow> int \<Rightarrow> sys \<Rightarrow> sys" where
  "publish pid cpus prio s = s\<lparr>PROCESS_INFO_TABLE :=
     pt_update (\<lambda>e. e\<lparr>pi_highest_prio := (\<lambda>i. if cpus i then prio else pi_highest_prio e i)\<rparr>) pid
       (PROCESS_INFO_TABLE s)\<rparr>"

lemma publish_sel [simp]:
  "TCBS (publish pid cpus p s) = TCBS s"
  "WORLD (publish pid cpus p s) = WORLD s"
  "USER_SCHEDULER (publish pid cpus p s) = USER_SCHEDULER s"
  "IN_KERNEL (publish pid cpus p s) = IN_KERNEL s"
  "ACTIVE_VSPACE (publish pid cpus p s) = ACTIVE_VSPACE s"
  by (simp_all add: publish_def)

lemma publish_prio:
  assumes "pid < length (pt_table (PROCESS_INFO_TABLE s))"
  shows "pt_prio (PROCESS_INFO_TABLE (publish pid cpus p s)) i cpu =
    (if i = pid \<and> cpus cpu then p else pt_prio (PROCESS_INFO_TABLE s) i cpu)"
  using assms by (auto simp: publish_def pt_prio_def)

lemma publish_inv:
  assumes "pt_inv c (PROCESS_INFO_TABLE s)" "p \<le> isize_MAX"
  shows "pt_inv c (PROCESS_INFO_TABLE (publish pid cpus p s))"
  using assms by (auto simp: publish_def intro!: pt_update_inv)

lemma pt_update_update:
  "pt_update f pid (pt_update g pid pt) = pt_update (\<lambda>e. f (g e)) pid pt"
proof (cases "pid < length (pt_table pt)")
  case False
  then have "xs[pid := x] = xs" if "length xs = length (pt_table pt)" for xs and x :: process_info
    using that by (simp add: list_update_beyond)
  then show ?thesis by (simp add: pt_update_def)
qed (simp add: pt_update_def)

lemma publish_publish:
  "publish pid A p (publish pid B p s) = publish pid (\<lambda>i. A i \<or> B i) p s"
proof -
  have "(\<lambda>i. if A i then p else if B i then p else f i) = (\<lambda>i. if A i \<or> B i then p else f i)" for f
    by auto
  then show ?thesis by (simp add: publish_def pt_update_update cong: if_cong)
qed

lemma publish_none: "publish pid (\<lambda>_. False) p s = s"
  by (simp add: publish_def pt_update_def)

lemma store_prio_publish:
  assumes "pid < length (pt_table (PROCESS_INFO_TABLE s))" "cpu < CPU_NUM c"
  shows "store_prio c pid prio cpu s = Inr (publish pid (\<lambda>i. i = cpu) prio s)"
  using assms by (simp add: store_prio_def publish_def fun_upd_def)

lemma store_prios_publish:
  assumes "pid < length (pt_table (PROCESS_INFO_TABLE s))" "\<forall>i \<in> set cpus. i < CPU_NUM c"
  shows "store_prios c pid prio cpus s = Inr (publish pid (\<lambda>i. i \<in> set cpus) prio s)"
  using assms
proof (induction cpus arbitrary: s)
  case Nil
  then show ?case by (simp add: publish_none)
next
  case (Cons cpu cpus)
  then have "store_prios c pid prio cpus (publish pid (\<lambda>i. i = cpu) prio s) =
      Inr (publish pid (\<lambda>i. i \<in> set cpus) prio (publish pid (\<lambda>i. i = cpu) prio s))"
    by (intro Cons.IH) (auto simp: publish_def)
  with Cons.prems show ?case
    by (simp add: store_prio_publish publish_publish disj_commute)
qed

lemma update_prio_publish:
  assumes "USER_SCHEDULER s k = Some sc" "CPU_NUM c < 2 ^ 62" "cpu < CPU_NUM c"
    and "global_index sc < length (pt_table (PROCESS_INFO_TABLE s))"
  shows "update_prio c k prio (int cpu) s = Inr (publish (global_index sc) (\<lambda>i. i = cpu) prio s)"
    and "update_prio c k prio (- 1) s = Inr (publish (global_index sc) (\<lambda>i. i < CPU_NUM c) prio s)"
  using assms
  by (simp_all add: update_prio_def scheduler_at_def store_prio_publish store_prios_publish)

section \<open>What a scheduler reports\<close>

text \<open>The priority of the most urgent work a core finds in the scheduler.\<close>

definition sc_prio :: "config \<Rightarrow> nat \<Rightarrow> sys \<Rightarrow> nat \<Rightarrow> int" where
  "sc_prio c k s cpu =
     (if twq_pending k s cpu then HIGHEST_PRIORITY c
      else rq_hightest_priority c (rq_of s k) cpu)"

lemma es_hightest_priority_own:
  assumes "USER_SCHEDULER s k = Some sc"
  shows "entry_for k ik (ACTIVE_VSPACE s cpu) TRAP_WAIT_QUEUE pc e \<Longrightarrow>
      es_hightest_priority c L E s cpu ik e =
        Inr (twq_hightest_priority c L (s_trap_wait_queue sc) cpu)"
    "entry_for k ik (ACTIVE_VSPACE s cpu) READY_QUEUE pc e \<Longrightarrow>
      es_hightest_priority c L E s cpu ik e =
        Inr (rq_hightest_priority c (s_ready_queue sc) cpu)"
  using assms by (simp_all add: entry_for_def es_hightest_priority_def scheduler_at_def)

lemma es_take_task_own:
  assumes "USER_SCHEDULER s k = Some sc"
  shows "entry_for k ik (ACTIVE_VSPACE s cpu) TRAP_WAIT_QUEUE pc e \<Longrightarrow>
      es_take_task c L E s cpu ik e = twq_take_task c L E k s cpu"
    "entry_for k ik (ACTIVE_VSPACE s cpu) READY_QUEUE pc e \<Longrightarrow>
      es_take_task c L E s cpu ik e =
        and_then (rq_take_task c (ready_deque L) (s_ready_queue sc) cpu) (\<lambda>(r, rq).
          Inr (r, set_scheduler k (sc\<lparr>s_ready_queue := rq\<rparr>) s))"
  using assms by (simp_all add: entry_for_def es_take_task_def scheduler_at_def)

text \<open>The priorities of the two sources, from their contracts.\<close>

lemma source_prios:
  assumes "sched_ok c L E k cpu s"
  shows "twq_hightest_priority c L (twq_of s k) cpu =
      (if twq_pending k s cpu then HIGHEST_PRIORITY c else LOWEST_PRIORITY c + 1)"
    "HIGHEST_PRIORITY c \<le> rq_hightest_priority c (rq_of s k) cpu"
    "rq_hightest_priority c (rq_of s k) cpu \<le> LOWEST_PRIORITY c + 1"
    "rq_hightest_priority c (rq_of s k) cpu \<le> LOWEST_PRIORITY c \<longleftrightarrow> rq_pending (rq_of s k) cpu"
    "HIGHEST_PRIORITY c < isize_MAX" "LOWEST_PRIORITY c + 1 < isize_MAX"
    "HIGHEST_PRIORITY c \<le> LOWEST_PRIORITY c"
proof -
  show "twq_hightest_priority c L (twq_of s k) cpu =
      (if twq_pending k s cpu then HIGHEST_PRIORITY c else LOWEST_PRIORITY c + 1)"
    unfolding twq_hp [OF sched_okD(2) [OF assms]] ACTIVE_PRIORITY_def INACTIVE_PRIORITY_def ..
qed (use config_okD [OF sched_okD(1) [OF assms]] rqs.hp_bounds [OF sched_okD(12) [OF assms]]
    rqs.hp_pending [OF sched_okD(12) [OF assms]] in \<open>simp_all add: isize_MAX_def\<close>)

lemma sc_prio_bounds:
  assumes "sched_ok c L E k cpu s"
  shows "HIGHEST_PRIORITY c \<le> sc_prio c k s cpu" "sc_prio c k s cpu \<le> LOWEST_PRIORITY c + 1"
    "sc_prio c k s cpu \<le> LOWEST_PRIORITY c \<longleftrightarrow> twq_pending k s cpu \<or> rq_pending (rq_of s k) cpu"
    "sc_prio c k s cpu \<le> isize_MAX"
  using source_prios [OF assms] by (auto simp: sc_prio_def)

lemma Scheduler_hightest_priority_spec:
  assumes "sched_ok c L E k cpu s"
  shows "Scheduler_hightest_priority c L E k s cpu = Inr (sc_prio c k s cpu)"
proof -
  obtain e1 e2 where e: "sources (sched_of s k) = [e1, e2]"
    "entry_for k (in_kernel (sched_of s k) s cpu) (ACTIVE_VSPACE s cpu) TRAP_WAIT_QUEUE True e1"
    "entry_for k (in_kernel (sched_of s k) s cpu) (ACTIVE_VSPACE s cpu) READY_QUEUE False e2"
    using assms by (rule sched_okE)
  have sc: "USER_SCHEDULER s k = Some (sched_of s k)" using sched_okD(10) [OF assms] .
  show ?thesis
    using source_prios [OF assms] sched_okD(11) [OF assms]
    by (simp add: Scheduler_hightest_priority_def scheduler_at_def sc e(1)
        es_hightest_priority_own(1) [OF sc e(2)] es_hightest_priority_own(2) [OF sc e(3)]
        sc_prio_def rq_of_def)
qed

section \<open>Keeping a scheduler in use\<close>

text \<open>Nothing a scheduler depends on changes but its queues and the published priorities.\<close>

lemma sched_ok_publish:
  assumes "sched_ok c L E k cpu s" "p \<le> isize_MAX"
  shows "sched_ok c L E k cpu (publish pid cpus p s)"
  using assms publish_inv [of c s p pid cpus]
  by (simp add: sched_ok_def twq_ok_def in_kernel_def split: option.splits)

lemma publish_views [simp]:
  "sched_of (publish pid cpus p s) k = sched_of s k"
  "rq_of (publish pid cpus p s) k = rq_of s k"
  "twq_of (publish pid cpus p s) k = twq_of s k"
  "twq_pending k (publish pid cpus p s) cpu = twq_pending k s cpu"
  "sc_prio c k (publish pid cpus p s) cpu = sc_prio c k s cpu"
  by (simp_all add: sched_of_def rq_of_def twq_of_def twq_pending_def sc_prio_def)

definition set_rq :: "nat \<Rightarrow> ready_queue \<Rightarrow> sys \<Rightarrow> sys" where
  "set_rq k rq s = set_scheduler k ((sched_of s k)\<lparr>s_ready_queue := rq\<rparr>) s"

lemma set_rq_views [simp]:
  "sched_of (set_rq k rq s) k = (sched_of s k)\<lparr>s_ready_queue := rq\<rparr>"
  "rq_of (set_rq k rq s) k = rq"
  "PROCESS_INFO_TABLE (set_rq k rq s) = PROCESS_INFO_TABLE s"
  "TCBS (set_rq k rq s) = TCBS s"
  "WORLD (set_rq k rq s) = WORLD s"
  by (simp_all add: set_rq_def sched_of_def rq_of_def)

lemma set_rq_twq:
  "USER_SCHEDULER s k = Some (sched_of s k) \<Longrightarrow> twq_pending k (set_rq k rq s) cpu = twq_pending k s cpu"
  by (simp add: set_rq_def twq_pending_def twq_of_def)

lemma sched_ok_set_rq:
  assumes "sched_ok c L E k cpu s" "rq_inv c rq"
  shows "sched_ok c L E k cpu (set_rq k rq s)"
  using assms
  by (auto simp: sched_ok_def twq_ok_def in_kernel_def set_rq_def sched_of_def split: option.splits)

definition set_traps :: "nat \<Rightarrow> (nat \<Rightarrow> trap_item list) \<Rightarrow> sys \<Rightarrow> sys" where
  "set_traps k qs s = set_scheduler k ((sched_of s k)
     \<lparr>s_trap_wait_queue := (s_trap_wait_queue (sched_of s k))\<lparr>tw_queues := qs\<rparr>\<rparr>) s"

lemma set_traps_views [simp]:
  "sched_of (set_traps k qs s) k = (sched_of s k)
     \<lparr>s_trap_wait_queue := (s_trap_wait_queue (sched_of s k))\<lparr>tw_queues := qs\<rparr>\<rparr>"
  "rq_of (set_traps k qs s) k = rq_of s k"
  "twq_pending k (set_traps k qs s) cpu \<longleftrightarrow> qs cpu \<noteq> []"
  "PROCESS_INFO_TABLE (set_traps k qs s) = PROCESS_INFO_TABLE s"
  by (simp_all add: set_traps_def sched_of_def rq_of_def twq_pending_def twq_of_def)

lemma sched_ok_set_traps:
  assumes "sched_ok c L E k cpu s"
  shows "sched_ok c L E k cpu (set_traps k qs s)"
  using assms
  by (auto simp: sched_ok_def twq_ok_def in_kernel_def set_traps_def sched_of_def split: option.splits)

text \<open>Publishing the own view, for this core or for all.\<close>

lemma get_and_update_prio:
  assumes "sched_ok c L E k cpu s"
  shows "get_and_update_current_prio c L E k s cpu = Inr (sc_prio c k s cpu,
      publish (global_index (sched_of s k)) (\<lambda>i. i = cpu) (sc_prio c k s cpu) s)"
    and "get_and_update_all_prio c L E k s cpu = Inr (sc_prio c k s cpu,
      publish (global_index (sched_of s k)) (\<lambda>i. i < CPU_NUM c) (sc_prio c k s cpu) s)"
proof -
  note D = sched_okD [OF assms]
  have "global_index (sched_of s k) < length (pt_table (PROCESS_INFO_TABLE s))"
    using D(9) pt_invD(1) [OF D(7)] by simp
  note up = update_prio_publish [OF D(10,5,4) this]
  show "get_and_update_current_prio c L E k s cpu = Inr (sc_prio c k s cpu,
      publish (global_index (sched_of s k)) (\<lambda>i. i = cpu) (sc_prio c k s cpu) s)"
    by (simp add: get_and_update_current_prio_def Scheduler_hightest_priority_spec [OF assms] up)
  show "get_and_update_all_prio c L E k s cpu = Inr (sc_prio c k s cpu,
      publish (global_index (sched_of s k)) (\<lambda>i. i < CPU_NUM c) (sc_prio c k s cpu) s)"
    by (simp add: get_and_update_all_prio_def Scheduler_hightest_priority_spec [OF assms] up)
qed

section \<open>Putting in\<close>

lemma Scheduler_push_task_spec:
  assumes "sched_ok c L E k cpu s" "in_range c (t_priority (TCBS s t))"
  shows "Scheduler_push_task c L E k s cpu t =
    (let p = t_priority (TCBS s t); q = queues (rq_of s k) ! slot c p in
     if length q < READY_QUEUE_SIZE c then
       let s1 = set_rq k ((rq_of s k)\<lparr>queues := (queues (rq_of s k))[slot c p := q @ [t]],
             prio_bitmap := prio_bitmap (rq_of s k) OR prio_bit c p\<rparr>) s
       in Inr (Inr (), publish (global_index (sched_of s k)) (\<lambda>i. i < CPU_NUM c) (sc_prio c k s1 cpu) s1)
     else Inr (Inl t, s))"
proof -
  note D = sched_okD [OF assms(1)]
  let ?p = "t_priority (TCBS s t)"
  let ?rq = "(rq_of s k)\<lparr>queues := (queues (rq_of s k))[slot c ?p := queues (rq_of s k) ! slot c ?p @ [t]],
             prio_bitmap := prio_bitmap (rq_of s k) OR prio_bit c ?p\<rparr>"
  note push = rq_push_task_in_range [where T = "TCBS s" and t = t, OF D(8,1) lib_lawsD(1) [OF D(2)] assms(2)]
  have same: "set_scheduler k ((sched_of s k)\<lparr>s_ready_queue := rq_of s k\<rparr>) s = s"
    using D(10) by (simp add: rq_of_def set_scheduler_def fun_upd_idem)
  show ?thesis
  proof (cases "length (queues (rq_of s k) ! slot c ?p) < READY_QUEUE_SIZE c")
    case True
    have "rq_inv c ?rq"
      using rq_push_task_inv [where T = "TCBS s" and t = t and r = "Inr ()" and rq' = ?rq,
          OF D(8,1) lib_lawsD(1) [OF D(2)] assms(2)] push True
      by (simp add: Let_def)
    then have ok: "sched_ok c L E k cpu (set_rq k ?rq s)" by (rule sched_ok_set_rq [OF assms(1)])
    show ?thesis
      using True push D(10) get_and_update_prio(2) [OF ok]
      by (simp add: Scheduler_push_task_def scheduler_at_def RQ_IS_PRIO_PER_CPU_def Let_def
          rq_of_def [symmetric] set_rq_def [symmetric])
  next
    case False
    then show ?thesis
      using push D(10) same
      by (simp add: Scheduler_push_task_def scheduler_at_def Let_def rq_of_def [symmetric])
  qed
qed

lemma Scheduler_push_trap_spec:
  assumes "sched_ok c L E k cpu s" "target < CPU_NUM c"
  shows "Scheduler_push_trap c L E k s cpu info t target =
    (let qs = tw_queues (twq_of s k) in
     if length (qs target) < TRAP_WAIT_QUEUE_SIZE c then
       let s1 = set_traps k (qs(target := qs target @ [(info, t)])) s
       in Inr (Inr (), publish (global_index (sched_of s k)) (\<lambda>i. i = cpu) (sc_prio c k s1 cpu) s1)
     else Inr (Inl (info, t), s))"
proof -
  note D = sched_okD [OF assms(1)]
  note ok = sched_ok_set_traps [OF assms(1), of "(tw_queues (s_trap_wait_queue (sched_of s k)))
    (target := tw_queues (s_trap_wait_queue (sched_of s k)) target @ [(info, t)])"]
  show ?thesis
    using D(10,11) assms(2) deque_lawsD(2) [OF lib_lawsD(2) [OF D(2)]] get_and_update_prio(1) [OF ok]
    by (simp add: Scheduler_push_trap_def scheduler_at_def TWQ_IS_PRIO_PER_CPU_def Let_def
        twq_push_trap_def set_traps_def [symmetric])
qed

section \<open>Taking out\<close>

text \<open>The source a core takes from, with the priority of the other one.\<close>

lemma rank_sources_own:
  assumes "sched_ok c L E k cpu s" "sources (sched_of s k) = [e1, e2]"
    "entry_for k ik (ACTIVE_VSPACE s cpu) TRAP_WAIT_QUEUE True e1"
    "entry_for k ik (ACTIVE_VSPACE s cpu) READY_QUEUE False e2"
  shows "rank_sources c L E s cpu ik [e1, e2] 0
        ((usize_MAX, isize_MAX), (usize_MAX, isize_MAX)) = Inr
     (let rp = rq_hightest_priority c (rq_of s k) cpu in
      if twq_pending k s cpu then ((0, HIGHEST_PRIORITY c), (1, rp))
      else if rq_pending (rq_of s k) cpu then ((1, rp), (0, LOWEST_PRIORITY c + 1))
      else ((0, LOWEST_PRIORITY c + 1), (1, rp)))"
proof -
  note p = source_prios [OF assms(1)]
  have sc: "USER_SCHEDULER s k = Some (sched_of s k)" using sched_okD(10) [OF assms(1)] .
  have "rank_sources c L E s cpu ik [e1, e2] 0
      ((usize_MAX, isize_MAX), (usize_MAX, isize_MAX)) = Inr
      (rank_step (rank_step ((usize_MAX, isize_MAX), (usize_MAX, isize_MAX))
          (0, twq_hightest_priority c L (twq_of s k) cpu))
        (1, rq_hightest_priority c (rq_of s k) cpu))"
    using sched_okD(11) [OF assms(1)]
    by (simp add: assms(2) es_hightest_priority_own(1) [OF sc assms(3)]
        es_hightest_priority_own(2) [OF sc assms(4)] rq_of_def)
  then show ?thesis
    using p by (simp add: rank_step_def p(1) Let_def)
qed

lemma pop_task_step:
  assumes "sched_ok c L E k cpu s" "sources (sched_of s k) = [e1, e2]"
    "entry_for k (in_kernel (sched_of s k) s cpu) (ACTIVE_VSPACE s cpu) TRAP_WAIT_QUEUE True e1"
    "entry_for k (in_kernel (sched_of s k) s cpu) (ACTIVE_VSPACE s cpu) READY_QUEUE False e2"
  shows "pop_task c L E k s cpu =
    (let rp = rq_hightest_priority c (rq_of s k) cpu in
     if twq_pending k s cpu \<or> \<not> rq_pending (rq_of s k) cpu then
       and_then (twq_take_task c L E k s cpu) (\<lambda>((t, np), s1).
         let p = min np rp in
         and_then (update_prio c k p (int cpu) s1) (\<lambda>s2. Inr ((t, p), s2)))
     else
       and_then (rq_take_task c (ready_deque L) (rq_of s k) cpu) (\<lambda>((t, np), rq).
         let p = min np (LOWEST_PRIORITY c + 1) in
         and_then (update_prio c k p (- 1) (set_rq k rq s)) (\<lambda>s2. Inr ((t, p), s2))))"
proof -
  have sc: "USER_SCHEDULER s k = Some (sched_of s k)" using sched_okD(10) [OF assms(1)] .
  have pc: "is_prio_per_cpu (es_vtable e1)" "\<not> is_prio_per_cpu (es_vtable e2)"
    using assms(3,4) by (simp_all add: entry_for_def)
  have min: "(if a < b then a else b) = min a b" for a b :: int by (simp add: min_def)
  have nz: "0 \<noteq> usize_MAX" "1 \<noteq> usize_MAX" "Suc 0 \<noteq> usize_MAX" by (simp_all add: usize_MAX_def)
  note rank = rank_sources_own [OF assms]
  note take = es_take_task_own(1) [OF sc assms(3)] es_take_task_own(2) [OF sc assms(4)]
  consider (trap) "twq_pending k s cpu" | (none) "\<not> twq_pending k s cpu" "\<not> rq_pending (rq_of s k) cpu"
    | (ready) "\<not> twq_pending k s cpu" "rq_pending (rq_of s k) cpu" by blast
  then show ?thesis
  proof cases
    case trap
    then show ?thesis
      by (simp add: pop_task_def scheduler_at_def sc rank Let_def nz assms(2) take pc(1) min
          del: rank_sources.simps)
  next
    case none
    then show ?thesis
      by (simp add: pop_task_def scheduler_at_def sc rank Let_def nz assms(2) take pc(1) min
          del: rank_sources.simps)
  next
    case ready
    then show ?thesis
      by (cases "rq_take_task c (ready_deque L) (rq_of s k) cpu")
        (auto simp: pop_task_def scheduler_at_def sc rank Let_def nz assms(2) take pc(2) min
          rq_of_def [symmetric] set_rq_def [symmetric] split: prod.splits simp del: rank_sources.simps)
  qed
qed

text \<open>The three cases of a pop: nothing to run, a ready task, a trap to handle.\<close>

lemma pop_task_none:
  assumes "sched_ok c L E k cpu s" "\<not> twq_pending k s cpu" "\<not> rq_pending (rq_of s k) cpu"
  shows "pop_task c L E k s cpu = Inr ((None, LOWEST_PRIORITY c + 1),
    publish (global_index (sched_of s k)) (\<lambda>i. i = cpu) (LOWEST_PRIORITY c + 1) s)"
proof -
  obtain e1 e2 where e: "sources (sched_of s k) = [e1, e2]"
    "entry_for k (in_kernel (sched_of s k) s cpu) (ACTIVE_VSPACE s cpu) TRAP_WAIT_QUEUE True e1"
    "entry_for k (in_kernel (sched_of s k) s cpu) (ACTIVE_VSPACE s cpu) READY_QUEUE False e2"
    using assms(1) by (rule sched_okE)
  note D = sched_okD [OF assms(1)]
  have "global_index (sched_of s k) < length (pt_table (PROCESS_INFO_TABLE s))"
    using D(9) pt_invD(1) [OF D(7)] by simp
  note up = update_prio_publish(1) [OF D(10,5,4) this]
  have rp: "rq_hightest_priority c (rq_of s k) cpu = LOWEST_PRIORITY c + 1"
    by (rule rqs.idle_hp [OF D(12) assms(3)])
  show ?thesis
    using assms(2,3) twqs.take_idle [OF D(6) assms(2)]
    by (simp add: pop_task_step [OF assms(1) e] up rp Let_def)
qed

lemma take_ref_pending:
  assumes "rq_pending rq cpu" "config_ok c" "rq_inv c rq"
  obtains t rq' where "take_ref c rq = ((Some t, rq_hightest_priority c rq cpu), rq')" "rq_inv c rq'"
    "rq_hightest_priority c rq cpu \<le> rq_hightest_priority c rq' cpu"
proof -
  obtain r p rq' where r: "take_ref c rq = ((r, p), rq')" by (cases "take_ref c rq") auto
  with assms have "p = rq_hightest_priority c rq cpu" "r \<noteq> None"
    by (auto simp: take_ref_def rq_pending_top rq_hightest_priority_top Let_def)
  then show thesis
    using that r take_ref_inv [OF assms(2,3)] take_ref_prio [OF assms(2,3) r] by auto
qed

lemma pop_task_ready:
  assumes "sched_ok c L E k cpu s" "\<not> twq_pending k s cpu" "take_ref c (rq_of s k) = ((Some t, p), rq')"
  shows "pop_task c L E k s cpu = Inr ((Some t, p),
    publish (global_index (sched_of s k)) (\<lambda>i. i < CPU_NUM c) p (set_rq k rq' s))"
proof -
  obtain e1 e2 where e: "sources (sched_of s k) = [e1, e2]"
    "entry_for k (in_kernel (sched_of s k) s cpu) (ACTIVE_VSPACE s cpu) TRAP_WAIT_QUEUE True e1"
    "entry_for k (in_kernel (sched_of s k) s cpu) (ACTIVE_VSPACE s cpu) READY_QUEUE False e2"
    using assms(1) by (rule sched_okE)
  note D = sched_okD [OF assms(1)]
  have pend: "rq_pending (rq_of s k) cpu"
    using assms(3) by (auto simp: take_ref_def rq_pending_top Let_def split: if_splits)
  obtain t0 rq0 where "take_ref c (rq_of s k) =
      ((Some t0, rq_hightest_priority c (rq_of s k) cpu), rq0)" "rq_inv c rq0"
    using take_ref_pending [OF pend D(1,8)] by blast
  with assms(3) have p: "p = rq_hightest_priority c (rq_of s k) cpu" and inv: "rq_inv c rq'" by auto
  let ?s = "set_rq k rq' s"
  note D' = sched_okD [OF sched_ok_set_rq [OF assms(1) inv]]
  have "global_index (sched_of ?s k) < length (pt_table (PROCESS_INFO_TABLE ?s))"
    using D'(9) pt_invD(1) [OF D'(7)] by simp
  note up = update_prio_publish(2) [OF D'(10) D(5,4) this]
  have "p \<le> LOWEST_PRIORITY c + 1" using source_prios(3) [OF assms(1)] p by simp
  then show ?thesis
    using assms(2) pend rq_take_task_ref [OF D(1) lib_lawsD(1) [OF D(2)] D(8), of cpu] assms(3) up
    by (simp add: pop_task_step [OF assms(1) e] Let_def min_def)
qed

lemma twq_take_frame:
  assumes "sched_ok c L E k cpu s" "twq_pending k s cpu"
    "twq_take_task c L E k s cpu = Inr ((r, p), s')"
  obtains h tcb w hs where "r = Some h" "p = HIGHEST_PRIORITY c" "t_state tcb = Ready"
    "s' = s\<lparr>TCBS := (TCBS s)(h := tcb), WORLD := w, USER_SCHEDULER := (USER_SCHEDULER s)(k :=
       Some ((sched_of s k)\<lparr>s_trap_wait_queue := (s_trap_wait_queue (sched_of s k))
         \<lparr>idle_handlers := hs\<rparr>\<rparr>))\<rparr>"
    "sched_ok c L E k cpu s'" "sc_prio c k s' cpu = HIGHEST_PRIORITY c"
proof -
  note D = sched_okD [OF assms(1)]
  have inv: "idle_inv c E (WORLD s) (TCBS s) (idle_handlers (s_trap_wait_queue (sched_of s k)))"
    using D(6,10) by (auto elim: twq_okE)
  obtain info t items where "tw_queues (s_trap_wait_queue (sched_of s k)) cpu = (info, t) # items"
    using assms(2) D(11) by (cases "tw_queues (s_trap_wait_queue (sched_of s k)) cpu")
      (auto simp: twq_pending_def)
  from twq_take_busy [OF D(2,3,10) inv this assms(3)] obtain h tcb w where
    h: "r = Some h" "p = HIGHEST_PRIORITY c" "t_state tcb = Ready" and
    s': "s' = s\<lparr>TCBS := (TCBS s)(h := tcb), WORLD := w, USER_SCHEDULER := (USER_SCHEDULER s)(k :=
       Some ((sched_of s k)\<lparr>s_trap_wait_queue := (s_trap_wait_queue (sched_of s k))
         \<lparr>idle_handlers := tl (idle_handlers (s_trap_wait_queue (sched_of s k)))\<rparr>\<rparr>))\<rparr>"
    unfolding ACTIVE_PRIORITY_def by metis
  have "twq_ok c L E k s'" "twq_pending k s' cpu"
    using twq_take_ok(1,2) [OF D(6) assms(3)] assms(2) by (simp_all add: twq_pending_def)
  then have "sched_ok c L E k cpu s'" "sc_prio c k s' cpu = HIGHEST_PRIORITY c"
    using assms(1) D(10) by (simp_all add: sched_ok_def sc_prio_def in_kernel_def s')
  then show thesis using that h s' by blast
qed

lemma pop_task_trap:
  assumes "sched_ok c L E k cpu s" "twq_pending k s cpu"
  shows "pop_task c L E k s cpu =
    and_then (twq_take_task c L E k s cpu) (\<lambda>((t, np), s1).
      Inr ((t, HIGHEST_PRIORITY c),
        publish (global_index (sched_of s k)) (\<lambda>i. i = cpu) (HIGHEST_PRIORITY c) s1))"
proof (cases "twq_take_task c L E k s cpu")
  case (Inl e)
  moreover obtain e1 e2 where e: "sources (sched_of s k) = [e1, e2]"
    "entry_for k (in_kernel (sched_of s k) s cpu) (ACTIVE_VSPACE s cpu) TRAP_WAIT_QUEUE True e1"
    "entry_for k (in_kernel (sched_of s k) s cpu) (ACTIVE_VSPACE s cpu) READY_QUEUE False e2"
    using assms(1) by (rule sched_okE)
  ultimately show ?thesis using assms(2) by (simp add: pop_task_step [OF assms(1) e])
next
  case (Inr b)
  obtain r p s' where b: "b = ((r, p), s')" by (cases b) auto
  obtain e1 e2 where e: "sources (sched_of s k) = [e1, e2]"
    "entry_for k (in_kernel (sched_of s k) s cpu) (ACTIVE_VSPACE s cpu) TRAP_WAIT_QUEUE True e1"
    "entry_for k (in_kernel (sched_of s k) s cpu) (ACTIVE_VSPACE s cpu) READY_QUEUE False e2"
    using assms(1) by (rule sched_okE)
  obtain h tcb w hs where f: "p = HIGHEST_PRIORITY c" "s' = s\<lparr>TCBS := (TCBS s)(h := tcb), WORLD := w,
      USER_SCHEDULER := (USER_SCHEDULER s)(k :=
       Some ((sched_of s k)\<lparr>s_trap_wait_queue := (s_trap_wait_queue (sched_of s k))
         \<lparr>idle_handlers := hs\<rparr>\<rparr>))\<rparr>" "sched_ok c L E k cpu s'"
    using twq_take_frame [OF assms Inr [unfolded b]] by metis
  note D' = sched_okD [OF f(3)]
  have "global_index (sched_of s' k) < length (pt_table (PROCESS_INFO_TABLE s'))"
    using D'(9) pt_invD(1) [OF D'(7)] by simp
  note up = update_prio_publish(1) [OF D'(10,5,4) this]
  have "sched_of s' k = (sched_of s k)\<lparr>s_trap_wait_queue := (s_trap_wait_queue (sched_of s k))
         \<lparr>idle_handlers := hs\<rparr>\<rparr>" using f(2) by (simp add: sched_of_def)
  then show ?thesis
    using assms(2) Inr b f(1) up source_prios(2) [OF assms(1)]
    by (simp add: pop_task_step [OF assms(1) e] Let_def min_def)
qed

text \<open>A pop keeps the scheduler usable and never hides work from the core that popped.\<close>

lemma pop_task_ok:
  assumes "sched_ok c L E k cpu s" "pop_task c L E k s cpu = Inr ((r, p), s')"
  shows "sched_ok c L E k cpu s'" "p \<le> sc_prio c k s' cpu"
    "pt_prio (PROCESS_INFO_TABLE s') (global_index (sched_of s' k)) cpu = p"
    "r = None \<longleftrightarrow> \<not> twq_pending k s cpu \<and> \<not> rq_pending (rq_of s k) cpu"
proof -
  note D = sched_okD [OF assms(1)] note P = source_prios [OF assms(1)]
  have gi: "global_index (sched_of s k) < length (pt_table (PROCESS_INFO_TABLE s))"
    using D(9) pt_invD(1) [OF D(7)] by simp
  consider (trap) "twq_pending k s cpu" | (none) "\<not> twq_pending k s cpu" "\<not> rq_pending (rq_of s k) cpu"
    | (ready) "\<not> twq_pending k s cpu" "rq_pending (rq_of s k) cpu" by blast
  then have "sched_ok c L E k cpu s' \<and> p \<le> sc_prio c k s' cpu \<and>
    pt_prio (PROCESS_INFO_TABLE s') (global_index (sched_of s' k)) cpu = p \<and>
    (r = None \<longleftrightarrow> \<not> twq_pending k s cpu \<and> \<not> rq_pending (rq_of s k) cpu)"
  proof cases
    case trap
    with assms obtain np s1 where t: "twq_take_task c L E k s cpu = Inr ((r, np), s1)"
      "p = HIGHEST_PRIORITY c"
      "s' = publish (global_index (sched_of s k)) (\<lambda>i. i = cpu) (HIGHEST_PRIORITY c) s1"
      by (auto simp: pop_task_trap and_then_Inr_iff)
    obtain h tcb w hs where f: "r = Some h" "s1 = s\<lparr>TCBS := (TCBS s)(h := tcb), WORLD := w,
      USER_SCHEDULER := (USER_SCHEDULER s)(k :=
       Some ((sched_of s k)\<lparr>s_trap_wait_queue := (s_trap_wait_queue (sched_of s k))
         \<lparr>idle_handlers := hs\<rparr>\<rparr>))\<rparr>" "sched_ok c L E k cpu s1" "sc_prio c k s1 cpu = HIGHEST_PRIORITY c"
      using twq_take_frame [OF assms(1) trap t(1)] by metis
    have "global_index (sched_of s1 k) = global_index (sched_of s k)"
      "PROCESS_INFO_TABLE s1 = PROCESS_INFO_TABLE s" using f(2) by (simp_all add: sched_of_def)
    then show ?thesis
      using f(1,3,4) t trap P(5) gi by (simp add: sched_ok_publish publish_prio)
  next
    case none
    then show ?thesis
      using assms pop_task_none [OF assms(1) none] P(6) gi sc_prio_bounds(2,3) [OF assms(1)]
      by (auto simp: sched_ok_publish publish_prio)
  next
    case ready
    obtain t rq' where t: "take_ref c (rq_of s k) = ((Some t, rq_hightest_priority c (rq_of s k) cpu), rq')"
      "rq_inv c rq'" "rq_hightest_priority c (rq_of s k) cpu \<le> rq_hightest_priority c rq' cpu"
      using take_ref_pending [OF ready(2) D(1,8)] by blast
    then show ?thesis
      using assms(2) pop_task_ready [OF assms(1) ready(1) t(1)] ready P(3,6) gi
        sched_ok_set_rq [OF assms(1) t(2)] set_rq_twq [OF D(10)]
      by (auto simp: sched_ok_publish publish_prio sc_prio_def D(4))
  qed
  then show "sched_ok c L E k cpu s'" "p \<le> sc_prio c k s' cpu"
    "pt_prio (PROCESS_INFO_TABLE s') (global_index (sched_of s' k)) cpu = p"
    "r = None \<longleftrightarrow> \<not> twq_pending k s cpu \<and> \<not> rq_pending (rq_of s k) cpu" by blast+
qed

section \<open>A new scheduler\<close>

lemma push_source_ok:
  assumes "lib_laws c L" "USER_SCHEDULER s k = Some sc" "length (sources sc) < EVENT_SORCE_NUM c"
  shows "push_source L k e s = Inr (set_scheduler k (sc\<lparr>sources := sources sc @ [e]\<rparr>) s)"
  using assms vec_lawsD(3) [OF lib_lawsD(4) [OF assms(1)]]
  by (simp add: push_source_def scheduler_at_def)

lemma TrapWaitQueue_new_simps:
  assumes "lib_laws c L"
  shows "idle_handlers (TrapWaitQueue_new L) = []" "tw_queues (TrapWaitQueue_new L) = (\<lambda>_. [])"
  using deque_lawsD(1) [OF lib_lawsD(2) [OF assms]] deque_lawsD(1) [OF lib_lawsD(3) [OF assms]]
  by (simp_all add: TrapWaitQueue_new_def)

text \<open>A scheduler without work.\<close>

definition sched_idle :: "config \<Rightarrow> nat \<Rightarrow> sys \<Rightarrow> bool" where
  "sched_idle c k s \<longleftrightarrow> (\<forall>cpu. \<not> twq_pending k s cpu \<and> \<not> rq_pending (rq_of s k) cpu)"

lemma init_except_sources_ok:
  assumes "config_ok c" "lib_laws c L" "USER_SCHEDULER s k = None"
  obtains rq where "init_except_sources c L k gi s = Inr (set_scheduler k
      \<lparr>sources = [], global_index = gi, s_ready_queue = rq, s_trap_wait_queue = TrapWaitQueue_new L\<rparr> s)"
    "rq_inv c rq" "\<forall>q \<in> set (queues rq). q = []"
proof -
  obtain rq where rq: "ReadyQueue_new c (ready_deque L) = Inr rq" "rq_inv c rq"
    "\<forall>q \<in> set (queues rq). q = []"
    using ReadyQueue_new_ok [OF assms(1) lib_lawsD(1) [OF assms(2)]] by blast
  show thesis
    by (rule that [OF _ rq(2,3)])
      (simp add: init_except_sources_def rq(1) assms(3) vec_lawsD(1) [OF lib_lawsD(4) [OF assms(2)]])
qed

text \<open>What initialising a scheduler changes.\<close>

definition sched_frame :: "os \<Rightarrow> sys \<Rightarrow> sys \<Rightarrow> bool" where
  "sched_frame E s s' \<longleftrightarrow>
     s' = s\<lparr>TCBS := TCBS s', WORLD := WORLD s', USER_SCHEDULER := USER_SCHEDULER s',
       PROCESS_INFO_TABLE := PROCESS_INFO_TABLE s'\<rparr> \<and>
     (\<forall>P. handler_keeps E P \<longrightarrow> P (WORLD s) \<longrightarrow> P (WORLD s'))"

lemma sched_frame_set_scheduler:
  assumes "sched_frame E (set_scheduler k sc s) s'"
  shows "sched_frame E s s'"
proof -
  have "s' = (set_scheduler k sc s)\<lparr>TCBS := TCBS s', WORLD := WORLD s',
      USER_SCHEDULER := USER_SCHEDULER s', PROCESS_INFO_TABLE := PROCESS_INFO_TABLE s'\<rparr>"
    using assms unfolding sched_frame_def by blast
  also have "\<dots> = s\<lparr>TCBS := TCBS s', WORLD := WORLD s',
      USER_SCHEDULER := USER_SCHEDULER s', PROCESS_INFO_TABLE := PROCESS_INFO_TABLE s'\<rparr>"
    by (simp add: set_scheduler_def)
  finally have f: "s' = s\<lparr>TCBS := TCBS s', WORLD := WORLD s',
      USER_SCHEDULER := USER_SCHEDULER s', PROCESS_INFO_TABLE := PROCESS_INFO_TABLE s'\<rparr>" .
  have "\<forall>P. handler_keeps E P \<longrightarrow> P (WORLD s) \<longrightarrow> P (WORLD s')"
    using assms unfolding sched_frame_def set_scheduler_sel by blast
  with f show ?thesis unfolding sched_frame_def by blast
qed

text \<open>The other schedulers and the other processes stay as they are, and so does who is registered.\<close>

definition init_frame :: "nat \<Rightarrow> nat \<Rightarrow> sys \<Rightarrow> sys \<Rightarrow> bool" where
  "init_frame k pid s s' \<longleftrightarrow>
     (\<forall>j. j \<noteq> k \<longrightarrow> USER_SCHEDULER s' j = USER_SCHEDULER s j) \<and>
     (\<forall>j. j \<noteq> pid \<longrightarrow> pt_table (PROCESS_INFO_TABLE s') ! j = pt_table (PROCESS_INFO_TABLE s) ! j) \<and>
     (\<forall>j. pi_valid (pt_table (PROCESS_INFO_TABLE s') ! j) = pi_valid (pt_table (PROCESS_INFO_TABLE s) ! j) \<and>
       pi_vspace (pt_table (PROCESS_INFO_TABLE s') ! j) = pi_vspace (pt_table (PROCESS_INFO_TABLE s) ! j) \<and>
       pi_scheduler (pt_table (PROCESS_INFO_TABLE s') ! j) = pi_scheduler (pt_table (PROCESS_INFO_TABLE s) ! j))"

text \<open>Filling the pool of a scheduler that has none and giving it its two sources.\<close>

lemma init_own_sources:
  assumes "config_ok c" "lib_laws c L" "handler_laws E" "CPU_NUM c < 2 ^ 62" "cpu < CPU_NUM c"
    and "USER_SCHEDULER s k = Some sc" "sources sc = []" "s_trap_wait_queue sc = TrapWaitQueue_new L"
    and "rq_inv c (s_ready_queue sc)" "\<forall>q \<in> set (queues (s_ready_queue sc)). q = []"
    and "global_index sc < PROCESS_NUM c" "pt_inv c (PROCESS_INFO_TABLE s)"
    and "entry_for k (in_kernel sc s cpu) (ACTIVE_VSPACE s cpu) TRAP_WAIT_QUEUE True e1"
    and "entry_for k (in_kernel sc s cpu) (ACTIVE_VSPACE s cpu) READY_QUEUE False e2"
  shows "\<exists>s'. and_then (twq_init c L E k s) (\<lambda>s1. and_then (push_source L k e1 s1) (\<lambda>s2.
      and_then (push_source L k e2 s2) (\<lambda>s3.
      and_then (get_and_update_all_prio c L E k s3 cpu) (\<lambda>(_, s4). Inr s4)))) = Inr s' \<and>
    sched_ok c L E k cpu s' \<and> sched_idle c k s' \<and>
    length (idle_handlers (twq_of s' k)) = CPU_NUM c \<and>
    global_index (sched_of s' k) = global_index sc \<and> sources (sched_of s' k) = [e1, e2] \<and>
    (\<forall>i < CPU_NUM c. pt_prio (PROCESS_INFO_TABLE s') (global_index sc) i = LOWEST_PRIORITY c + 1) \<and>
    sched_frame E s s' \<and> init_frame k (global_index sc) s s'"
proof -
  note new = TrapWaitQueue_new_simps [OF assms(2)]
  have "idle_handlers (s_trap_wait_queue sc) = []" using assms(8) new by simp
  then obtain T w hs where i: "twq_init c L E k s = Inr (s\<lparr>TCBS := T, WORLD := w,
      USER_SCHEDULER := (USER_SCHEDULER s)(k := Some (sc\<lparr>s_trap_wait_queue :=
        (s_trap_wait_queue sc)\<lparr>idle_handlers := hs\<rparr>\<rparr>))\<rparr>)"
    "idle_inv c E w T hs" "length hs = CPU_NUM c"
    using config_okD(2) [OF assms(1)] by (rule twq_init_ok [OF assms(2,3,6)])
  let ?sc = "sc\<lparr>s_trap_wait_queue :=
        (s_trap_wait_queue sc)\<lparr>idle_handlers := hs\<rparr>, sources := [e1, e2]\<rparr>"
  let ?s = "s\<lparr>TCBS := T, WORLD := w, USER_SCHEDULER := (USER_SCHEDULER s)(k := Some ?sc)\<rparr>"
  have ok: "sched_ok c L E k cpu ?s"
    using assms i(2) by (auto simp: sched_ok_def twq_ok_def in_kernel_def)
  have idle: "sched_idle c k ?s"
    using assms(8,10) new by (simp add: sched_idle_def twq_pending_def twq_of_def rq_pending_def
        rq_of_def sched_of_def)
  then have prio: "sc_prio c k ?s cpu = LOWEST_PRIORITY c + 1"
    using sc_prio_bounds(2,3) [OF ok] by (auto simp: sched_idle_def)
  have sel: "twq_of ?s k = (s_trap_wait_queue sc)\<lparr>idle_handlers := hs\<rparr>"
    "global_index (sched_of ?s k) = global_index sc" "sources (sched_of ?s k) = [e1, e2]"
    by (simp_all add: twq_of_def sched_of_def)
  have len: "global_index sc < length (pt_table (PROCESS_INFO_TABLE s))"
    using assms(11) pt_invD(1) [OF assms(12)] by simp
  let ?e = "publish (global_index sc) (\<lambda>i. i < CPU_NUM c) (LOWEST_PRIORITY c + 1) ?s"
  have "and_then (twq_init c L E k s) (\<lambda>s1. and_then (push_source L k e1 s1) (\<lambda>s2.
      and_then (push_source L k e2 s2) (\<lambda>s3.
      and_then (get_and_update_all_prio c L E k s3 cpu) (\<lambda>(_, s4). Inr s4)))) =
      and_then (get_and_update_all_prio c L E k ?s cpu) (\<lambda>(_, s4). Inr s4)"
    using config_okD(3) [OF assms(1)] assms(7)
    by (simp add: i(1) push_source_ok [OF assms(2)] set_scheduler_def)
  also have "\<dots> = Inr ?e"
    using get_and_update_prio(2) [OF ok] by (simp add: prio sel)
  finally have run: "and_then (twq_init c L E k s) (\<lambda>s1. and_then (push_source L k e1 s1) (\<lambda>s2.
      and_then (push_source L k e2 s2) (\<lambda>s3.
      and_then (get_and_update_all_prio c L E k s3 cpu) (\<lambda>(_, s4). Inr s4)))) = Inr ?e" .
  have "\<forall>P. handler_keeps E P \<longrightarrow> P (WORLD s) \<longrightarrow> P w"
    using twq_init_loop_world [OF _ i(1) [unfolded twq_init_def]] by auto
  then have frame: "sched_frame E s ?e" by (simp add: sched_frame_def publish_def)
  have "init_frame k (global_index sc) s ?e" by (auto simp: init_frame_def publish_def)
  moreover have "sched_ok c L E k cpu ?e" using source_prios(6) [OF ok] by (intro sched_ok_publish [OF ok]) simp
  ultimately show ?thesis
    using run frame idle i(3) len by (intro exI [of _ ?e] conjI) (simp_all add: sched_idle_def sel publish_prio)
qed

text \<open>The kernel's scheduler after \<^verbatim>\<open>init\<close>.\<close>

lemma Scheduler_init_ok:
  assumes "config_ok c" "lib_laws c L" "handler_laws E" "CPU_NUM c < 2 ^ 62" "cpu < CPU_NUM c"
    and "USER_SCHEDULER s k = None" "pt_inv c (PROCESS_INFO_TABLE s)"
  shows "\<exists>s'. Scheduler_init c L E k 0 s cpu = Inr s' \<and> sched_ok c L E k cpu s' \<and> sched_idle c k s' \<and>
    length (idle_handlers (twq_of s' k)) = CPU_NUM c \<and> global_index (sched_of s' k) = 0 \<and>
    (\<forall>i < CPU_NUM c. pt_prio (PROCESS_INFO_TABLE s') 0 i = LOWEST_PRIORITY c + 1) \<and>
    sched_frame E s s'"
proof -
  obtain rq where i: "init_except_sources c L k 0 s = Inr (set_scheduler k
      \<lparr>sources = [], global_index = 0, s_ready_queue = rq, s_trap_wait_queue = TrapWaitQueue_new L\<rparr> s)"
    "rq_inv c rq" "\<forall>q \<in> set (queues rq). q = []"
    using assms(1,2,6) by (rule init_except_sources_ok)
  let ?sc = "\<lparr>sources = [], global_index = 0, s_ready_queue = rq,
    s_trap_wait_queue = TrapWaitQueue_new L\<rparr>"
  let ?e = "\<lambda>ty. EventSourceEntry_new (Kern (Source ty k)) (Kern (Source ty k))"
  have e: "entry_for k (in_kernel ?sc s' cpu) vs ty pc (?e ty (vtable_of ty pc))" for s' vs ty pc
    by (simp add: entry_for_def in_kernel_def entry_data_def EventSourceEntry_new_def vtable_of_def
        vt_hightest_priority_def vt_take_task_def EventSourceVtable_new_def)
  have "0 < PROCESS_NUM c" using config_okD(4) [OF assms(1)] .
  then show ?thesis
    using init_own_sources [OF assms(1-5), of "set_scheduler k ?sc s" k ?sc, OF _ _ _ _ _ _ _ e e]
      i(2,3) assms(7) sched_frame_set_scheduler [of E k ?sc s]
    by (simp add: Scheduler_init_def i(1) TWQ_IS_PRIO_PER_CPU_def RQ_IS_PRIO_PER_CPU_def Let_def)
      blast
qed

text \<open>
  A process's scheduler after \<^verbatim>\<open>init_except_sources\<close> and \<^verbatim>\<open>init_sources\<close>: every core may use it,
  from the kernel and from the process's own address space.
\<close>

lemma entry_for_user:
  assumes "user_addr_laws gua" "with_user gua (vtable_of ty pc) v = Inr vt" "ik \<or> vs = v"
  shows "entry_for v ik vs ty pc (EventSourceEntry_new (Kern (Source ty v)) (User v (Source ty v)) vt)"
proof -
  have "reach ik vs p = reach ik v p" for p
    using assms(3) by (cases p; cases ik) auto
  then show ?thesis
    using with_user_reach [OF assms(1,2)] assms(3)
    by (auto simp: entry_for_def entry_data_def EventSourceEntry_new_def)
qed

lemma with_user_total:
  assumes "\<And>x. gua (Kern x) 1 (Some v) \<noteq> Null"
  obtains vt where "with_user gua (vtable_of ty pc) v = Inr vt"
  using assms by (simp add: with_user_def vtable_of_def EventSourceVtable_new_def Let_def)

lemma init_sources_ok:
  assumes "config_ok c" "lib_laws c L" "handler_laws E" "CPU_NUM c < 2 ^ 62" "cpu < CPU_NUM c"
    and "USER_SCHEDULER s v = Some sc" "sources sc = []" "s_trap_wait_queue sc = TrapWaitQueue_new L"
    and "rq_inv c (s_ready_queue sc)" "\<forall>q \<in> set (queues (s_ready_queue sc)). q = []"
    and "global_index sc < PROCESS_NUM c" "pt_inv c (PROCESS_INFO_TABLE s)"
    and "IN_KERNEL s cpu" "user_addr_laws (os_get_user_addr E)"
    and "\<And>x. os_get_user_addr E (Kern x) 1 (Some v) \<noteq> Null"
  shows "\<exists>s'. init_sources c L E v (User v USER_SCHEDULER_var) v s cpu = Inr s' \<and>
    sched_idle c v s' \<and> global_index (sched_of s' v) = global_index sc \<and>
    (\<forall>i f g. i < CPU_NUM c \<longrightarrow> f i \<or> g i = v \<longrightarrow>
      sched_ok c L E v i (s'\<lparr>IN_KERNEL := f, ACTIVE_VSPACE := g\<rparr>)) \<and>
    (\<forall>i < CPU_NUM c. pt_prio (PROCESS_INFO_TABLE s') (global_index sc) i = LOWEST_PRIORITY c + 1) \<and>
    sched_frame E s s' \<and> init_frame v (global_index sc) s s'"
proof -
  obtain t where t: "with_user (os_get_user_addr E) (vtable_of TRAP_WAIT_QUEUE True) v = Inr t"
    using assms(15) by (rule with_user_total)
  obtain r where r: "with_user (os_get_user_addr E) (vtable_of READY_QUEUE False) v = Inr r"
    using assms(15) by (rule with_user_total)
  let ?e = "\<lambda>ty. EventSourceEntry_new (Kern (Source ty v)) (User v (Source ty v))"
  note et = entry_for_user [OF assms(14) t] and er = entry_for_user [OF assms(14) r]
  have k: "in_kernel sc s cpu" using assms(13) by (simp add: in_kernel_def)
  obtain s' where s': "and_then (twq_init c L E v s) (\<lambda>s1.
      and_then (push_source L v (?e TRAP_WAIT_QUEUE t) s1) (\<lambda>s2.
      and_then (push_source L v (?e READY_QUEUE r) s2) (\<lambda>s3.
      and_then (get_and_update_all_prio c L E v s3 cpu) (\<lambda>(_, s4). Inr s4)))) = Inr s'"
    "sched_ok c L E v cpu s'" "sched_idle c v s'" "global_index (sched_of s' v) = global_index sc"
    "sources (sched_of s' v) = [?e TRAP_WAIT_QUEUE t, ?e READY_QUEUE r]"
    "\<forall>i < CPU_NUM c. pt_prio (PROCESS_INFO_TABLE s') (global_index sc) i = LOWEST_PRIORITY c + 1"
    "sched_frame E s s'" "init_frame v (global_index sc) s s'"
    using init_own_sources [OF assms(1-12) et er] k by blast
  have "sched_ok c L E v i (s'\<lparr>IN_KERNEL := f, ACTIVE_VSPACE := g\<rparr>)"
    if "i < CPU_NUM c" "f i \<or> g i = v" for i f g
  proof -
    have l: "in_kernel (sched_of s' v) (s'\<lparr>IN_KERNEL := f, ACTIVE_VSPACE := g\<rparr>) i \<or> g i = v"
      using that(2) by (auto simp: in_kernel_def)
    show ?thesis
      using s'(2) sched_okD(10) [OF s'(2)] that(1) et [OF l] er [OF l] s'(5)
      by (simp add: sched_ok_def twq_ok_def)
  qed
  then show ?thesis
    using s'(1,3,4,6-8) t r
    by (intro exI [of _ s'])
      (simp add: init_sources_def TWQ_IS_PRIO_PER_CPU_def RQ_IS_PRIO_PER_CPU_def)
qed

section \<open>What a scheduler in use depends on\<close>

lemma sched_ok_cong:
  assumes "TCBS s' = TCBS s" "USER_SCHEDULER s' = USER_SCHEDULER s"
    "PROCESS_INFO_TABLE s' = PROCESS_INFO_TABLE s" "ACTIVE_VSPACE s' = ACTIVE_VSPACE s"
    "in_kernel (sched_of s k) s' cpu = in_kernel (sched_of s k) s cpu"
    "\<And>h. os_task_live E (WORLD s) h \<Longrightarrow> os_task_live E (WORLD s') h"
    "sched_ok c L E k cpu s"
  shows "sched_ok c L E k cpu s'"
  using assms sched_okD(10) [OF assms(7)] by (auto simp: sched_ok_def twq_ok_def idle_inv_def)

section \<open>Switching the address space in the kernel\<close>

lemma entry_for_kernel:
  "entry_for k True vs ty pc e = entry_for k True vs' ty pc e"
proof -
  have "reach True vs p = reach True vs' p" for p by (cases p) simp_all
  then show ?thesis by (simp add: entry_for_def)
qed

lemma switch_vspace_sched_ok:
  assumes "switch_vspace cpu pid s = Inr s'" "sched_ok c L E k cpu s" "in_kernel (sched_of s k) s cpu"
  shows "sched_ok c L E k cpu s'" "sched_of s' k = sched_of s k" "TCBS s' = TCBS s"
    "PROCESS_INFO_TABLE s' = PROCESS_INFO_TABLE s" "rq_of s' k = rq_of s k"
    "twq_pending k s' i = twq_pending k s i" "IN_KERNEL s' = IN_KERNEL s"
proof -
  have f: "s' = s\<lparr>CURRENT_VSPACE := CURRENT_VSPACE s', ACTIVE_VSPACE := ACTIVE_VSPACE s'\<rparr>"
    using switch_vspace_spec(4) [OF assms(1)] .
  show sel: "sched_of s' k = sched_of s k" "TCBS s' = TCBS s"
    "PROCESS_INFO_TABLE s' = PROCESS_INFO_TABLE s" "rq_of s' k = rq_of s k"
    "twq_pending k s' i = twq_pending k s i" "IN_KERNEL s' = IN_KERNEL s"
    by (subst f, simp add: sched_of_def rq_of_def twq_pending_def twq_of_def)+
  have us: "USER_SCHEDULER s' = USER_SCHEDULER s" "WORLD s' = WORLD s" by (subst f, simp)+
  have ik: "in_kernel (sched_of s k) s' cpu" using assms(3) sel by (simp add: in_kernel_def)
  show "sched_ok c L E k cpu s'"
    using assms(2,3) ik sched_okD(10) [OF assms(2)] us sel
      entry_for_kernel [of k "ACTIVE_VSPACE s cpu" _ _ _ "ACTIVE_VSPACE s' cpu"]
    by (simp add: sched_ok_def twq_ok_def)
qed

section \<open>Changing a task\<close>

text \<open>A task outside the pool of idle handlers may change without harm to the scheduler.\<close>

lemma sched_ok_set_tcb:
  assumes "sched_ok c L E k cpu s" "t \<notin> set (idle_handlers (twq_of s k))"
  shows "sched_ok c L E k cpu (s\<lparr>TCBS := (TCBS s)(t := tcb)\<rparr>)"
    "twq_of (s\<lparr>TCBS := T\<rparr>) k = twq_of s k" "rq_of (s\<lparr>TCBS := T\<rparr>) k = rq_of s k"
    "sched_of (s\<lparr>TCBS := T\<rparr>) k = sched_of s k"
  using assms
  by (auto simp: sched_ok_def twq_ok_def idle_inv_def in_kernel_def twq_of_def rq_of_def sched_of_def
      split: option.splits)

text \<open>The scheduler a task is put back into.\<close>

definition task_home :: "sys \<Rightarrow> task \<Rightarrow> nat option" where
  "task_home s t =
     (if t_is_kernel (TCBS s t) then KERNEL_SCHEDULER s
      else if t_pid (TCBS s t) < length (pt_table (PROCESS_INFO_TABLE s))
      then pi_scheduler (pt_table (PROCESS_INFO_TABLE s) ! t_pid (TCBS s t)) else None)"

text \<open>A push that finds room appends the task to the list of its priority.\<close>

lemma Scheduler_push_task_room:
  assumes "sched_ok c L E k cpu s" "in_range c (t_priority (TCBS s t))"
    and "length (rq_abs c (rq_of s k) (t_priority (TCBS s t))) < READY_QUEUE_SIZE c"
  obtains s' where "Scheduler_push_task c L E k s cpu t = Inr (Inr (), s')"
    "rq_abs c (rq_of s' k) = fifo_push (rq_abs c (rq_of s k)) (t_priority (TCBS s t)) t"
    "sched_ok c L E k cpu s'" "TCBS s' = TCBS s" "DROPPED_TRAPS s' = DROPPED_TRAPS s"
    "pt_prio (PROCESS_INFO_TABLE s') (global_index (sched_of s' k)) cpu = sc_prio c k s' cpu"
    "CURRENT_TASK s' = CURRENT_TASK s"
proof -
  note D = sched_okD [OF assms(1)]
  let ?p = "t_priority (TCBS s t)"
  let ?rq = "(rq_of s k)\<lparr>queues := (queues (rq_of s k))[slot c ?p := queues (rq_of s k) ! slot c ?p @ [t]],
             prio_bitmap := prio_bitmap (rq_of s k) OR prio_bit c ?p\<rparr>"
  let ?s = "publish (global_index (sched_of s k)) (\<lambda>i. i < CPU_NUM c)
      (sc_prio c k (set_rq k ?rq s) cpu) (set_rq k ?rq s)"
  have room: "length (queues (rq_of s k) ! slot c ?p) < READY_QUEUE_SIZE c"
    using assms(2,3) by (simp add: rq_abs_def)
  have push: "rq_push_task c (ready_deque L) (TCBS s) (rq_of s k) t = Inr (Inr (), ?rq)"
    using rq_push_task_in_range [where T = "TCBS s" and t = t, OF D(8,1) lib_lawsD(1) [OF D(2)] assms(2)]
      room by (simp add: Let_def)
  have inv: "rq_inv c ?rq"
    using rq_push_task_inv [where T = "TCBS s", OF D(8,1) lib_lawsD(1) [OF D(2)] assms(2) push] .
  note ok = sched_ok_set_rq [OF assms(1) inv]
  have gi: "global_index (sched_of s k) < length (pt_table (PROCESS_INFO_TABLE (set_rq k ?rq s)))"
    using D(9) pt_invD(1) [OF D(7)] by simp
  show thesis
  proof (rule that [of ?s])
    show "Scheduler_push_task c L E k s cpu t = Inr (Inr (), ?s)"
      using Scheduler_push_task_spec [OF assms(1,2)] room by (simp add: Let_def)
    show "rq_abs c (rq_of ?s k) = fifo_push (rq_abs c (rq_of s k)) ?p t"
      using push_refines [where T = "TCBS s", OF D(1) lib_lawsD(1) [OF D(2)] D(8) assms(2) push] by simp
    show "sched_ok c L E k cpu ?s" by (rule sched_ok_publish [OF ok sc_prio_bounds(4) [OF ok]])
    show "pt_prio (PROCESS_INFO_TABLE ?s) (global_index (sched_of ?s k)) cpu = sc_prio c k ?s cpu"
      using publish_prio [OF gi] D(4) by simp
  qed (simp_all add: publish_def set_rq_def set_scheduler_def)
qed

text \<open>A push changes the ready queue of the scheduler only.\<close>

lemma push_task_keeps:
  assumes "Scheduler_push_task c L E k s cpu t = Inr (r, s')" "sched_ok c L E k cpu s"
  shows "twq_of s' k = twq_of s k" "global_index (sched_of s' k) = global_index (sched_of s k)"
    "KERNEL_STACKS s' = KERNEL_STACKS s" "WORLD s' = WORLD s"
proof -
  have sc: "USER_SCHEDULER s k = Some (sched_of s k)" using sched_okD(10) [OF assms(2)] .
  let ?same = "\<lambda>s s' :: sys. USER_SCHEDULER s' = USER_SCHEDULER s \<and>
    KERNEL_STACKS s' = KERNEL_STACKS s \<and> WORLD s' = WORLD s"
  have st: "?same s s'" if "store_prio c a b x s = Inr s'" for a b x s s'
    using that by (auto simp: store_prio_def and_then_Inr_iff)
  have sts: "store_prios c a b xs s = Inr s' \<Longrightarrow> ?same s s'" for a b xs s s'
    by (induction xs arbitrary: s) (auto simp: and_then_Inr_iff dest!: st)
  have up: "?same s s'" if "update_prio c k a b s = Inr s'" for a b s s'
    using that by (auto simp: update_prio_def and_then_Inr_iff dest!: st sts split: if_splits)
  have "\<exists>rq. USER_SCHEDULER s' = (USER_SCHEDULER s)(k := Some ((sched_of s k)\<lparr>s_ready_queue := rq\<rparr>)) \<and>
      KERNEL_STACKS s' = KERNEL_STACKS s \<and> WORLD s' = WORLD s"
    using assms(1) sc
    by (auto simp: Scheduler_push_task_def scheduler_at_def Inr_iffs Let_def set_scheduler_def
        get_and_update_current_prio_def get_and_update_all_prio_def split: if_splits dest!: up)
  then show "twq_of s' k = twq_of s k" "global_index (sched_of s' k) = global_index (sched_of s k)"
    "KERNEL_STACKS s' = KERNEL_STACKS s" "WORLD s' = WORLD s"
    by (auto simp: twq_of_def sched_of_def)
qed

end
