(* ===== verification/Main_Loop.thy ===== *)
theory Main_Loop
  imports Scheduler
begin

text \<open>
  \<^verbatim>\<open>src/main_loop.rs\<close>: the entries into the scheduler (a trap, a thread that yields), the choice
  of the next task in the kernel and in user space, and the exits that run it. A function that
  may leave the scheduler for good returns \<open>Inl\<close> the way it left; one that may run a task's
  code returns the core it comes back on. The trampolines of \<^verbatim>\<open>src/stack/trampoline.rs\<close> change
  the stack and call the next function; the theory \<open>Arch\<close> has the address they compute.
\<close>

section \<open>Ways out of the scheduler\<close>

datatype exit =
    Into_kernel
  | Into_user nat
  | Into_user_context task
  | Restore_context task
  | Interrupted

type_synonym 'a left = "exit + 'a"

section \<open>Putting the previous task away\<close>

definition push_prev_task ::
  "config \<Rightarrow> lib \<Rightarrow> os \<Rightarrow> nat \<Rightarrow> TaskState \<Rightarrow> sys \<Rightarrow> sys result" where
  "push_prev_task c L E cpu_id state s =
     (case state of
        Ready \<Rightarrow>
          and_then (get_current_task s cpu_id) (\<lambda>task.
          and_then
            (if t_is_kernel (TCBS s task) then kernel_scheduler s
             else and_then (index (pt_table (PROCESS_INFO_TABLE s)) (t_pid (TCBS s task))) (\<lambda>e.
               case pi_scheduler e of None \<Rightarrow> kernel_scheduler s | Some k \<Rightarrow> Inr k))
            (\<lambda>target. and_then (Scheduler_push_task c L E target s cpu_id task) (\<lambda>(res, s').
               case res of Inl _ \<Rightarrow> Inl Explicit_panic | Inr _ \<Rightarrow> Inr s')))
      | Exited \<Rightarrow>
          and_then (get_current_task s cpu_id) (\<lambda>task.
            Inr (s\<lparr>TCBS := dealloc_task (TCBS s) task\<rparr>))
      | _ \<Rightarrow> Inr s)"

section \<open>The entry of traps\<close>

text \<open>The kernel's stack for the next trap, and the stack this trap came in on.\<close>

definition next_trap_stack ::
  "config \<Rightarrow> lib \<Rightarrow> os \<Rightarrow> nat \<Rightarrow> nat option \<Rightarrow> sys \<Rightarrow> sys result" where
  "next_trap_stack c L E cpu_id wait_stack s =
     and_then
       (case wait_stack of
          Some stack \<Rightarrow> Inr (stack, s)
        | None \<Rightarrow> on_kernel_stacks (\<lambda>st. alloc_stack (stacks_map L) (os_stack E) st cpu_id) s)
       (\<lambda>(new_stack, s1).
          let s2 = set_pre_stack cpu_id (stk_base (os_stack E) new_stack) s1 in
          and_then (on_kernel_stacks (\<lambda>st. Inr (set_trap_stack st new_stack cpu_id)) s2) (\<lambda>(old_trap, s3).
          and_then (unwrap old_trap) (\<lambda>current.
          and_then (on_kernel_stacks (\<lambda>st. set_current_stack c (os_stack E) st current cpu_id) s3)
            (\<lambda>(old, s4).
          and_then (assert_that (old = None)) (\<lambda>_. Inr s4)))))"

definition push_trap_of ::
  "config \<Rightarrow> lib \<Rightarrow> os \<Rightarrow> nat \<Rightarrow> task \<Rightarrow> task option \<Rightarrow> sys \<Rightarrow> sys result" where
  "push_trap_of c L E cpu_id current_task task s =
     and_then (kernel_scheduler s) (\<lambda>k.
       case os_from_task E current_task s of (info, s1) \<Rightarrow>
         and_then (Scheduler_push_trap c L E k s1 cpu_id info task cpu_id) (\<lambda>(res, s2).
           case res of Inl _ \<Rightarrow> Inl Unwrap_failed | Inr _ \<Rightarrow> Inr s2))"

definition set_state_from_running :: "task \<Rightarrow> TaskState \<Rightarrow> sys \<Rightarrow> sys result" where
  "set_state_from_running task state s =
     (case set_state (TCBS s) task state of (prev_state, T) \<Rightarrow>
        and_then (assert_that (prev_state = Running)) (\<lambda>_. Inr (s\<lparr>TCBS := T\<rparr>)))"

definition sync_trap_entry :: "config \<Rightarrow> lib \<Rightarrow> os \<Rightarrow> nat \<Rightarrow> sys \<Rightarrow> (nat \<times> sys) result" where
  "sync_trap_entry c L E cpu_id s =
     and_then (assert_that (\<not> IS_SLEEPING s cpu_id)) (\<lambda>_.
     and_then (next_trap_stack c L E cpu_id None s) (\<lambda>s1.
     and_then (get_current_task s1 cpu_id) (\<lambda>current_task.
     and_then (set_state_from_running current_task Blocked s1) (\<lambda>s2.
     and_then (push_prev_task c L E cpu_id Blocked s2) (\<lambda>s3.
     and_then (push_trap_of c L E cpu_id current_task (Some current_task) s3) (\<lambda>s4.
       Inr (1, s4)))))))"

definition irq_trap_entry :: "config \<Rightarrow> lib \<Rightarrow> os \<Rightarrow> nat \<Rightarrow> sys \<Rightarrow> (nat \<times> sys) result" where
  "irq_trap_entry c L E cpu_id s =
     and_then (get_current_task s cpu_id) (\<lambda>current_task.
       let scheduler_waiting = IS_SLEEPING s cpu_id;
           s1 = s\<lparr>IS_SLEEPING := (IS_SLEEPING s)(cpu_id := False)\<rparr> in
       and_then (next_trap_stack c L E cpu_id
         (if scheduler_waiting then Some (t_thread_stack (TCBS s1 current_task)) else None) s1) (\<lambda>s2.
       and_then (push_trap_of c L E cpu_id current_task None s2) (\<lambda>s3.
         if scheduler_waiting then Inr (1, s3)
         else
           and_then (set_state_from_running current_task Ready s3) (\<lambda>s4.
           and_then (push_prev_task c L E cpu_id Ready s4) (\<lambda>s5. Inr (1, s5))))))"

text \<open>An interrupt of user code ends in a \<^verbatim>\<open>todo!\<close>.\<close>

definition user_irq_trap_entry :: "nat \<Rightarrow> sys \<Rightarrow> (nat \<times> sys) result" where
  "user_irq_trap_entry cpu_id s =
     and_then (get_current_task s cpu_id) (\<lambda>current_task.
     and_then (set_state_from_running current_task Ready s) (\<lambda>_. Inl Not_implemented))"

definition trap_entry ::
  "config \<Rightarrow> lib \<Rightarrow> os \<Rightarrow> nat \<Rightarrow> nat \<Rightarrow> nat \<Rightarrow> sys \<Rightarrow> (nat \<times> sys) result" where
  "trap_entry c L E cpu_id trap_type privilege s =
     and_then (assert_disable_irq cpu_id s) (\<lambda>_.
     and_then
       (if privilege = 0 then Inr (s\<lparr>IN_KERNEL := (IN_KERNEL s)(cpu_id := True)\<rparr>)
        else if privilege = 1 then Inr (s\<lparr>IN_KERNEL := (IN_KERNEL s)(cpu_id := False)\<rparr>)
        else Inl Unreachable)
       (\<lambda>s1.
          if trap_type = 0 then
            (if privilege = 0 then sync_trap_entry c L E cpu_id s1 else Inl Not_implemented)
          else if trap_type = 1 then
            (if privilege = 0 then irq_trap_entry c L E cpu_id s1
             else user_irq_trap_entry cpu_id s1)
          else if trap_type = 2 then Inr (3, s1)
          else Inl Unreachable))"

section \<open>The entry of threads\<close>

text \<open>\<^verbatim>\<open>match_set_state\<close> of a task that gives up its core, and what happens to it then.\<close>

definition yield_task :: "config \<Rightarrow> lib \<Rightarrow> os \<Rightarrow> nat \<Rightarrow> task \<Rightarrow> sys \<Rightarrow> sys result" where
  "yield_task c L E cpu_id current_task s =
     (case match_set_state (TCBS s) current_task Ready Blocked Blocked Exited Blocked of (old, T) \<Rightarrow>
        let s1 = s\<lparr>TCBS := T\<rparr> in
        (case old of
           Blocking \<Rightarrow> push_prev_task c L E cpu_id Blocked s1
         | Running \<Rightarrow> push_prev_task c L E cpu_id Blocked s1
         | Blocked \<Rightarrow> Inl Explicit_panic
         | state \<Rightarrow> push_prev_task c L E cpu_id state s1))"

definition thread_entry_phase2 ::
  "config \<Rightarrow> lib \<Rightarrow> os \<Rightarrow> nat \<Rightarrow> sys \<Rightarrow> (nat \<times> sys) result" where
  "thread_entry_phase2 c L E cpu_id s =
     and_then (get_current_task s cpu_id) (\<lambda>current_task.
     and_then (yield_task c L E cpu_id current_task s) (\<lambda>s1.
       Inr ((if CPU_NUM c = 1 then 2 else 0) + (if IN_KERNEL s1 cpu_id then 0 else 1), s1)))"

text \<open>The stack handler of a privilege level.\<close>

definition on_stacks ::
  "bool \<Rightarrow> nat \<Rightarrow> (stacks \<Rightarrow> ('a \<times> stacks) result) \<Rightarrow> sys \<Rightarrow> ('a \<times> sys) result" where
  "on_stacks user cpu_id f s =
     (if user then on_user_stacks (private_space s cpu_id) f s else on_kernel_stacks f s)"

definition thread_entry :: "config \<Rightarrow> lib \<Rightarrow> os \<Rightarrow> nat \<Rightarrow> sys \<Rightarrow> (nat \<times> sys) result" where
  "thread_entry c L E cpu_id s =
     and_then (assert_disable_irq cpu_id s) (\<lambda>_.
     and_then (if 1 < CPU_NUM c then Inr True
        else and_then (get_current_task s cpu_id) (\<lambda>t. Inr (\<not> t_is_coroutine (TCBS s t)))) (\<lambda>switch.
       if switch then
         and_then (on_stacks (\<not> IN_KERNEL s cpu_id) cpu_id
             (\<lambda>st. get_empty_stack c (stacks_map L) (os_stack E) cpu_id st 1) s) (\<lambda>(new_sp, s1).
           thread_entry_phase2 c L E cpu_id s1)
       else thread_entry_phase2 c L E cpu_id s))"

section \<open>Choosing the next task\<close>

definition process_schedule :: "config \<Rightarrow> lib \<Rightarrow> sys \<Rightarrow> nat \<Rightarrow> nat \<Rightarrow> nat result" where
  "process_schedule c L s k cpu_id =
     and_then (scheduler_at s k) (\<lambda>sc.
       highest_prio_process c (pids_vec L) (PROCESS_INFO_TABLE s) (global_index sc) cpu_id)"

definition ktask_schedule ::
  "config \<Rightarrow> lib \<Rightarrow> os \<Rightarrow> nat \<Rightarrow> nat \<Rightarrow> sys \<Rightarrow> (nat \<times> sys) result" where
  "ktask_schedule c L E cpu_id next_pid s =
     (if next_pid = 0 then
        and_then (kernel_scheduler s) (\<lambda>kscheduler.
        and_then (pop_task c L E kscheduler s cpu_id) (\<lambda>((task, new_prio), s1).
          case task of
            None \<Rightarrow> Inr (2, s1)
          | Some next_task \<Rightarrow>
              and_then (switch_vspace cpu_id (t_pid (TCBS s1 next_task)) s1) (\<lambda>s2.
                Inr (0, set_current_task cpu_id next_task s2))))
      else
        and_then (switch_vspace cpu_id next_pid s) (\<lambda>s1.
        and_then (get_user_data E s1 cpu_id None) (\<lambda>uscheduler.
        and_then (pop_task c L E uscheduler s1 cpu_id) (\<lambda>((task, new_prio), s2).
          case task of
            None \<Rightarrow> Inr (2, s2)
          | Some next_task \<Rightarrow> Inr (1, set_current_task cpu_id next_task s2)))))"

definition utask_schedule ::
  "config \<Rightarrow> lib \<Rightarrow> os \<Rightarrow> nat \<Rightarrow> nat \<Rightarrow> nat \<Rightarrow> sys \<Rightarrow> (nat left \<times> sys) result" where
  "utask_schedule c L E cpu_id next_pid stack_status s =
     and_then (scheduler_at s (private_space s cpu_id)) (\<lambda>uscheduler.
       if next_pid = global_index uscheduler then
         and_then (pop_task c L E (private_space s cpu_id) s cpu_id) (\<lambda>((task, new_prio), s1).
           case task of
             None \<Rightarrow> Inr (Inr 1, s1)
           | Some next_task \<Rightarrow> Inr (Inr 0, set_current_task cpu_id next_task s1))
       else
         let s1 = s\<lparr>CURRENT_VSPACE := (CURRENT_VSPACE s)(cpu_id := next_pid)\<rparr> in
         and_then (on_user_stacks (private_space s1 cpu_id) (\<lambda>st.
             and_then (get_thread_stack c (stacks_map L) (os_stack E) cpu_id st None stack_status)
               (\<lambda>st'. Inr ((), st'))) s1) (\<lambda>(_, s2).
           Inr (Inl Into_kernel, s2)))"

text \<open>
  \<^verbatim>\<open>wait_irqs\<close> opens the interrupts and waits. Where an interrupt arrives, the core goes to the
  trap entry and does not come back; where it wakes up without one, the wait returns.
\<close>

definition wait_irqs :: "os \<Rightarrow> nat \<Rightarrow> sys \<Rightarrow> (unit left \<times> sys) result" where
  "wait_irqs E cpu_id s =
     and_then (assert_disable_irq cpu_id s) (\<lambda>_.
       case os_wfi E cpu_id s of
         None \<Rightarrow> Inr (Inl Interrupted, s)
       | Some s1 \<Rightarrow>
           let s2 = s1\<lparr>IRQ_ENABLED := (IRQ_ENABLED s1)(cpu_id := False)\<rparr> in
           and_then (assert_disable_irq cpu_id s2) (\<lambda>_. Inr (Inr (), s2)))"

definition wait_for_runnable_task ::
  "config \<Rightarrow> lib \<Rightarrow> os \<Rightarrow> nat \<Rightarrow> nat \<Rightarrow> sys \<Rightarrow> (unit left \<times> sys) result" where
  "wait_for_runnable_task c L E k cpu_id s =
     and_then (assert_disable_irq cpu_id s) (\<lambda>_.
       case SCHEDULER_WAIT_CONTEXT s cpu_id of
         None \<Rightarrow> Inl Assertion_failed
       | Some wait_context \<Rightarrow>
           let s1 = set_current_task cpu_id wait_context s;
               s2 = s1\<lparr>IS_SLEEPING := (IS_SLEEPING s1)(cpu_id := True)\<rparr> in
           and_then (process_schedule c L s2 k cpu_id) (\<lambda>next_pid.
           and_then (index (pt_table (PROCESS_INFO_TABLE s2)) next_pid) (\<lambda>e.
             if pi_highest_prio e cpu_id \<le> LOWEST_PRIORITY c then
               Inr (Inr (), s2\<lparr>IS_SLEEPING := (IS_SLEEPING s2)(cpu_id := False)\<rparr>)
             else wait_irqs E cpu_id s2)))"

section \<open>The scheduling loops\<close>

text \<open>\<open>None\<close> is a loop that does not end.\<close>

partial_function (option) kschedule_loop ::
  "config \<Rightarrow> lib \<Rightarrow> os \<Rightarrow> nat \<Rightarrow> nat \<Rightarrow> sys \<Rightarrow> (nat left \<times> sys) result option" where
  "kschedule_loop c L E cpu_id k s =
     (case process_schedule c L s k cpu_id of
        Inl e \<Rightarrow> Some (Inl e)
      | Inr next_pid \<Rightarrow>
          (case ktask_schedule c L E cpu_id next_pid s of
             Inl e \<Rightarrow> Some (Inl e)
           | Inr (res, s1) \<Rightarrow>
               if res \<noteq> 2 then Some (Inr (Inr res, s1))
               else
                 (case wait_for_runnable_task c L E k cpu_id s1 of
                    Inl e \<Rightarrow> Some (Inl e)
                  | Inr (Inl x, s2) \<Rightarrow> Some (Inr (Inl x, s2))
                  | Inr (Inr _, s2) \<Rightarrow> kschedule_loop c L E cpu_id k s2)))"

definition kschedule ::
  "config \<Rightarrow> lib \<Rightarrow> os \<Rightarrow> nat \<Rightarrow> sys \<Rightarrow> (nat left \<times> sys) result option" where
  "kschedule c L E cpu_id s =
     (case kernel_scheduler s of
        Inl e \<Rightarrow> Some (Inl e)
      | Inr k \<Rightarrow>
          (case scheduler_at s k of
             Inl e \<Rightarrow> Some (Inl e)
           | Inr sc \<Rightarrow>
               if global_index sc = 0 then kschedule_loop c L E cpu_id k s
               else Some (Inl Assertion_failed)))"

text \<open>\<^verbatim>\<open>uschedule\<close> leaves the loop in its first iteration: \<^verbatim>\<open>into_kernel\<close> does not return.\<close>

definition uschedule ::
  "config \<Rightarrow> lib \<Rightarrow> os \<Rightarrow> nat \<Rightarrow> nat \<Rightarrow> sys \<Rightarrow> (unit left \<times> sys) result" where
  "uschedule c L E cpu_id stack_status s =
     and_then (process_schedule c L s (private_space s cpu_id) cpu_id) (\<lambda>next_pid.
     and_then (utask_schedule c L E cpu_id next_pid stack_status s) (\<lambda>(r, s1).
       case r of
         Inl x \<Rightarrow> Inr (Inl x, s1)
       | Inr res \<Rightarrow> if res = 0 then Inr (Inr (), s1) else Inr (Inl Into_kernel, s1)))"

partial_function (option) utok_loop ::
  "config \<Rightarrow> lib \<Rightarrow> os \<Rightarrow> nat \<Rightarrow> nat \<Rightarrow> sys \<Rightarrow> (nat left \<times> sys) result option" where
  "utok_loop c L E cpu_id next_pid s =
     (case ktask_schedule c L E cpu_id next_pid s of
        Inl e \<Rightarrow> Some (Inl e)
      | Inr (res, s1) \<Rightarrow>
          if res \<noteq> 2 then Some (Inr (Inr res, s1))
          else
            (case kernel_scheduler s1 of
               Inl e \<Rightarrow> Some (Inl e)
             | Inr k \<Rightarrow>
                 (case wait_for_runnable_task c L E k cpu_id s1 of
                    Inl e \<Rightarrow> Some (Inl e)
                  | Inr (Inl x, s2) \<Rightarrow> Some (Inr (Inl x, s2))
                  | Inr (Inr _, s2) \<Rightarrow>
                      (case process_schedule c L s2 k cpu_id of
                         Inl e \<Rightarrow> Some (Inl e)
                       | Inr pid \<Rightarrow> utok_loop c L E cpu_id pid s2))))"

definition utok_schedule ::
  "config \<Rightarrow> lib \<Rightarrow> os \<Rightarrow> nat \<Rightarrow> sys \<Rightarrow> (nat left \<times> sys) result option" where
  "utok_schedule c L E cpu_id s = utok_loop c L E cpu_id (CURRENT_VSPACE s cpu_id) s"

section \<open>Running a task\<close>

text \<open>\<^verbatim>\<open>set_state(Running)\<close> of the current task with the assertion on its old state.\<close>

definition start_current :: "nat \<Rightarrow> sys \<Rightarrow> (task \<times> sys) result" where
  "start_current cpu_id s =
     and_then (get_current_task s cpu_id) (\<lambda>current_task.
       case set_state (TCBS s) current_task Running of (prev_state, T) \<Rightarrow>
         and_then (assert_that (prev_state = Ready \<or> prev_state = Blocked)) (\<lambda>_.
           Inr (current_task, s\<lparr>TCBS := T\<rparr>)))"

text \<open>\<^verbatim>\<open>run_coroutine\<close>: the core it returns on and the privilege level there.\<close>

definition run_coroutine ::
  "config \<Rightarrow> lib \<Rightarrow> os \<Rightarrow> nat \<Rightarrow> sys \<Rightarrow> ((nat \<times> nat) \<times> sys) result" where
  "run_coroutine c L E cpu_id s =
     and_then (start_current cpu_id s) (\<lambda>(current_task, s1).
     and_then (assert_disable_irq cpu_id s1) (\<lambda>_.
       case os_poll E current_task cpu_id s1 of (res, cpu', s2) \<Rightarrow>
         and_then (assert_disable_irq cpu' s2) (\<lambda>_.
         and_then
           (case res of
              Some val \<Rightarrow>
                let T = snd (set_state (set_return_value (TCBS s2) current_task val) current_task Exited)
                in push_prev_task c L E cpu' Exited (s2\<lparr>TCBS := T\<rparr>)
            | None \<Rightarrow> yield_task c L E cpu' current_task s2)
           (\<lambda>s3. Inr ((if IN_KERNEL s3 cpu' then 0 else 1, cpu'), s3)))))"

definition run_thread :: "nat \<Rightarrow> sys \<Rightarrow> (exit \<times> sys) result" where
  "run_thread cpu_id s =
     and_then (start_current cpu_id s) (\<lambda>(current_task, s1).
     and_then (assert_disable_irq cpu_id s1) (\<lambda>_.
       Inr (Restore_context current_task, s1)))"

definition run_task ::
  "config \<Rightarrow> lib \<Rightarrow> os \<Rightarrow> nat \<Rightarrow> nat \<Rightarrow> nat \<Rightarrow> sys \<Rightarrow> ((nat \<times> nat) left \<times> sys) result" where
  "run_task c L E cpu_id privilege stack_status s =
     and_then (get_current_task s cpu_id) (\<lambda>current_task.
       if t_is_coroutine (TCBS s current_task) then
         and_then (on_stacks (privilege \<noteq> 0) cpu_id
             (\<lambda>st. get_empty_stack c (stacks_map L) (os_stack E) cpu_id st stack_status) s) (\<lambda>(new_sp, s1).
         and_then (run_coroutine c L E cpu_id s1) (\<lambda>(r, s2). Inr (Inr r, s2)))
       else
         let thread_stack = t_thread_stack (TCBS s current_task) in
         and_then (on_stacks (privilege \<noteq> 0) cpu_id (\<lambda>st.
             and_then (get_thread_stack c (stacks_map L) (os_stack E) cpu_id st (Some thread_stack) stack_status)
               (\<lambda>st'. Inr ((), st'))) s) (\<lambda>(_, s1).
         and_then (run_thread cpu_id s1) (\<lambda>(x, s2). Inr (Inl x, s2))))"

definition leave_to_user :: "nat \<Rightarrow> (task \<Rightarrow> exit) \<Rightarrow> sys \<Rightarrow> (exit \<times> sys) result" where
  "leave_to_user cpu_id x s =
     and_then (get_current_task s cpu_id) (\<lambda>current_task.
       Inr (x current_task, s\<lparr>TCBS := snd (set_state (TCBS s) current_task Running),
         IN_KERNEL := (IN_KERNEL s)(cpu_id := False)\<rparr>))"

definition run_coroutine_into_user :: "nat \<Rightarrow> nat \<Rightarrow> sys \<Rightarrow> (exit \<times> sys) result" where
  "run_coroutine_into_user cpu_id user_sp s = leave_to_user cpu_id (\<lambda>_. Into_user user_sp) s"

definition run_thread_into_user :: "nat \<Rightarrow> sys \<Rightarrow> (exit \<times> sys) result" where
  "run_thread_into_user cpu_id s = leave_to_user cpu_id Into_user_context s"

definition krun_utask ::
  "config \<Rightarrow> lib \<Rightarrow> os \<Rightarrow> nat \<Rightarrow> nat \<Rightarrow> sys \<Rightarrow> (exit \<times> sys) result" where
  "krun_utask c L E cpu_id stack_status s =
     (let drop_kernel_stack = on_kernel_stacks (\<lambda>st.
        and_then (get_thread_stack c (stacks_map L) (os_stack E) cpu_id st None stack_status)
          (\<lambda>st'. Inr ((), st')))
      in and_then (get_current_task s cpu_id) (\<lambda>current_task.
        if t_is_coroutine (TCBS s current_task) then
          and_then (get_user_data E s cpu_id None) (\<lambda>space.
          and_then (on_user_stacks space
            (\<lambda>st. get_empty_stack c (stacks_map L) (os_stack E) cpu_id st stack_status) s) (\<lambda>(user_sp, s1).
          and_then (drop_kernel_stack s1) (\<lambda>(_, s2). run_coroutine_into_user cpu_id user_sp s2)))
        else
          and_then (drop_kernel_stack s) (\<lambda>(_, s1). run_thread_into_user cpu_id s1)))"

text \<open>A thread that waited off every core is left to on its own stack.\<close>

lemma run_task_thread:
  assumes "handler_ok c (stacks_map L) live (os_stack E)" "own_inv c live (KERNEL_STACKS s, WORLD s)"
    and "cpu < CPU_NUM c" "CURRENT_TASK s cpu = Some t" "\<not> t_is_coroutine (TCBS s t)"
    and "t_state (TCBS s t) = Ready \<or> t_state (TCBS s t) = Blocked" "\<not> IRQ_ENABLED s cpu"
    and "loose c live (KERNEL_STACKS s, WORLD s) (t_thread_stack (TCBS s t))"
  obtains sh w where "run_task c L E cpu 0 k s = Inr (Inl (Restore_context t),
      s\<lparr>KERNEL_STACKS := sh, WORLD := w, TCBS := (TCBS s)(t := (TCBS s t)\<lparr>t_state := Running\<rparr>)\<rparr>)"
    "own_inv c live (sh, w)" "trap_stack sh = trap_stack (KERNEL_STACKS s)"
    "current_stack sh = (current_stack (KERNEL_STACKS s))(cpu := Some (t_thread_stack (TCBS s t)))"
proof -
  obtain sh w where g: "get_thread_stack c (stacks_map L) (os_stack E) cpu (KERNEL_STACKS s, WORLD s)
      (Some (t_thread_stack (TCBS s t))) k = Inr (sh, w)" "own_inv c live (sh, w)"
    "current_stack sh = (current_stack (KERNEL_STACKS s))(cpu := Some (t_thread_stack (TCBS s t)))"
    "trap_stack sh = trap_stack (KERNEL_STACKS s)"
    using get_thread_stack_spec [OF assms(1-3), of "Some (t_thread_stack (TCBS s t))" k] assms(8) by blast
  have "run_task c L E cpu 0 k s = Inr (Inl (Restore_context t),
      s\<lparr>KERNEL_STACKS := sh, WORLD := w, TCBS := (TCBS s)(t := (TCBS s t)\<lparr>t_state := Running\<rparr>)\<rparr>)"
    using assms(4-7) g(1)
    by (auto simp: run_task_def get_current_task_def on_stacks_def on_kernel_stacks_def run_thread_def
        start_current_def set_state_def assert_disable_irq_def Let_def)
  then show thesis using that g(2-4) by blast
qed

section \<open>The kernel's side of a core\<close>

text \<open>
  The kernel's scheduler, as core \<open>cpu\<close> uses it with its interrupts off.
\<close>

definition kernel_ok :: "config \<Rightarrow> lib \<Rightarrow> os \<Rightarrow> nat \<Rightarrow> sys \<Rightarrow> bool" where
  "kernel_ok c L E cpu s \<longleftrightarrow>
     sched_ok c L E 0 cpu s \<and> KERNEL_SCHEDULER s = Some 0 \<and> global_index (sched_of s 0) = 0 \<and>
     \<not> IRQ_ENABLED s cpu"

lemma kernel_okD:
  assumes "kernel_ok c L E cpu s"
  shows "sched_ok c L E 0 cpu s" "KERNEL_SCHEDULER s = Some 0" "global_index (sched_of s 0) = 0"
    "\<not> IRQ_ENABLED s cpu" "kernel_scheduler s = Inr 0" "scheduler_at s 0 = Inr (sched_of s 0)"
    "assert_disable_irq cpu s = Inr ()"
  using assms sched_okD(10) [of c L E 0 cpu s]
  by (auto simp: kernel_ok_def kernel_scheduler_def scheduler_at_def assert_disable_irq_def)

text \<open>The parts of the machine the kernel's scheduler does not look at.\<close>

lemma kernel_ok_cong:
  assumes "kernel_ok c L E cpu s" "TCBS s' = TCBS s" "USER_SCHEDULER s' = USER_SCHEDULER s"
    "PROCESS_INFO_TABLE s' = PROCESS_INFO_TABLE s" "ACTIVE_VSPACE s' = ACTIVE_VSPACE s"
    "KERNEL_SCHEDULER s' = KERNEL_SCHEDULER s" "IRQ_ENABLED s' cpu = IRQ_ENABLED s cpu"
    "\<And>h. os_task_live E (WORLD s) h \<Longrightarrow> os_task_live E (WORLD s') h"
  shows "kernel_ok c L E cpu s'"
proof -
  note K = kernel_okD [OF assms(1)]
  have "sched_of s' 0 = sched_of s 0" using assms(3) by (simp add: sched_of_def)
  moreover have "sched_ok c L E 0 cpu s'"
    by (rule sched_ok_cong [where s = s]) (use assms K in \<open>simp_all add: in_kernel_def\<close>)
  ultimately show ?thesis using assms K by (simp add: kernel_ok_def)
qed

text \<open>The process a core should run: one whose published priority is best, the kernel if it is.\<close>

definition best_pid :: "sys \<Rightarrow> nat \<Rightarrow> nat \<Rightarrow> bool" where
  "best_pid s cpu r \<longleftrightarrow>
     pt_valid_at (PROCESS_INFO_TABLE s) r \<and>
     (\<forall>j. pt_valid_at (PROCESS_INFO_TABLE s) j \<longrightarrow>
        pt_prio (PROCESS_INFO_TABLE s) r cpu \<le> pt_prio (PROCESS_INFO_TABLE s) j cpu)"

lemma process_schedule_best:
  assumes "sched_ok c L E k cpu s"
  obtains r where "process_schedule c L s k cpu = Inr r" "best_pid s cpu r"
    "best_pid s cpu (global_index (sched_of s k)) \<Longrightarrow> r = global_index (sched_of s k)"
proof -
  note D = sched_okD [OF assms]
  show thesis
    using highest_prio_process_spec [OF D(7) lib_lawsD(5) [OF D(2)], of "global_index (sched_of s k)" cpu] that
      D(10)
    by (auto simp: process_schedule_def best_pid_def scheduler_at_def)
qed

lemma process_schedule_kernel:
  assumes "kernel_ok c L E cpu s"
  obtains r where "process_schedule c L s 0 cpu = Inr r" "best_pid s cpu r"
    "best_pid s cpu 0 \<Longrightarrow> r = 0"
  using process_schedule_best [OF kernel_okD(1) [OF assms]] kernel_okD(3) [OF assms] by metis

lemma best_pid_less:
  assumes "pt_inv c (PROCESS_INFO_TABLE s)" "best_pid s cpu r"
  shows "r < length (pt_table (PROCESS_INFO_TABLE s))"
  using assms(2) by (simp add: best_pid_def pt_valid_at_def)

text \<open>The last check before a core sleeps.\<close>

definition to_sleep :: "nat \<Rightarrow> task \<Rightarrow> bool \<Rightarrow> sys \<Rightarrow> sys" where
  "to_sleep cpu t b s = s\<lparr>CURRENT_TASK := (CURRENT_TASK s)(cpu := Some t),
     IS_SLEEPING := (IS_SLEEPING s)(cpu := b)\<rparr>"

lemma kernel_ok_to_sleep:
  "kernel_ok c L E cpu (to_sleep cpu t b s) = kernel_ok c L E cpu s"
  by (simp add: kernel_ok_def to_sleep_def sched_ok_def twq_ok_def in_kernel_def sched_of_def
      cong: option.case_cong)

lemma to_sleep_table [simp]:
  "PROCESS_INFO_TABLE (to_sleep cpu t b s) = PROCESS_INFO_TABLE s"
  "best_pid (to_sleep cpu t b s) i r = best_pid s i r"
  by (simp_all add: to_sleep_def best_pid_def)

lemma wait_for_runnable_task_spec:
  assumes "kernel_ok c L E cpu s" "SCHEDULER_WAIT_CONTEXT s cpu = Some t"
  shows "wait_for_runnable_task c L E 0 cpu s =
    (if \<exists>j. pt_valid_at (PROCESS_INFO_TABLE s) j \<and>
          pt_prio (PROCESS_INFO_TABLE s) j cpu \<le> LOWEST_PRIORITY c
     then Inr (Inr (), to_sleep cpu t False s)
     else wait_irqs E cpu (to_sleep cpu t True s))"
proof -
  let ?s = "to_sleep cpu t True s"
  have k: "kernel_ok c L E cpu ?s" using assms(1) by (simp add: kernel_ok_to_sleep)
  obtain r where r: "process_schedule c L ?s 0 cpu = Inr r" "best_pid s cpu r"
    using process_schedule_kernel [OF k] by (auto simp: to_sleep_def best_pid_def)
  have "r < length (pt_table (PROCESS_INFO_TABLE s))"
    using best_pid_less [OF sched_okD(7) [OF kernel_okD(1) [OF assms(1)]] r(2)] .
  moreover have "pt_prio (PROCESS_INFO_TABLE s) r cpu \<le> LOWEST_PRIORITY c \<longleftrightarrow>
      (\<exists>j. pt_valid_at (PROCESS_INFO_TABLE s) j \<and>
          pt_prio (PROCESS_INFO_TABLE s) j cpu \<le> LOWEST_PRIORITY c)"
    using r(2) unfolding best_pid_def by (meson order_trans)
  ultimately show ?thesis
    using r(1) assms(2) kernel_okD(7) [OF assms(1)]
    by (simp add: wait_for_runnable_task_def Let_def set_current_task_def to_sleep_def pt_prio_def)
      blast
qed

section \<open>The kernel chooses a task\<close>

text \<open>
  The kernel's own task is taken: its priority is published, its address space entered, and
  nothing else has changed.
\<close>

lemma ktask_schedule_takes:
  assumes "kernel_ok c L E cpu s" "\<not> twq_pending 0 s cpu"
    and "take_ref c (rq_of s 0) = ((Some t, p), rq')" "t_pid (TCBS s t) < PROCESS_NUM c"
  obtains v a s' where "ktask_schedule c L E cpu 0 s = Inr (0, s')" "kernel_ok c L E cpu s'"
    "s' = (publish 0 (\<lambda>i. i < CPU_NUM c) p (set_rq 0 rq' s))
      \<lparr>CURRENT_VSPACE := v, ACTIVE_VSPACE := a, CURRENT_TASK := (CURRENT_TASK s)(cpu := Some t)\<rparr>"
    "v cpu = t_pid (TCBS s t)"
proof -
  note K = kernel_okD [OF assms(1)] note D = sched_okD [OF K(1)]
  let ?s1 = "publish 0 (\<lambda>i. i < CPU_NUM c) p (set_rq 0 rq' s)"
  have pop: "pop_task c L E 0 s cpu = Inr ((Some t, p), ?s1)"
    using pop_task_ready [OF K(1) assms(2,3)] K(3) by simp
  have q: "sched_ok c L E 0 cpu (set_rq 0 rq' s)"
    using take_ref_inv [OF D(1,8)] assms(3) by (intro sched_ok_set_rq [OF K(1)]) simp
  have "p \<le> isize_MAX"
    using take_ref_prio [OF D(1,8) assms(3), of cpu] source_prios(3,6) [OF q] by simp
  with q have ok: "sched_ok c L E 0 cpu ?s1" by (rule sched_ok_publish)
  have "t_pid (TCBS s t) < length (pt_table (PROCESS_INFO_TABLE ?s1))"
    using assms(4) pt_invD(1) [OF D(7)] by (simp add: publish_def)
  then obtain s2 where s2: "switch_vspace cpu (t_pid (TCBS s t)) ?s1 = Inr s2"
    using switch_vspace_ok by blast
  have g: "global_index (sched_of ?s1 0) = 0" using K(3) by (simp add: publish_def set_rq_def set_scheduler_def sched_of_def)
  note S = switch_vspace_spec(1,4) [OF s2] and W = switch_vspace_sched_ok(1,2) [OF s2 ok]
  have f: "KERNEL_SCHEDULER s2 = KERNEL_SCHEDULER s" "IRQ_ENABLED s2 = IRQ_ENABLED s"
    "CURRENT_TASK s2 = CURRENT_TASK s"
    by (subst S(2), simp add: publish_def set_rq_def set_scheduler_def)+
  have k2: "kernel_ok c L E cpu s2"
    using W g K(2,4) f by (simp add: kernel_ok_def in_kernel_def)
  let ?s' = "set_current_task cpu t s2"
  show thesis
  proof (rule that [of ?s' "ACTIVE_VSPACE s2" "CURRENT_VSPACE s2"])
    show "ktask_schedule c L E cpu 0 s = Inr (0, ?s')" using pop s2 K(5) by (simp add: ktask_schedule_def)
    show "kernel_ok c L E cpu ?s'" by (rule kernel_ok_cong [OF k2]) (simp_all add: set_current_task_def)
    show "?s' = ?s1\<lparr>CURRENT_VSPACE := CURRENT_VSPACE s2, ACTIVE_VSPACE := ACTIVE_VSPACE s2,
        CURRENT_TASK := (CURRENT_TASK s)(cpu := Some t)\<rparr>"
      by (subst S(2)) (simp add: set_current_task_def publish_def set_rq_def set_scheduler_def)
  qed (rule S(1))
qed

lemma ktask_schedule_ready:
  assumes "kernel_ok c L E cpu s" "\<not> twq_pending 0 s cpu"
    and "take_ref c (rq_of s 0) = ((Some t, p), rq')" "t_pid (TCBS s t) < PROCESS_NUM c"
  obtains s' where "ktask_schedule c L E cpu 0 s = Inr (0, s')"
    "CURRENT_TASK s' cpu = Some t" "CURRENT_VSPACE s' cpu = t_pid (TCBS s t)"
    "TCBS s' = TCBS s" "rq_of s' 0 = rq'"
proof -
  obtain v a s' where s': "ktask_schedule c L E cpu 0 s = Inr (0, s')"
    "s' = (publish 0 (\<lambda>i. i < CPU_NUM c) p (set_rq 0 rq' s))
      \<lparr>CURRENT_VSPACE := v, ACTIVE_VSPACE := a, CURRENT_TASK := (CURRENT_TASK s)(cpu := Some t)\<rparr>"
    "v cpu = t_pid (TCBS s t)"
    using ktask_schedule_takes [OF assms] .
  show thesis
    by (rule that [OF s'(1)]) (simp_all add: s'(2,3) rq_of_def sched_of_def set_rq_def set_scheduler_def publish_def)
qed

lemma ktask_schedule_idle:
  assumes "kernel_ok c L E cpu s" "\<not> twq_pending 0 s cpu" "\<not> rq_pending (rq_of s 0) cpu"
  shows "ktask_schedule c L E cpu 0 s =
    Inr (2, publish 0 (\<lambda>i. i = cpu) (LOWEST_PRIORITY c + 1) s)"
  using kernel_okD [OF assms(1)] pop_task_none [OF kernel_okD(1) [OF assms(1)] assms(2,3)]
  by (simp add: ktask_schedule_def)

text \<open>A trap of the core: the first handler of the pool becomes current, in the trap's address space.\<close>

lemma ktask_schedule_trap:
  assumes "kernel_ok c L E cpu s" "tw_queues (twq_of s 0) cpu = (info, x) # items"
    and "idle_handlers (twq_of s 0) = h # hs" "t_state (TCBS s h) = Blocked"
    and "trap_pid (TCBS s) x < PROCESS_NUM c"
  obtains s' where "ktask_schedule c L E cpu 0 s = Inr (0, s')"
    "CURRENT_TASK s' cpu = Some h" "CURRENT_VSPACE s' cpu = trap_pid (TCBS s) x"
    "TCBS s' = (TCBS s)(h := (TCBS s h)\<lparr>t_state := Ready, t_pid := trap_pid (TCBS s) x\<rparr>)"
    "twq_of s' 0 = (twq_of s 0)\<lparr>idle_handlers := hs\<rparr>" "rq_of s' 0 = rq_of s 0"
    "KERNEL_STACKS s' = KERNEL_STACKS s" "WORLD s' = WORLD s" "IRQ_ENABLED s' = IRQ_ENABLED s"
proof -
  note K = kernel_okD [OF assms(1)] note D = sched_okD [OF K(1)]
  let ?sc = "(sched_of s 0)\<lparr>s_trap_wait_queue := (twq_of s 0)\<lparr>idle_handlers := hs\<rparr>\<rparr>"
  let ?T = "(TCBS s)(h := (TCBS s h)\<lparr>t_state := Ready, t_pid := trap_pid (TCBS s) x\<rparr>)"
  let ?s1 = "set_scheduler 0 ?sc s\<lparr>TCBS := ?T\<rparr>"
  let ?s2 = "publish 0 (\<lambda>i. i = cpu) (HIGHEST_PRIORITY c) ?s1"
  have "twq_pending 0 s cpu" using assms(2) by (simp add: twq_pending_def)
  note pop = pop_task_trap [OF K(1) this]
  have "twq_take_task c L E 0 s cpu = Inr ((Some h, HIGHEST_PRIORITY c), ?s1)"
    using twq_take_head [OF D(6,10), of cpu info x items h hs] assms(2-4) unfolding D(11) by (simp add: Let_def)
  with pop have pop: "pop_task c L E 0 s cpu = Inr ((Some h, HIGHEST_PRIORITY c), ?s2)" using K(3) by simp
  have "trap_pid (TCBS s) x < length (pt_table (PROCESS_INFO_TABLE ?s2))"
    using assms(5) pt_invD(1) [OF D(7)] by (simp add: publish_def set_scheduler_def)
  then obtain s3 where s3: "switch_vspace cpu (trap_pid (TCBS s) x) ?s2 = Inr s3" using switch_vspace_ok by blast
  note S = switch_vspace_spec(1,4) [OF s3]
  have f: "TCBS s3 = ?T" "USER_SCHEDULER s3 = USER_SCHEDULER ?s1" "KERNEL_STACKS s3 = KERNEL_STACKS s"
    "WORLD s3 = WORLD s" "IRQ_ENABLED s3 = IRQ_ENABLED s"
    by (subst S(2), simp add: publish_def set_scheduler_def)+
  have "ktask_schedule c L E cpu 0 s = Inr (0, set_current_task cpu h s3)"
    using pop s3 K(5) by (simp add: ktask_schedule_def)
  then show thesis
    by (rule that) (use f S(1) in \<open>simp_all add: set_current_task_def twq_of_def rq_of_def sched_of_def set_scheduler_def\<close>)
qed

text \<open>A process other than the kernel: its address space is entered before its task is taken.\<close>

lemma ktask_schedule_user:
  assumes "kernel_ok c L E cpu s" "IN_KERNEL s cpu" "pid \<noteq> 0" "pid < PROCESS_NUM c"
    and "os_get_user_data E (Some pid) = Some u" "sched_ok c L E u cpu s" "\<not> twq_pending u s cpu"
    and "take_ref c (rq_of s u) = ((Some t, p), rq')"
  obtains s' where "ktask_schedule c L E cpu pid s = Inr (1, s')"
    "CURRENT_TASK s' cpu = Some t" "CURRENT_VSPACE s' cpu = pid" "TCBS s' = TCBS s" "rq_of s' u = rq'"
    "KERNEL_STACKS s' = KERNEL_STACKS s" "STACK_HANDLER s' = STACK_HANDLER s" "WORLD s' = WORLD s"
proof -
  note D = sched_okD [OF assms(6)]
  have "pid < length (pt_table (PROCESS_INFO_TABLE s))" using assms(4) pt_invD(1) [OF D(7)] by simp
  then obtain s1 where s1: "switch_vspace cpu pid s = Inr s1" using switch_vspace_ok by blast
  have "in_kernel (sched_of s u) s cpu" using assms(2) by (simp add: in_kernel_def)
  note W = switch_vspace_sched_ok [OF s1 assms(6) this]
  have cv: "CURRENT_VSPACE s1 cpu = pid" using switch_vspace_spec(1) [OF s1] .
  let ?s2 = "publish (global_index (sched_of s1 u)) (\<lambda>i. i < CPU_NUM c) p (set_rq u rq' s1)"
  have pop: "pop_task c L E u s1 cpu = Inr ((Some t, p), ?s2)"
    using pop_task_ready [OF W(1)] assms(7,8) W(5,6) by simp
  have u: "get_user_data E s1 cpu None = Inr u" using assms(5) cv by (simp add: get_user_data_def)
  have v: "CURRENT_VSPACE ?s2 = CURRENT_VSPACE s1" by (simp add: publish_def set_rq_def set_scheduler_def)
  have f: "KERNEL_STACKS s1 = KERNEL_STACKS s" "STACK_HANDLER s1 = STACK_HANDLER s" "WORLD s1 = WORLD s"
    by (subst switch_vspace_spec(4) [OF s1], simp)+
  show thesis
    using that [of "set_current_task cpu t ?s2"] assms(3) s1 u pop v cv W(3) f
    by (simp add: ktask_schedule_def set_current_task_def rq_of_def sched_of_def set_rq_def set_scheduler_def publish_def)
qed

section \<open>The kernel's loop\<close>

lemma kschedule_unfold:
  assumes "kernel_ok c L E cpu s"
  shows "kschedule c L E cpu s = kschedule_loop c L E cpu 0 s"
  using kernel_okD [OF assms] by (simp add: kschedule_def)

lemma kschedule_loop_once:
  assumes "process_schedule c L s 0 cpu = Inr pid" "ktask_schedule c L E cpu pid s = Inr (res, s1)"
    "res \<noteq> 2"
  shows "kschedule_loop c L E cpu 0 s = Some (Inr (Inr res, s1))"
  using assms by (simp add: kschedule_loop.simps)

lemma kschedule_loop_wait:
  assumes "process_schedule c L s 0 cpu = Inr pid" "ktask_schedule c L E cpu pid s = Inr (2, s1)"
  shows "kschedule_loop c L E cpu 0 s =
    (case wait_for_runnable_task c L E 0 cpu s1 of
       Inl e \<Rightarrow> Some (Inl e)
     | Inr (Inl x, s2) \<Rightarrow> Some (Inr (Inl x, s2))
     | Inr (Inr _, s2) \<Rightarrow> kschedule_loop c L E cpu 0 s2)"
  using assms by (subst kschedule_loop.simps) simp

lemma best_pid_same:
  assumes "best_pid s cpu 0" "PROCESS_INFO_TABLE s' = PROCESS_INFO_TABLE s"
  shows "best_pid s' cpu 0"
  using assms by (simp add: best_pid_def)

text \<open>Where no process has work the loop ends, asleep.\<close>

lemma kschedule_no_work:
  assumes "kernel_ok c L E cpu s" "best_pid s cpu 0" "SCHEDULER_WAIT_CONTEXT s cpu = Some t"
    and "\<not> twq_pending 0 s cpu" "\<not> rq_pending (rq_of s 0) cpu"
    and "\<And>j. pt_valid_at (PROCESS_INFO_TABLE s) j \<Longrightarrow> j \<noteq> 0 \<Longrightarrow>
      LOWEST_PRIORITY c < pt_prio (PROCESS_INFO_TABLE s) j cpu"
  shows "kschedule c L E cpu s =
    (case os_wfi E cpu (to_sleep cpu t True (publish 0 (\<lambda>i. i = cpu) (LOWEST_PRIORITY c + 1) s)) of
       None \<Rightarrow> Some (Inr (Inl Interrupted, to_sleep cpu t True (publish 0 (\<lambda>i. i = cpu) (LOWEST_PRIORITY c + 1) s)))
     | Some s1 \<Rightarrow> kschedule_loop c L E cpu 0 (s1\<lparr>IRQ_ENABLED := (IRQ_ENABLED s1)(cpu := False)\<rparr>))"
proof -
  note K = kernel_okD [OF assms(1)] note D = sched_okD [OF K(1)]
  obtain q where q: "process_schedule c L s 0 cpu = Inr q" "best_pid s cpu 0 \<Longrightarrow> q = 0"
    using process_schedule_kernel [OF assms(1)] by metis
  let ?p = "publish 0 (\<lambda>i. i = cpu) (LOWEST_PRIORITY c + 1) s"
  have kp: "kernel_ok c L E cpu ?p"
    using K source_prios(6) [OF K(1)] sched_ok_publish [OF K(1)]
    by (simp add: kernel_ok_def publish_def sched_of_def)
  have w: "SCHEDULER_WAIT_CONTEXT ?p cpu = Some t" using assms(3) by (simp add: publish_def)
  have z: "0 < length (pt_table (PROCESS_INFO_TABLE s))" using pt_invD(1,3) [OF D(7)] by simp
  have valid: "pt_valid_at (PROCESS_INFO_TABLE ?p) j \<longleftrightarrow> pt_valid_at (PROCESS_INFO_TABLE s) j" for j
    by (simp add: publish_def pt_update_valid_at)
  have "\<not> (\<exists>j. pt_valid_at (PROCESS_INFO_TABLE ?p) j \<and>
      pt_prio (PROCESS_INFO_TABLE ?p) j cpu \<le> LOWEST_PRIORITY c)"
  proof (intro notI, elim exE conjE)
    fix j
    assume "pt_valid_at (PROCESS_INFO_TABLE ?p) j" "pt_prio (PROCESS_INFO_TABLE ?p) j cpu \<le> LOWEST_PRIORITY c"
    then show False using assms(6) [of j] valid [of j] by (simp add: publish_prio [OF z] split: if_splits)
  qed
  with wait_for_runnable_task_spec [OF kp w]
  have wait: "wait_for_runnable_task c L E 0 cpu ?p = wait_irqs E cpu (to_sleep cpu t True ?p)" by simp
  have irq: "\<not> IRQ_ENABLED (to_sleep cpu t True ?p) cpu" using K(4) by (simp add: to_sleep_def publish_def)
  have "process_schedule c L s 0 cpu = Inr 0" using q assms(2) by simp
  from kschedule_loop_wait [OF this ktask_schedule_idle [OF assms(1,4,5)]]
  show ?thesis
    by (simp add: kschedule_unfold [OF assms(1)] wait wait_irqs_def irq assert_disable_irq_def split: option.splits)
qed

lemma kschedule_asleep:
  assumes "kernel_ok c L E cpu s" "best_pid s cpu 0" "SCHEDULER_WAIT_CONTEXT s cpu = Some t"
    and "\<not> twq_pending 0 s cpu" "\<not> rq_pending (rq_of s 0) cpu"
    and "\<And>j. pt_valid_at (PROCESS_INFO_TABLE s) j \<Longrightarrow> j \<noteq> 0 \<Longrightarrow>
      LOWEST_PRIORITY c < pt_prio (PROCESS_INFO_TABLE s) j cpu"
    and "\<And>u. os_wfi E cpu u = None"
  shows "\<exists>s'. kschedule c L E cpu s = Some (Inr (Inl Interrupted, s')) \<and> IS_SLEEPING s' cpu \<and>
    CURRENT_TASK s' cpu = Some t \<and> pt_prio (PROCESS_INFO_TABLE s') 0 cpu = LOWEST_PRIORITY c + 1 \<and>
    TCBS s' = TCBS s \<and> USER_SCHEDULER s' = USER_SCHEDULER s"
proof -
  have z: "0 < length (pt_table (PROCESS_INFO_TABLE s))"
    using pt_invD(1,3) [OF sched_okD(7) [OF kernel_okD(1) [OF assms(1)]]] by simp
  from kschedule_no_work [OF assms(1-6)] assms(7) show ?thesis
    by (intro exI [of _ "to_sleep cpu t True (publish 0 (\<lambda>i. i = cpu) (LOWEST_PRIORITY c + 1) s)"])
      (simp add: to_sleep_def publish_prio [OF z])
qed

text \<open>Choosing a task leaves the sleeping flags alone.\<close>

lemma ktask_schedule_sleeping:
  assumes "kernel_ok c L E cpu s" "\<not> twq_pending 0 s cpu" "take_ref c (rq_of s 0) = ((Some t, p), rq')"
    and "ktask_schedule c L E cpu 0 s = Inr (r, s')"
  shows "IS_SLEEPING s' = IS_SLEEPING s"
proof -
  note K = kernel_okD [OF assms(1)]
  let ?s1 = "publish (global_index (sched_of s 0)) (\<lambda>i. i < CPU_NUM c) p (set_rq 0 rq' s)"
  obtain s2 where s2: "switch_vspace cpu (t_pid (TCBS ?s1 t)) ?s1 = Inr s2" "s' = set_current_task cpu t s2"
    using pop_task_ready [OF K(1) assms(2,3)] assms(4) K(5) by (auto simp: ktask_schedule_def and_then_Inr_iff)
  from switch_vspace_spec(4) [OF s2(1)]
  have "IS_SLEEPING s2 = IS_SLEEPING (?s1\<lparr>CURRENT_VSPACE := CURRENT_VSPACE s2, ACTIVE_VSPACE := ACTIVE_VSPACE s2\<rparr>)"
    by (rule arg_cong)
  then show ?thesis by (simp add: s2(2) set_current_task_def publish_def set_rq_def set_scheduler_def)
qed

section \<open>The stacks of a trap\<close>

definition stacks_ok :: "config \<Rightarrow> lib \<Rightarrow> os \<Rightarrow> (nat \<Rightarrow> nat \<Rightarrow> bool) \<Rightarrow> sys \<Rightarrow> bool" where
  "stacks_ok c L E live s \<longleftrightarrow>
     handler_ok c (stacks_map L) live (os_stack E) \<and> own_inv c live (KERNEL_STACKS s, WORLD s)"

text \<open>
  The stack a trap came in on becomes the current one, and another one waits for the next trap:
  a fresh one, or the stack of the core's abandoned wait.
\<close>

lemma next_trap_stack_spec:
  assumes "stacks_ok c L E live s" "cpu < CPU_NUM c"
    and "trap_stack (KERNEL_STACKS s) cpu = Some ts" "current_stack (KERNEL_STACKS s) cpu = None"
    and "\<And>x. ws = Some x \<Longrightarrow> loose c live (KERNEL_STACKS s, WORLD s) x"
  obtains ns sh w where "next_trap_stack c L E cpu ws s =
      Inr (s\<lparr>KERNEL_STACKS := sh, WORLD := w, SSCRATCH := (SSCRATCH s)(cpu := stk_base (os_stack E) ns)\<rparr>)"
    "own_inv c live (sh, w)" "trap_stack sh cpu = Some ns" "current_stack sh cpu = Some ts"
    "\<And>x. ws = Some x \<Longrightarrow> ns = x" "\<And>P. alloc_keeps (os_stack E) P \<Longrightarrow> P (WORLD s) \<Longrightarrow> P w"
    "\<And>x. ws = None \<Longrightarrow> loose c live (KERNEL_STACKS s, WORLD s) x \<Longrightarrow> loose c live (sh, w) x"
proof -
  have ok: "handler_ok c (stacks_map L) live (os_stack E)" "own_inv c live (KERNEL_STACKS s, WORLD s)"
    using assms(1) by (simp_all add: stacks_ok_def)
  obtain ns sh1 w1 where a: "(case ws of Some stack \<Rightarrow> Inr (stack, s)
        | None \<Rightarrow> on_kernel_stacks (\<lambda>st. alloc_stack (stacks_map L) (os_stack E) st cpu) s) =
      Inr (ns, s\<lparr>KERNEL_STACKS := sh1, WORLD := w1\<rparr>)"
    "own_inv c live (sh1, w1)" "loose c live (sh1, w1) ns"
    "current_stack sh1 = current_stack (KERNEL_STACKS s)" "trap_stack sh1 = trap_stack (KERNEL_STACKS s)"
    "\<And>x. ws = Some x \<Longrightarrow> ns = x" "\<And>P. alloc_keeps (os_stack E) P \<Longrightarrow> P (WORLD s) \<Longrightarrow> P w1"
    "\<And>x. ws = None \<Longrightarrow> loose c live (KERNEL_STACKS s, WORLD s) x \<Longrightarrow> loose c live (sh1, w1) x \<and> x \<noteq> ns"
  proof (cases ws)
    case None
    obtain ns sh1 w1 where al: "alloc_stack (stacks_map L) (os_stack E) (KERNEL_STACKS s, WORLD s) cpu =
        Inr (ns, (sh1, w1))" "own_inv c live (sh1, w1)" "loose c live (sh1, w1) ns"
      "current_stack sh1 = current_stack (KERNEL_STACKS s)" "trap_stack sh1 = trap_stack (KERNEL_STACKS s)"
      "\<And>x. loose c live (KERNEL_STACKS s, WORLD s) x \<Longrightarrow> loose c live (sh1, w1) x \<and> x \<noteq> ns"
      using alloc_stack_spec [OF ok assms(2)] by metis
    show thesis
      by (rule that [of ns w1 sh1])
        (use None al alloc_stack_world [OF _ al(1)] in \<open>simp_all add: on_kernel_stacks_def\<close>)
  next
    case (Some x)
    show thesis
      by (rule that [of x "WORLD s" "KERNEL_STACKS s"]) (use ok(2) assms(5) Some in simp_all)
  qed
  obtain sh2 where b: "set_trap_stack (sh1, w1) ns cpu = (trap_stack sh1 cpu, (sh2, w1))"
    "own_inv c live (sh2, w1)" "trap_stack sh2 = (trap_stack sh1)(cpu := Some ns)"
    "current_stack sh2 = current_stack sh1" "\<And>x. trap_stack sh1 cpu = Some x \<Longrightarrow> loose c live (sh2, w1) x"
    "\<And>x. loose c live (sh1, w1) x \<Longrightarrow> x \<noteq> ns \<Longrightarrow> loose c live (sh2, w1) x"
    using set_trap_stack_spec [OF a(2) assms(2) a(3)] by blast
  have "loose c live (sh2, w1) ts" using b(5) a(5) assms(3) by simp
  then obtain sh3 where d: "set_current_stack c (os_stack E) (sh2, w1) ts cpu =
      Inr (current_stack sh2 cpu, (sh3, w1))"
    "sh3 = sh2\<lparr>current_stack := (current_stack sh2)(cpu := Some ts)\<rparr>" "own_inv c live (sh3, w1)"
    "\<And>x. loose c live (sh2, w1) x \<Longrightarrow> x \<noteq> ts \<Longrightarrow> loose c live (sh3, w1) x"
    using set_current_stack_spec [OF b(2) assms(2)] by metis
  have "loose c live (sh3, w1) x" if "ws = None" "loose c live (KERNEL_STACKS s, WORLD s) x" for x
    using that a(8) b(6) d(4) trap_in_held [OF assms(2,3)] by (metis fst_conv loose_def)
  note keep = this
  have "next_trap_stack c L E cpu ws s = Inr (s\<lparr>KERNEL_STACKS := sh3, WORLD := w1,
      SSCRATCH := (SSCRATCH s)(cpu := stk_base (os_stack E) ns)\<rparr>)"
    using a b(1,3,4) d assms(3,4)
    by (simp add: next_trap_stack_def on_kernel_stacks_def set_pre_stack_def)
  then show thesis
    by (rule that) (use a(6,7) b(3) d keep in simp_all)
qed

section \<open>Reporting a trap\<close>

text \<open>
  The documented behaviour of \<^verbatim>\<open>TrapInfo::from_task\<close>: it saves the trap in the system's memory,
  and frees neither a task nor a stack.
\<close>

definition from_task_laws :: "os \<Rightarrow> (nat \<Rightarrow> nat \<Rightarrow> bool) \<Rightarrow> bool" where
  "from_task_laws E live \<longleftrightarrow>
     (\<forall>t s i s'. os_from_task E t s = (i, s') \<longrightarrow> (\<exists>w. s' = s\<lparr>WORLD := w\<rparr> \<and>
        (\<forall>x. os_task_live E (WORLD s) x \<longrightarrow> os_task_live E w x) \<and> (\<forall>x. live (WORLD s) x \<longrightarrow> live w x)))"

text \<open>A task that neither is blocked nor is about to is no idle handler, so its state may change.\<close>

lemma kernel_ok_awake:
  assumes "kernel_ok c L E cpu s" "t_state (TCBS s t) \<notin> {Blocked, Blocking}"
  shows "kernel_ok c L E cpu (s\<lparr>TCBS := (TCBS s)(t := tcb)\<rparr>)" "t \<notin> set (idle_handlers (twq_of s 0))"
proof -
  note K = kernel_okD [OF assms(1)]
  show "t \<notin> set (idle_handlers (twq_of s 0))"
    using sched_okD(6,10,11) [OF K(1)] assms(2) by (force simp: idle_inv_def elim!: twq_okE)
  from sched_ok_set_tcb [OF K(1) this] show "kernel_ok c L E cpu (s\<lparr>TCBS := (TCBS s)(t := tcb)\<rparr>)"
    using K by (simp add: kernel_ok_def)
qed

lemma kernel_ok_running:
  assumes "kernel_ok c L E cpu s" "t_state (TCBS s t) = Running"
  shows "kernel_ok c L E cpu (s\<lparr>TCBS := (TCBS s)(t := tcb)\<rparr>)" "t \<notin> set (idle_handlers (twq_of s 0))"
  using kernel_ok_awake [OF assms(1), of t] assms(2) by simp_all

text \<open>The state after a trap has been queued.\<close>

definition trap_queued :: "config \<Rightarrow> nat \<Rightarrow> nat \<Rightarrow> task option \<Rightarrow> nat \<Rightarrow> sys \<Rightarrow> sys" where
  "trap_queued c cpu info x w s = publish 0 (\<lambda>i. i = cpu) (HIGHEST_PRIORITY c)
     (set_traps 0 ((tw_queues (twq_of s 0))(cpu := tw_queues (twq_of s 0) cpu @ [(info, x)])) (s\<lparr>WORLD := w\<rparr>))"

lemma trap_queued_sel [simp]:
  "TCBS (trap_queued c cpu info x w s) = TCBS s" "WORLD (trap_queued c cpu info x w s) = w"
  "KERNEL_STACKS (trap_queued c cpu info x w s) = KERNEL_STACKS s"
  "SSCRATCH (trap_queued c cpu info x w s) = SSCRATCH s"
  "CURRENT_TASK (trap_queued c cpu info x w s) = CURRENT_TASK s"
  "IS_SLEEPING (trap_queued c cpu info x w s) = IS_SLEEPING s"
  "tw_queues (twq_of (trap_queued c cpu info x w s) 0) =
     (tw_queues (twq_of s 0))(cpu := tw_queues (twq_of s 0) cpu @ [(info, x)])"
  "idle_handlers (twq_of (trap_queued c cpu info x w s) 0) = idle_handlers (twq_of s 0)"
  "rq_of (trap_queued c cpu info x w s) 0 = rq_of s 0"
  "pt_valid_at (PROCESS_INFO_TABLE (trap_queued c cpu info x w s)) j = pt_valid_at (PROCESS_INFO_TABLE s) j"
  by (simp_all add: trap_queued_def publish_def set_traps_def set_scheduler_def twq_of_def rq_of_def
      sched_of_def pt_update_valid_at)

lemma trap_queued_prio:
  assumes "kernel_ok c L E cpu s"
  shows "pt_prio (PROCESS_INFO_TABLE (trap_queued c cpu info x w s)) j i =
    (if j = 0 \<and> i = cpu then HIGHEST_PRIORITY c else pt_prio (PROCESS_INFO_TABLE s) j i)"
proof -
  have "0 < length (pt_table (PROCESS_INFO_TABLE s))"
    using pt_invD(1,3) [OF sched_okD(7) [OF kernel_okD(1) [OF assms]]] by simp
  then show ?thesis by (auto simp: trap_queued_def publish_prio)
qed

lemma push_trap_of_spec:
  assumes "kernel_ok c L E cpu s" "from_task_laws E live"
    and "length (tw_queues (twq_of s 0) cpu) < TRAP_WAIT_QUEUE_SIZE c"
  obtains info w where "push_trap_of c L E cpu t x s = Inr (trap_queued c cpu info x w s)"
    "kernel_ok c L E cpu (trap_queued c cpu info x w s)" "\<And>x. live (WORLD s) x \<Longrightarrow> live w x"
proof -
  obtain info s1 where i: "os_from_task E t s = (info, s1)" by (cases "os_from_task E t s")
  then obtain w where w: "s1 = s\<lparr>WORLD := w\<rparr>"
    "\<And>x. os_task_live E (WORLD s) x \<Longrightarrow> os_task_live E w x" "\<And>x. live (WORLD s) x \<Longrightarrow> live w x"
    using assms(2) unfolding from_task_laws_def by blast
  have k1: "kernel_ok c L E cpu s1" by (rule kernel_ok_cong [OF assms(1)]) (use w in simp_all)
  note K = kernel_okD [OF k1] note D = sched_okD [OF K(1)]
  have v: "twq_of s1 0 = twq_of s 0" "kernel_scheduler s = Inr 0"
    using kernel_okD(5) [OF assms(1)] by (simp_all add: w(1) twq_of_def)
  let ?qs = "(tw_queues (twq_of s 0))(cpu := tw_queues (twq_of s 0) cpu @ [(info, x)])"
  let ?s2 = "set_traps 0 ?qs s1"
  let ?s' = "publish 0 (\<lambda>i. i = cpu) (HIGHEST_PRIORITY c) ?s2"
  have p: "sc_prio c 0 ?s2 cpu = HIGHEST_PRIORITY c" by (simp add: sc_prio_def)
  have ok: "sched_ok c L E 0 cpu ?s'"
    using source_prios(5) [OF K(1)] by (intro sched_ok_publish sched_ok_set_traps [OF K(1)]) simp
  have run: "push_trap_of c L E cpu t x s = Inr ?s'"
    using Scheduler_push_trap_spec [OF K(1) D(4), of info x] assms(3) v i K(3) p
    by (simp add: push_trap_of_def Let_def)
  have "kernel_ok c L E cpu ?s'"
    using ok K(2-4) by (simp add: kernel_ok_def publish_def set_traps_def set_scheduler_def sched_of_def)
  with run w(3) show thesis by (intro that [of info w]) (simp_all add: trap_queued_def w(1))
qed

section \<open>The user's scheduler\<close>

text \<open>The own process is chosen: its task is taken without leaving user mode.\<close>

lemma uschedule_own:
  assumes "sched_ok c L E k cpu s" "k = private_space s cpu" "best_pid s cpu (global_index (sched_of s k))"
    and "\<not> twq_pending k s cpu" "take_ref c (rq_of s k) = ((Some t, p), rq')"
  obtains s' where "uschedule c L E cpu a s = Inr (Inr (), s')" "CURRENT_TASK s' cpu = Some t"
    "CURRENT_VSPACE s' = CURRENT_VSPACE s" "TCBS s' = TCBS s" "rq_of s' k = rq'"
proof -
  obtain r where r: "process_schedule c L s k cpu = Inr r" "r = global_index (sched_of s k)"
    using process_schedule_best [OF assms(1)] assms(3) by metis
  let ?s = "publish (global_index (sched_of s k)) (\<lambda>i. i < CPU_NUM c) p (set_rq k rq' s)"
  have "pop_task c L E k s cpu = Inr ((Some t, p), ?s)" using pop_task_ready [OF assms(1,4,5)] .
  then have "uschedule c L E cpu a s = Inr (Inr (), set_current_task cpu t ?s)"
    using r assms(2) sched_okD(10) [OF assms(1)] by (simp add: uschedule_def utask_schedule_def scheduler_at_def)
  then show thesis
    by (rule that) (simp_all add: set_current_task_def rq_of_def sched_of_def publish_def set_rq_def set_scheduler_def)
qed

text \<open>Another process is chosen: the core gives up its user stack and enters the kernel.\<close>

lemma uschedule_other:
  assumes "sched_ok c L E k cpu s" "k = private_space s cpu" "\<not> best_pid s cpu (global_index (sched_of s k))"
    and "STACK_HANDLER s k = Some sh" "handler_ok c (stacks_map L) live (os_stack E)"
    and "own_inv c live (sh, WORLD s)"
  obtains pid sh' w where "best_pid s cpu pid" "own_inv c live (sh', w)"
    "current_stack sh' = (current_stack sh)(cpu := None)"
    "uschedule c L E cpu a s = Inr (Inl Into_kernel, s\<lparr>CURRENT_VSPACE := (CURRENT_VSPACE s)(cpu := pid),
       STACK_HANDLER := (STACK_HANDLER s)(k := Some sh'), WORLD := w\<rparr>)"
proof -
  obtain r where r: "process_schedule c L s k cpu = Inr r" "best_pid s cpu r"
    using process_schedule_best [OF assms(1)] by metis
  with assms(3) have n: "r \<noteq> global_index (sched_of s k)" by blast
  obtain sh' w where g: "get_thread_stack c (stacks_map L) (os_stack E) cpu (sh, WORLD s) None a = Inr (sh', w)"
    "own_inv c live (sh', w)" "current_stack sh' = (current_stack sh)(cpu := None)"
    using get_thread_stack_spec [OF assms(5,6) sched_okD(4) [OF assms(1)], of None a] by blast
  have "private_space (s\<lparr>CURRENT_VSPACE := x\<rparr>) cpu = k" for x using assms(2) by (simp add: private_space_def)
  with r(1) n assms(2,4) g(1) sched_okD(10) [OF assms(1)]
  have "uschedule c L E cpu a s = Inr (Inl Into_kernel, s\<lparr>CURRENT_VSPACE := (CURRENT_VSPACE s)(cpu := r),
       STACK_HANDLER := (STACK_HANDLER s)(k := Some sh'), WORLD := w\<rparr>)"
    by (simp add: uschedule_def utask_schedule_def scheduler_at_def on_user_stacks_def Let_def)
  with that r(2) g(2,3) show thesis by blast
qed

section \<open>Giving up a core\<close>

text \<open>The task a core ran goes back to its scheduler.\<close>

lemma push_prev_task_ready:
  assumes "CURRENT_TASK s cpu = Some t" "task_home s t = Some k" "sched_ok c L E k cpu s"
    and "in_range c (t_priority (TCBS s t))"
    and "length (rq_abs c (rq_of s k) (t_priority (TCBS s t))) < READY_QUEUE_SIZE c"
  obtains s' where "push_prev_task c L E cpu Ready s = Inr s'"
    "rq_abs c (rq_of s' k) = fifo_push (rq_abs c (rq_of s k)) (t_priority (TCBS s t)) t"
    "sched_ok c L E k cpu s'" "TCBS s' = TCBS s"
proof -
  obtain s' where p: "Scheduler_push_task c L E k s cpu t = Inr (Inr (), s')"
    "rq_abs c (rq_of s' k) = fifo_push (rq_abs c (rq_of s k)) (t_priority (TCBS s t)) t"
    "sched_ok c L E k cpu s'" "TCBS s' = TCBS s"
    using Scheduler_push_task_room [OF assms(3-5)] by metis
  have "push_prev_task c L E cpu Ready s = Inr s'"
    using assms(1,2) p(1)
    by (auto simp: push_prev_task_def get_current_task_def task_home_def kernel_scheduler_def index_def
        split: if_splits)
  with that p(2-4) show thesis by blast
qed

lemma yield_task_waits:
  assumes "t_state (TCBS s t) = Running \<or> t_state (TCBS s t) = Blocking"
  shows "yield_task c L E cpu t s = Inr (s\<lparr>TCBS := (TCBS s)(t := (TCBS s t)\<lparr>t_state := Blocked\<rparr>)\<rparr>)"
  using assms by (auto simp: yield_task_def match_set_state_def push_prev_task_def)

lemma yield_task_blocked:
  "t_state (TCBS s t) = Blocked \<Longrightarrow> yield_task c L E cpu t s = Inl Explicit_panic"
  by (simp add: yield_task_def match_set_state_def)

lemma set_same_state: "t_state x = st \<Longrightarrow> x\<lparr>t_state := st\<rparr> = x" for x :: tcb
  by (cases x) simp

lemma yield_task_exited:
  assumes "t_state (TCBS s t) = Exited" "CURRENT_TASK s cpu = Some t"
  shows "yield_task c L E cpu t s = Inr (s\<lparr>TCBS := (TCBS s)(t := (TCBS s t)\<lparr>t_dealloced := True\<rparr>)\<rparr>)"
  using assms by (simp add: yield_task_def match_set_state_def push_prev_task_def get_current_task_def
      dealloc_task_def set_same_state)

lemma yield_task_ready:
  assumes "t_state (TCBS s t) = Ready"
  shows "yield_task c L E cpu t s = push_prev_task c L E cpu Ready s"
  using assms by (simp add: yield_task_def match_set_state_def set_same_state)

end
