(* ===== verification/Trap_Handler.thy ===== *)
theory Trap_Handler
  imports Scheduler
begin

text \<open>
  The function of a trap handler, \<^verbatim>\<open>trap_handler\<close> and \<^verbatim>\<open>reschedule_handler\<close> of
  \<^verbatim>\<open>src/schedule/trap_wait_queue.rs\<close>. A handler may come back from handling a trap or from
  waiting on another core, so an iteration of its loop takes the core and returns the core it
  ends on. The loop has no exit; \<open>trap_handler\<close> runs a given number of iterations.
\<close>

section \<open>The program\<close>

definition reschedule_handler ::
  "lib \<Rightarrow> os \<Rightarrow> nat \<Rightarrow> task \<Rightarrow> nat \<Rightarrow> sys \<Rightarrow> (nat \<times> sys) result" where
  "reschedule_handler L E k handler cpu_id s =
     (case irq_acquire cpu_id s of (state, s1) \<Rightarrow>
        let s2 = s1\<lparr>TCBS := snd (set_state (set_pid (TCBS s1) handler 0) handler Blocking)\<rparr> in
        and_then (scheduler_at s2 k) (\<lambda>sc.
          let q = s_trap_wait_queue sc in
          and_then (unwrap (dq_push_back (idle_deque L) (idle_handlers q) handler)) (\<lambda>hs.
          and_then (set_twq k (q\<lparr>idle_handlers := hs\<rparr>) s2) (\<lambda>s3.
            case os_resched E handler cpu_id s3 of (cpu', s4) \<Rightarrow>
              Inr (cpu', irq_release cpu' state s4)))))"

text \<open>Where a trap's task goes when its trap is handled.\<close>

definition finish_task ::
  "config \<Rightarrow> lib \<Rightarrow> os \<Rightarrow> nat \<Rightarrow> task \<Rightarrow> sys \<Rightarrow> sys result" where
  "finish_task c L E cpu_id task s =
     (case match_set_state (TCBS s) task Ready Running Ready Exited Blocking of (old, T) \<Rightarrow>
        let s1 = s\<lparr>TCBS := T\<rparr> in
        (case old of
           Blocked \<Rightarrow>
             and_then
               (if t_is_kernel (TCBS s1 task) then kernel_scheduler s1
                else and_then (index (pt_table (PROCESS_INFO_TABLE s1)) (t_pid (TCBS s1 task)))
                  (\<lambda>e. deref (pi_scheduler e)))
               (\<lambda>k. and_then (Scheduler_push_task c L E k s1 cpu_id task) (\<lambda>(res, s2).
                  case res of Inl _ \<Rightarrow> Inl Unwrap_failed | Inr _ \<Rightarrow> Inr s2))
         | Exited \<Rightarrow> Inr (s1\<lparr>TCBS := dealloc_task (TCBS s1) task\<rparr>)
         | _ \<Rightarrow> Inl Explicit_panic))"

text \<open>One iteration of the loop: the next trap of the core, or waiting for one.\<close>

definition handle_trap ::
  "config \<Rightarrow> lib \<Rightarrow> os \<Rightarrow> task \<Rightarrow> nat \<Rightarrow> trap_item \<Rightarrow> sys \<Rightarrow> (nat \<times> sys) result" where
  "handle_trap c L E handler cpu_id item s =
     (case item of (trap_info, task) \<Rightarrow>
        let pid = trap_pid (TCBS s) task;
            s1 = s\<lparr>TCBS := set_pid (TCBS s) handler pid\<rparr> in
        and_then (switch_vspace cpu_id pid s1) (\<lambda>s2.
          case os_handle E trap_info task cpu_id s2 of (cpu', s3) \<Rightarrow>
            and_then (case task of None \<Rightarrow> Inr s3 | Some t \<Rightarrow> finish_task c L E cpu' t s3) (\<lambda>s4.
              Inr (cpu', s4\<lparr>DROPPED_TRAPS := DROPPED_TRAPS s4 @ [trap_info]\<rparr>))))"

definition trap_handler_step ::
  "config \<Rightarrow> lib \<Rightarrow> os \<Rightarrow> nat \<Rightarrow> task \<Rightarrow> nat \<Rightarrow> sys \<Rightarrow> (nat \<times> sys) result" where
  "trap_handler_step c L E k handler cpuid s =
     and_then (scheduler_at s k) (\<lambda>sc.
       let q = s_trap_wait_queue sc in
       case dq_pop_front (trap_deque L) (tw_queues q cpuid) of
         None \<Rightarrow> reschedule_handler L E k handler cpuid s
       | Some (item, items) \<Rightarrow>
           and_then (set_twq k (q\<lparr>tw_queues := (tw_queues q)(cpuid := items)\<rparr>) s) (\<lambda>s1.
           and_then
             (if dq_is_empty (trap_deque L) items
              then and_then (get_and_update_current_prio c L E k s1 cpuid) (\<lambda>(_, s2). Inr s2)
              else Inr s1)
             (handle_trap c L E handler cpuid item)))"

primrec trap_handler_loop ::
  "nat \<Rightarrow> config \<Rightarrow> lib \<Rightarrow> os \<Rightarrow> nat \<Rightarrow> task \<Rightarrow> nat \<Rightarrow> sys \<Rightarrow> (nat \<times> sys) result" where
  "trap_handler_loop 0 c L E k handler cpu_id s = Inr (cpu_id, s)"
| "trap_handler_loop (Suc n) c L E k handler cpu_id s =
     and_then (trap_handler_step c L E k handler cpu_id s) (\<lambda>(cpu', s').
       trap_handler_loop n c L E k handler cpu' s')"

definition trap_handler ::
  "nat \<Rightarrow> config \<Rightarrow> lib \<Rightarrow> os \<Rightarrow> nat \<Rightarrow> nat \<Rightarrow> sys \<Rightarrow> (nat \<times> sys) result" where
  "trap_handler n c L E k cpu_id s =
     (case irq_acquire cpu_id s of (_, s1) \<Rightarrow>
        and_then (get_current_task s1 cpu_id) (\<lambda>handler.
          trap_handler_loop n c L E k handler cpu_id s1))"

text \<open>The exported function, which the system calls in every handler with its scheduler.\<close>

definition trap_handler_export ::
  "nat \<Rightarrow> config \<Rightarrow> lib \<Rightarrow> os \<Rightarrow> nat \<Rightarrow> nat \<Rightarrow> sys \<Rightarrow> (nat \<times> sys) result" where
  "trap_handler_export n c L E scheduler cpu_id s = trap_handler n c L E scheduler cpu_id s"

section \<open>One iteration\<close>

text \<open>The machine in which the first trap of a core is handled.\<close>

definition after_pop :: "config \<Rightarrow> nat \<Rightarrow> nat \<Rightarrow> trap_item list \<Rightarrow> sys \<Rightarrow> sys" where
  "after_pop c k cpu items s =
     (let s1 = set_traps k ((tw_queues (twq_of s k))(cpu := items)) s in
      if items = []
      then publish (global_index (sched_of s k)) (\<lambda>i. i = cpu) (sc_prio c k s1 cpu) s1 else s1)"

lemma set_traps_twq:
  "twq_of (set_traps k qs s) k = (s_trap_wait_queue (sched_of s k))\<lparr>tw_queues := qs\<rparr>"
  by (simp add: set_traps_def twq_of_def)

lemma after_pop_ok:
  assumes "sched_ok c L E k cpu s"
  shows "sched_ok c L E k cpu (after_pop c k cpu items s)"
    "tw_queues (twq_of (after_pop c k cpu items s) k) = (tw_queues (twq_of s k))(cpu := items)"
    "TCBS (after_pop c k cpu items s) = TCBS s"
    "length (pt_table (PROCESS_INFO_TABLE (after_pop c k cpu items s))) = PROCESS_NUM c"
    "items = [] \<Longrightarrow> pt_prio (PROCESS_INFO_TABLE (after_pop c k cpu items s))
       (global_index (sched_of s k)) cpu = rq_hightest_priority c (rq_of s k) cpu"
proof -
  note D = sched_okD [OF assms]
  let ?s1 = "set_traps k ((tw_queues (twq_of s k))(cpu := items)) s"
  note ok = sched_ok_set_traps [OF assms, of "(tw_queues (twq_of s k))(cpu := items)"]
  show S: "sched_ok c L E k cpu (after_pop c k cpu items s)"
    using ok sched_ok_publish [OF ok sc_prio_bounds(4) [OF ok]]
    by (cases items) (simp_all add: after_pop_def Let_def)
  show "tw_queues (twq_of (after_pop c k cpu items s) k) = (tw_queues (twq_of s k))(cpu := items)"
    by (simp add: after_pop_def Let_def set_traps_twq)
  show "TCBS (after_pop c k cpu items s) = TCBS s"
    by (simp add: after_pop_def Let_def set_traps_def)
  show "length (pt_table (PROCESS_INFO_TABLE (after_pop c k cpu items s))) = PROCESS_NUM c"
    using pt_invD(1) [OF sched_okD(7) [OF S]] .
  have "global_index (sched_of s k) < length (pt_table (PROCESS_INFO_TABLE ?s1))"
    using D(9) pt_invD(1) [OF D(7)] by simp
  then show "pt_prio (PROCESS_INFO_TABLE (after_pop c k cpu items s))
      (global_index (sched_of s k)) cpu = rq_hightest_priority c (rq_of s k) cpu" if "items = []"
    using that by (simp add: after_pop_def Let_def publish_prio sc_prio_def)
qed

text \<open>The machine the handler enters the trap's address space in.\<close>

definition handling_state :: "config \<Rightarrow> nat \<Rightarrow> nat \<Rightarrow> trap_item list \<Rightarrow> task \<Rightarrow> nat \<Rightarrow> sys \<Rightarrow> sys" where
  "handling_state c k cpu items h pid s =
     (after_pop c k cpu items s)\<lparr>TCBS := set_pid (TCBS s) h pid\<rparr>"

lemma handling_state_ok:
  assumes "sched_ok c L E k cpu s" "h \<notin> set (idle_handlers (twq_of s k))" "pid < PROCESS_NUM c"
    and "in_kernel (sched_of s k) s cpu"
  obtains u where "switch_vspace cpu pid (handling_state c k cpu items h pid s) = Inr u"
    "sched_ok c L E k cpu u" "TCBS u = set_pid (TCBS s) h pid" "rq_of u k = rq_of s k"
    "idle_handlers (twq_of u k) = idle_handlers (twq_of s k)" "DROPPED_TRAPS u = DROPPED_TRAPS s"
    "KERNEL_SCHEDULER u = KERNEL_SCHEDULER s"
proof -
  note A = after_pop_ok [OF assms(1), of items]
  let ?s0 = "after_pop c k cpu items s" let ?s1 = "handling_state c k cpu items h pid s"
  have v: "twq_of ?s0 k = (twq_of s k)\<lparr>tw_queues := (tw_queues (twq_of s k))(cpu := items)\<rparr>"
    "rq_of ?s0 k = rq_of s k" "global_index (sched_of ?s0 k) = global_index (sched_of s k)"
    "IN_KERNEL ?s0 = IN_KERNEL s" "DROPPED_TRAPS ?s0 = DROPPED_TRAPS s"
    "KERNEL_SCHEDULER ?s0 = KERNEL_SCHEDULER s"
    using sched_okD(11) [OF assms(1)]
    by (simp_all add: after_pop_def Let_def set_traps_twq) (simp_all add: set_traps_def set_scheduler_def publish_def)
  have s1: "?s1 = ?s0\<lparr>TCBS := (TCBS ?s0)(h := (TCBS s h)\<lparr>t_pid := pid\<rparr>)\<rparr>"
    by (simp add: handling_state_def set_pid_def A(3))
  have ok: "sched_ok c L E k cpu ?s1"
    unfolding s1 using A(1) assms(2) v(1) by (intro sched_ok_set_tcb(1)) simp_all
  have ik: "in_kernel (sched_of ?s1 k) ?s1 cpu"
    using assms(4) v(3,4) by (simp add: in_kernel_def s1 sched_of_def)
  have "pid < length (pt_table (PROCESS_INFO_TABLE ?s1))"
    using assms(3) A(4) by (simp add: s1)
  then obtain u where u: "switch_vspace cpu pid ?s1 = Inr u" using switch_vspace_ok by blast
  note W = switch_vspace_sched_ok [OF u ok ik]
  have f: "u = ?s1\<lparr>CURRENT_VSPACE := CURRENT_VSPACE u, ACTIVE_VSPACE := ACTIVE_VSPACE u\<rparr>"
    using switch_vspace_spec(4) [OF u] .
  have "USER_SCHEDULER u = USER_SCHEDULER ?s0" "DROPPED_TRAPS u = DROPPED_TRAPS ?s0"
    "KERNEL_SCHEDULER u = KERNEL_SCHEDULER ?s0" by (subst f, simp add: s1)+
  then show thesis
    using that [OF u W(1)] W(3,5) v
    by (simp add: twq_of_def rq_of_def sched_of_def s1 set_pid_def A(3))
qed

lemma trap_handler_step_pop:
  assumes "sched_ok c L E k cpu s" "tw_queues (twq_of s k) cpu = it # items"
  shows "trap_handler_step c L E k h cpu s = handle_trap c L E h cpu it (after_pop c k cpu items s)"
proof -
  note D = sched_okD [OF assms(1)]
  note ok = sched_ok_set_traps [OF assms(1), of "(tw_queues (twq_of s k))(cpu := items)"]
  note dq = deque_lawsD [OF lib_lawsD(2) [OF D(2)]]
  have "set_twq k ((twq_of s k)\<lparr>tw_queues := (tw_queues (twq_of s k))(cpu := items)\<rparr>) s =
      Inr (set_traps k ((tw_queues (twq_of s k))(cpu := items)) s)"
    using D(10,11) by (simp add: set_twq_def scheduler_at_def set_traps_def)
  then show ?thesis
    using D(10,11) assms(2) dq get_and_update_prio(1) [OF ok]
    by (cases items) (simp_all add: trap_handler_step_def scheduler_at_def after_pop_def Let_def)
qed

lemma trap_handler_step_idle:
  assumes "sched_ok c L E k cpu s" "tw_queues (twq_of s k) cpu = []"
  shows "trap_handler_step c L E k h cpu s = reschedule_handler L E k h cpu s"
  using sched_okD(10,11) [OF assms(1)] assms(2)
    deque_lawsD [OF lib_lawsD(2) [OF sched_okD(2) [OF assms(1)]]]
  by (simp add: trap_handler_step_def scheduler_at_def Let_def)

text \<open>Finishing the interrupted task: made ready and queued at home, or freed.\<close>

lemma finish_task_blocked:
  assumes "sched_ok c L E k cpu s" "task_home s t = Some k" "t_state (TCBS s t) = Blocked"
    and "t \<notin> set (idle_handlers (twq_of s k))" "in_range c (t_priority (TCBS s t))"
    and "length (rq_abs c (rq_of s k) (t_priority (TCBS s t))) < READY_QUEUE_SIZE c"
  obtains s' where "finish_task c L E cpu t s = Inr s'"
    "TCBS s' = (TCBS s)(t := (TCBS s t)\<lparr>t_state := Ready\<rparr>)" "DROPPED_TRAPS s' = DROPPED_TRAPS s"
    "rq_abs c (rq_of s' k) = fifo_push (rq_abs c (rq_of s k)) (t_priority (TCBS s t)) t"
    "sched_ok c L E k cpu s'"
proof -
  let ?T = "(TCBS s)(t := (TCBS s t)\<lparr>t_state := Ready\<rparr>)"
  let ?s = "s\<lparr>TCBS := ?T\<rparr>"
  note set = sched_ok_set_tcb [OF assms(1,4)]
  have p: "t_priority (TCBS ?s t) = t_priority (TCBS s t)" by simp
  from Scheduler_push_task_room [OF set(1), of "(TCBS s t)\<lparr>t_state := Ready\<rparr>" t] assms(5,6) set(3)
  obtain s' where push: "Scheduler_push_task c L E k ?s cpu t = Inr (Inr (), s')"
    "rq_abs c (rq_of s' k) = fifo_push (rq_abs c (rq_of s k)) (t_priority (TCBS s t)) t"
    "sched_ok c L E k cpu s'" "TCBS s' = ?T" "DROPPED_TRAPS s' = DROPPED_TRAPS s"
    by auto
  have "(if t_is_kernel (TCBS ?s t) then kernel_scheduler ?s
      else and_then (index (pt_table (PROCESS_INFO_TABLE ?s)) (t_pid (TCBS ?s t)))
        (\<lambda>e. deref (pi_scheduler e))) = Inr k"
    using assms(2) by (auto simp: task_home_def kernel_scheduler_def index_def split: if_splits)
  with push(1) assms(3) have "finish_task c L E cpu t s = Inr s'"
    by (simp add: finish_task_def match_set_state_def Let_def)
  with push(2-5) that show thesis by blast
qed

lemma finish_task_exited:
  assumes "t_state (TCBS s t) = Exited"
  shows "finish_task c L E cpu t s = Inr (s\<lparr>TCBS := (TCBS s)(t := (TCBS s t)\<lparr>t_dealloced := True\<rparr>)\<rparr>)"
proof -
  have "(TCBS s t)\<lparr>t_state := Exited\<rparr> = TCBS s t" using assms by (cases "TCBS s t") simp
  with assms show ?thesis
    by (simp add: finish_task_def match_set_state_def dealloc_task_def fun_upd_idem)
qed

end
