(* ===== verification/Api.thy ===== *)
theory Api
  imports Main_Loop Trap_Handler
begin

text \<open>
  \<^verbatim>\<open>src/api.rs\<close>: the functions the operating system calls. A null pointer is the address 0 for
  an address space and \<open>None\<close> for a task.
\<close>

section \<open>Initialising the kernel\<close>

definition init_kernel_stacks ::
  "config \<Rightarrow> lib \<Rightarrow> os \<Rightarrow> nat \<Rightarrow> nat \<Rightarrow> sys \<Rightarrow> sys result" where
  "init_kernel_stacks c L E cpu_id init_stack s =
     (let s1 = s\<lparr>KERNEL_STACKS := (KERNEL_STACKS s)
        \<lparr>current_stack := (current_stack (KERNEL_STACKS s))(cpu_id := Some init_stack)\<rparr>\<rparr>
      in and_then (on_kernel_stacks (\<lambda>st. alloc_trap_stack (stacks_map L) (os_stack E) st cpu_id) s1)
        (\<lambda>(base, s2). Inr (set_pre_stack cpu_id base s2)))"

definition kernel_init_main ::
  "config \<Rightarrow> lib \<Rightarrow> os \<Rightarrow> nat \<Rightarrow> nat \<Rightarrow> task option \<Rightarrow> sys \<Rightarrow> sys result" where
  "kernel_init_main c L E cpu_id init_stack init_task_ptr s =
     (let s1 = s\<lparr>CURRENT_TASK := (CURRENT_TASK s)(cpu_id := init_task_ptr)\<rparr> in
      case os_new_handler E None s1 of (wait_context, s2) \<Rightarrow>
        let s3 = s2\<lparr>SCHEDULER_WAIT_CONTEXT :=
              (SCHEDULER_WAIT_CONTEXT s2)(cpu_id := Some wait_context)\<rparr> in
        and_then (Scheduler_init c L E 0 0 s3 cpu_id) (\<lambda>s4.
        and_then (scheduler_at s4 0) (\<lambda>_.
          init_kernel_stacks c L E cpu_id init_stack
            (s4\<lparr>KERNEL_SCHEDULER := Some 0,
               IN_KERNEL := (IN_KERNEL s4)(cpu_id := True),
               CURRENT_VSPACE := (CURRENT_VSPACE s4)(cpu_id := 0)\<rparr>))))"

definition kernel_init_secondary ::
  "config \<Rightarrow> lib \<Rightarrow> os \<Rightarrow> nat \<Rightarrow> nat \<Rightarrow> task option \<Rightarrow> sys \<Rightarrow> sys result" where
  "kernel_init_secondary c L E cpu_id init_stack init_task_ptr s =
     (let s1 = s\<lparr>CURRENT_TASK := (CURRENT_TASK s)(cpu_id := init_task_ptr)\<rparr> in
      case os_new_handler E None s1 of (wait_context, s2) \<Rightarrow>
        init_kernel_stacks c L E cpu_id init_stack
          (s2\<lparr>SCHEDULER_WAIT_CONTEXT := (SCHEDULER_WAIT_CONTEXT s2)(cpu_id := Some wait_context),
             IN_KERNEL := (IN_KERNEL s2)(cpu_id := True),
             CURRENT_VSPACE := (CURRENT_VSPACE s2)(cpu_id := 0)\<rparr>))"

section \<open>Processes\<close>

definition process_init ::
  "config \<Rightarrow> lib \<Rightarrow> os \<Rightarrow> nat \<Rightarrow> nat \<Rightarrow> sys \<Rightarrow> (nat \<times> sys) result option" where
  "process_init c L E cpu_id vspace s =
     map_option (\<lambda>r.
       and_then r (\<lambda>(pid_opt, pt).
       and_then (unwrap pid_opt) (\<lambda>pid.
       and_then (index (pt_table pt) pid) (\<lambda>_.
         let s1 = s\<lparr>PROCESS_INFO_TABLE := pt_update (\<lambda>e.
               e\<lparr>pi_vspace := (if vspace = 0 then None else Some vspace)\<rparr>) pid pt\<rparr> in
         and_then (get_user_data E s1 cpu_id (Some vspace)) (\<lambda>space.
         and_then (init_except_sources c L space pid s1) (\<lambda>s2.
         and_then (scheduler_at s2 space) (\<lambda>_.
           let s3 = s2\<lparr>PROCESS_INFO_TABLE :=
                 pt_update (\<lambda>e. e\<lparr>pi_scheduler := Some space\<rparr>) pid (PROCESS_INFO_TABLE s2)\<rparr> in
           and_then (get_user_data E s3 cpu_id (Some vspace)) (\<lambda>space'.
             if STACK_HANDLER s3 space' \<noteq> None then Inl Explicit_panic
             else Inr (pid, s3\<lparr>STACK_HANDLER := (STACK_HANDLER s3)
               (space' := Some (StackHandler_default (stacks_map L)))\<rparr>)))))))))
       (register_process c (PROCESS_INFO_TABLE s))"

definition process_drop :: "nat \<Rightarrow> sys \<Rightarrow> sys result" where
  "process_drop pid s =
     and_then (unregister_process (PROCESS_INFO_TABLE s) pid) (\<lambda>((_, vspace), pt).
       Inr (s\<lparr>PROCESS_INFO_TABLE := pt,
         DROPPED_VSPACES := DROPPED_VSPACES s @ (case vspace of None \<Rightarrow> [] | Some v \<Rightarrow> [v])\<rparr>))"

definition user_init :: "config \<Rightarrow> lib \<Rightarrow> os \<Rightarrow> nat \<Rightarrow> nat \<Rightarrow> sys \<Rightarrow> sys result" where
  "user_init c L E cpu_id vspace s =
     and_then (get_user_data E s cpu_id (Some vspace)) (\<lambda>space.
     and_then (get_user_addr E (Kern USER_SCHEDULER_var) 1 (Some vspace)) (\<lambda>user_scheduler.
       init_sources c L E space user_scheduler vspace s cpu_id))"

section \<open>Tasks\<close>

definition push_into ::
  "config \<Rightarrow> lib \<Rightarrow> os \<Rightarrow> nat \<Rightarrow> task \<Rightarrow> nat \<Rightarrow> sys \<Rightarrow> (bool \<times> sys) result" where
  "push_into c L E cpu_id task k s =
     and_then (Scheduler_push_task c L E k s cpu_id task) (\<lambda>(res, s').
       Inr (case res of Inl _ \<Rightarrow> False | Inr _ \<Rightarrow> True, s'))"

definition push_task_into_current ::
  "config \<Rightarrow> lib \<Rightarrow> os \<Rightarrow> nat \<Rightarrow> task \<Rightarrow> sys \<Rightarrow> (bool \<times> sys) result" where
  "push_task_into_current c L E cpu_id task s = push_into c L E cpu_id task (private_space s cpu_id) s"

definition push_task_into_process ::
  "config \<Rightarrow> lib \<Rightarrow> os \<Rightarrow> nat \<Rightarrow> task \<Rightarrow> nat \<Rightarrow> sys \<Rightarrow> (bool \<times> sys) result" where
  "push_task_into_process c L E cpu_id task pid s =
     and_then (index (pt_table (PROCESS_INFO_TABLE s)) pid) (\<lambda>e.
       if \<not> pi_valid e then Inr (False, s)
       else case pi_scheduler e of
         None \<Rightarrow> Inr (False, s)
       | Some k \<Rightarrow> push_into c L E cpu_id task k s)"

definition push_task ::
  "config \<Rightarrow> lib \<Rightarrow> os \<Rightarrow> nat \<Rightarrow> task \<Rightarrow> sys \<Rightarrow> (bool \<times> sys) result" where
  "push_task c L E cpu_id task s =
     (if t_is_kernel (TCBS s task) then push_into c L E cpu_id task (private_space s cpu_id) s
      else
        and_then (index (pt_table (PROCESS_INFO_TABLE s)) (t_pid (TCBS s task))) (\<lambda>e.
          if \<not> pi_valid e then Inr (False, s)
          else case pi_scheduler e of
            None \<Rightarrow> Inr (False, s)
          | Some k \<Rightarrow> push_into c L E cpu_id task k s))"

definition current_vspace :: "sys \<Rightarrow> nat \<Rightarrow> nat" where
  "current_vspace s cpu_id = CURRENT_VSPACE s cpu_id"

definition current_task_ptr :: "sys \<Rightarrow> nat \<Rightarrow> task option" where
  "current_task_ptr s cpu_id = CURRENT_TASK s cpu_id"

definition set_current_task_ptr :: "nat \<Rightarrow> task option \<Rightarrow> sys \<Rightarrow> (task option \<times> sys) result" where
  "set_current_task_ptr cpu_id task s =
     and_then (assert_that (task \<noteq> None)) (\<lambda>_.
       Inr (CURRENT_TASK s cpu_id, s\<lparr>CURRENT_TASK := (CURRENT_TASK s)(cpu_id := task)\<rparr>))"

definition take_current_stack_api :: "nat \<Rightarrow> sys \<Rightarrow> (nat \<times> sys) result" where
  "take_current_stack_api cpu_id s =
     and_then (get_current_task s cpu_id) (\<lambda>task.
       if t_is_kernel (TCBS s task) then on_kernel_stacks (\<lambda>st. take_current_stack st cpu_id) s
       else on_user_stacks (private_space s cpu_id) (\<lambda>st. take_current_stack st cpu_id) s)"

section \<open>The initialised kernel\<close>

text \<open>
  The system's memory: its stacks obey their laws, creating a handler frees no stack, and
  allocating a stack frees no task.
\<close>

definition memory_laws :: "config \<Rightarrow> lib \<Rightarrow> os \<Rightarrow> (nat \<Rightarrow> nat \<Rightarrow> bool) \<Rightarrow> bool" where
  "memory_laws c L E live \<longleftrightarrow> handler_ok c (stacks_map L) live (os_stack E) \<and>
     (\<forall>x. handler_keeps E (\<lambda>w. live w x)) \<and>
     (\<forall>x. alloc_keeps (os_stack E) (\<lambda>w. os_task_live E w x))"

lemma empty_stacks_own:
  assumes "index_map_laws (STACK_POOL_SIZE c) M" "live w x" "cpu < CPU_NUM c"
  shows "own_inv c live ((StackHandler_default M)\<lparr>current_stack :=
    (current_stack (StackHandler_default M))(cpu := Some x)\<rparr>, w)"
proof -
  let ?d = "StackHandler_default M"
  have "im_new M = []" using assms(1) by (simp add: index_map_laws_def)
  then have d: "held c ?d = {#}" "free_stacks ?d i = []" for i
    by (simp_all add: held_def StackHandler_default_def)
  have "held c (?d\<lparr>current_stack := (current_stack ?d)(cpu := Some x)\<rparr>) + opt_mset (current_stack ?d cpu)
      = held c ?d + {#x#}"
    using held_current [OF assms(3), of ?d "Some x"] by simp
  then have "held c (?d\<lparr>current_stack := (current_stack ?d)(cpu := Some x)\<rparr>) = {#x#}"
    using d(1) by (simp add: StackHandler_default_def)
  then show ?thesis using assms(2) d(2) by (auto simp: own_inv_def sh_inv_def)
qed

lemma init_kernel_stacks_ok:
  assumes "handler_ok c (stacks_map L) live (os_stack E)" "cpu < CPU_NUM c"
    and "KERNEL_STACKS s = StackHandler_default (stacks_map L)" "live (WORLD s) x"
  obtains sh w b where "init_kernel_stacks c L E cpu x s =
      Inr (s\<lparr>KERNEL_STACKS := sh, WORLD := w, SSCRATCH := (SSCRATCH s)(cpu := b)\<rparr>)"
    "own_inv c live (sh, w)" "current_stack sh cpu = Some x" "trap_stack sh cpu \<noteq> None"
    "\<And>P. alloc_keeps (os_stack E) P \<Longrightarrow> P (WORLD s) \<Longrightarrow> P w"
proof -
  let ?d = "StackHandler_default (stacks_map L)"
  let ?sh = "?d\<lparr>current_stack := (current_stack ?d)(cpu := Some x)\<rparr>"
  have "index_map_laws (STACK_POOL_SIZE c) (stacks_map L)" using assms(1) by (simp add: handler_ok_def)
  then have own: "own_inv c live (?sh, WORLD s)" using assms(2,4) by (intro empty_stacks_own)
  have "trap_stack ?sh cpu = None" by (simp add: StackHandler_default_def)
  with alloc_trap_stack_spec [OF assms(1) own assms(2)] obtain t sh w where
    a: "alloc_trap_stack (stacks_map L) (os_stack E) (?sh, WORLD s) cpu = Inr (stk_base (os_stack E) t, (sh, w))"
    "own_inv c live (sh, w)" "trap_stack sh cpu = Some t" "current_stack sh = current_stack ?sh"
    by metis
  have "P w" if "alloc_keeps (os_stack E) P" "P (WORLD s)" for P
    using alloc_trap_stack_world [OF that(1) a(1) that(2)] .
  then show thesis
    by (intro that [of "stk_base (os_stack E) t" w sh])
      (use a assms(3) in \<open>simp_all add: init_kernel_stacks_def on_kernel_stacks_def set_pre_stack_def\<close>)
qed

text \<open>
  After \<^verbatim>\<open>kernel_init_main\<close> the kernel's scheduler is in use and idle, and the core has a current
  task, a context to wait in, its boot stack and a stack for the first trap.
\<close>

lemma kernel_init_main_ok:
  assumes "config_ok c" "lib_laws c L" "handler_laws E" "memory_laws c L E live"
    and "CPU_NUM c < 2 ^ 62" "cpu < CPU_NUM c" "USER_SCHEDULER s 0 = None"
    and "pt_inv c (PROCESS_INFO_TABLE s)" "\<not> IRQ_ENABLED s cpu"
    and "KERNEL_STACKS s = StackHandler_default (stacks_map L)" "live (WORLD s) x"
  obtains s' where "kernel_init_main c L E cpu x (Some t) s = Inr s'"
    "kernel_ok c L E cpu s'" "sched_idle c 0 s'" "IN_KERNEL s' cpu"
    "CURRENT_TASK s' cpu = Some t" "SCHEDULER_WAIT_CONTEXT s' cpu \<noteq> None" "CURRENT_VSPACE s' cpu = 0"
    "stacks_ok c L E live s'" "current_stack (KERNEL_STACKS s') cpu = Some x"
    "trap_stack (KERNEL_STACKS s') cpu \<noteq> None" "IS_SLEEPING s' = IS_SLEEPING s"
proof -
  let ?s1 = "s\<lparr>CURRENT_TASK := (CURRENT_TASK s)(cpu := Some t)\<rparr>"
  obtain h s2 where nh: "os_new_handler E None ?s1 = (h, s2)" by (cases "os_new_handler E None ?s1")
  obtain tcb w2 where s2: "s2 = ?s1\<lparr>TCBS := (TCBS ?s1)(h := tcb), WORLD := w2\<rparr>"
    using handler_lawsE [OF assms(3) nh] by blast
  let ?s3 = "s2\<lparr>SCHEDULER_WAIT_CONTEXT := (SCHEDULER_WAIT_CONTEXT s2)(cpu := Some h)\<rparr>"
  have "USER_SCHEDULER ?s3 0 = None" "pt_inv c (PROCESS_INFO_TABLE ?s3)" using assms(7,8) s2 by simp_all
  with Scheduler_init_ok [OF assms(1-3,5,6), of ?s3 0] obtain s4 where
    i: "Scheduler_init c L E 0 0 ?s3 cpu = Inr s4" "sched_ok c L E 0 cpu s4" "sched_idle c 0 s4"
    "global_index (sched_of s4 0) = 0" "sched_frame E ?s3 s4" by blast
  have f: "s4 = ?s3\<lparr>TCBS := TCBS s4, WORLD := WORLD s4, USER_SCHEDULER := USER_SCHEDULER s4,
      PROCESS_INFO_TABLE := PROCESS_INFO_TABLE s4\<rparr>" using i(5) unfolding sched_frame_def by blast
  have sel: "CURRENT_TASK s4 cpu = Some t" "SCHEDULER_WAIT_CONTEXT s4 cpu = Some h"
    "IRQ_ENABLED s4 = IRQ_ENABLED s" "KERNEL_STACKS s4 = KERNEL_STACKS s" "IS_SLEEPING s4 = IS_SLEEPING s"
    by (subst f, simp add: s2)+
  have keeps: "handler_keeps E (\<lambda>w. live w x)" "alloc_keeps (os_stack E) (\<lambda>w. os_task_live E w y)" for y
    using assms(4) by (simp_all add: memory_laws_def)
  have "live (WORLD ?s3) x" using keeps(1) nh assms(11) unfolding handler_keeps_def by fastforce
  then have live4: "live (WORLD s4) x" using i(5) keeps(1) unfolding sched_frame_def by blast
  let ?s5 = "s4\<lparr>KERNEL_SCHEDULER := Some 0, IN_KERNEL := (IN_KERNEL s4)(cpu := True),
               CURRENT_VSPACE := (CURRENT_VSPACE s4)(cpu := 0)\<rparr>"
  have hok: "handler_ok c (stacks_map L) live (os_stack E)" using assms(4) by (simp add: memory_laws_def)
  have "KERNEL_STACKS ?s5 = StackHandler_default (stacks_map L)" "live (WORLD ?s5) x"
    using sel(4) assms(10) live4 by simp_all
  from init_kernel_stacks_ok [OF hok assms(6) this] obtain sh w b where
    k: "init_kernel_stacks c L E cpu x ?s5 =
      Inr (?s5\<lparr>KERNEL_STACKS := sh, WORLD := w, SSCRATCH := (SSCRATCH ?s5)(cpu := b)\<rparr>)"
    "own_inv c live (sh, w)" "current_stack sh cpu = Some x" "trap_stack sh cpu \<noteq> None"
    "\<And>P. alloc_keeps (os_stack E) P \<Longrightarrow> P (WORLD ?s5) \<Longrightarrow> P w" by metis
  let ?s6 = "?s5\<lparr>KERNEL_STACKS := sh, WORLD := w, SSCRATCH := (SSCRATCH ?s5)(cpu := b)\<rparr>"
  have "scheduler_at s4 0 = Inr (sched_of s4 0)"
    using sched_okD(10) [OF i(2)] by (simp add: scheduler_at_def)
  then have run: "kernel_init_main c L E cpu x (Some t) s = Inr ?s6"
    by (simp add: kernel_init_main_def nh i(1) k(1))
  have "sched_ok c L E 0 cpu ?s6"
    by (rule sched_ok_cong [where s = s4])
      (use i(2,4) k(5) [OF keeps(2)] in \<open>simp_all add: in_kernel_def\<close>)
  moreover have "sched_of ?s6 0 = sched_of s4 0" by (simp add: sched_of_def)
  ultimately have "kernel_ok c L E cpu ?s6" using assms(9) sel(3) i(4) by (simp add: kernel_ok_def)
  moreover have "sched_idle c 0 ?s6"
    using i(3) by (simp add: sched_idle_def twq_pending_def twq_of_def rq_of_def sched_of_def)
  ultimately show thesis
    using that [OF run] sel k(2-4) hok by (simp add: stacks_ok_def)
qed

section \<open>The stacks of a trap in the kernel\<close>

lemma stacks_ok_world:
  assumes "stacks_ok c L E live s" "KERNEL_STACKS s' = KERNEL_STACKS s"
    and "\<And>x. live (WORLD s) x \<Longrightarrow> live (WORLD s') x"
  shows "stacks_ok c L E live s'"
  using assms by (auto simp: stacks_ok_def own_inv_def)

lemma trap_stack_kernel:
  assumes "kernel_ok c L E cpu s" "memory_laws c L E live" "own_inv c live (KERNEL_STACKS s, WORLD s)"
    and "trap_stack (KERNEL_STACKS s) cpu = Some ts" "current_stack (KERNEL_STACKS s) cpu = None"
    and "\<And>x. ws = Some x \<Longrightarrow> loose c live (KERNEL_STACKS s, WORLD s) x"
  obtains ns s' where "next_trap_stack c L E cpu ws s = Inr s'" "kernel_ok c L E cpu s'"
    "stacks_ok c L E live s'" "trap_stack (KERNEL_STACKS s') cpu = Some ns"
    "current_stack (KERNEL_STACKS s') cpu = Some ts" "SSCRATCH s' cpu = stk_base (os_stack E) ns"
    "TCBS s' = TCBS s" "CURRENT_TASK s' = CURRENT_TASK s" "USER_SCHEDULER s' = USER_SCHEDULER s"
    "IS_SLEEPING s' = IS_SLEEPING s" "\<And>x. ws = Some x \<Longrightarrow> ns = x"
    "PROCESS_INFO_TABLE s' = PROCESS_INFO_TABLE s"
    "\<And>x. ws = None \<Longrightarrow> loose c live (KERNEL_STACKS s, WORLD s) x \<Longrightarrow> loose c live (KERNEL_STACKS s', WORLD s') x"
proof -
  have h: "handler_ok c (stacks_map L) live (os_stack E)"
    and keeps: "alloc_keeps (os_stack E) (\<lambda>w. os_task_live E w x)" for x
    using assms(2) by (simp_all add: memory_laws_def)
  have ok: "stacks_ok c L E live s" using h assms(3) by (simp add: stacks_ok_def)
  have cpu: "cpu < CPU_NUM c" using sched_okD(4) [OF kernel_okD(1) [OF assms(1)]] .
  obtain ns sh w where n: "next_trap_stack c L E cpu ws s =
      Inr (s\<lparr>KERNEL_STACKS := sh, WORLD := w, SSCRATCH := (SSCRATCH s)(cpu := stk_base (os_stack E) ns)\<rparr>)"
    "own_inv c live (sh, w)" "trap_stack sh cpu = Some ns" "current_stack sh cpu = Some ts"
    "\<And>x. ws = Some x \<Longrightarrow> ns = x" "\<And>P. alloc_keeps (os_stack E) P \<Longrightarrow> P (WORLD s) \<Longrightarrow> P w"
    "\<And>x. ws = None \<Longrightarrow> loose c live (KERNEL_STACKS s, WORLD s) x \<Longrightarrow> loose c live (sh, w) x"
    using assms(6) by (rule next_trap_stack_spec [OF ok cpu assms(4,5)]) blast+
  let ?s = "s\<lparr>KERNEL_STACKS := sh, WORLD := w, SSCRATCH := (SSCRATCH s)(cpu := stk_base (os_stack E) ns)\<rparr>"
  have "kernel_ok c L E cpu ?s"
    by (rule kernel_ok_cong [OF assms(1)]) (use n(6) [OF keeps] in simp_all)
  then show thesis by (rule that [OF n(1)]) (use n h in \<open>simp_all add: stacks_ok_def\<close>)
qed

text \<open>
  A synchronous trap gets through the entry: all that has changed is the stacks, the state of the
  trapped task and the kernel's traps.
\<close>

lemma sync_trap_spec:
  assumes "kernel_ok c L E cpu s" "memory_laws c L E live" "from_task_laws E live"
    and "own_inv c live (KERNEL_STACKS s, WORLD s)" "\<not> IS_SLEEPING s cpu"
    and "trap_stack (KERNEL_STACKS s) cpu = Some ts" "current_stack (KERNEL_STACKS s) cpu = None"
    and "CURRENT_TASK s cpu = Some t" "t_state (TCBS s t) = Running"
    and "length (tw_queues (twq_of s 0) cpu) < TRAP_WAIT_QUEUE_SIZE c"
  obtains info ns s' where "trap_entry c L E cpu 0 0 s = Inr (1, s')" "kernel_ok c L E cpu s'"
    "TCBS s' = (TCBS s)(t := (TCBS s t)\<lparr>t_state := Blocked\<rparr>)" "rq_of s' 0 = rq_of s 0"
    "tw_queues (twq_of s' 0) = (tw_queues (twq_of s 0))(cpu := tw_queues (twq_of s 0) cpu @ [(info, Some t)])"
    "idle_handlers (twq_of s' 0) = idle_handlers (twq_of s 0)"
    "\<And>j. pt_valid_at (PROCESS_INFO_TABLE s') j = pt_valid_at (PROCESS_INFO_TABLE s) j"
    "\<And>j i. pt_prio (PROCESS_INFO_TABLE s') j i =
      (if j = 0 \<and> i = cpu then HIGHEST_PRIORITY c else pt_prio (PROCESS_INFO_TABLE s) j i)"
    "stacks_ok c L E live s'" "current_stack (KERNEL_STACKS s') cpu = Some ts"
    "trap_stack (KERNEL_STACKS s') cpu = Some ns" "SSCRATCH s' cpu = stk_base (os_stack E) ns"
    "\<And>x. loose c live (KERNEL_STACKS s, WORLD s) x \<Longrightarrow> loose c live (KERNEL_STACKS s', WORLD s') x"
proof -
  let ?s0 = "s\<lparr>IN_KERNEL := (IN_KERNEL s)(cpu := True)\<rparr>"
  note K = kernel_okD [OF assms(1)]
  obtain ns s1 where n: "next_trap_stack c L E cpu None ?s0 = Inr s1" "kernel_ok c L E cpu s1"
    "stacks_ok c L E live s1" "trap_stack (KERNEL_STACKS s1) cpu = Some ns"
    "current_stack (KERNEL_STACKS s1) cpu = Some ts" "SSCRATCH s1 cpu = stk_base (os_stack E) ns"
    "TCBS s1 = TCBS s" "CURRENT_TASK s1 = CURRENT_TASK s" "USER_SCHEDULER s1 = USER_SCHEDULER s"
    "PROCESS_INFO_TABLE s1 = PROCESS_INFO_TABLE s"
    "\<And>x. loose c live (KERNEL_STACKS s, WORLD s) x \<Longrightarrow> loose c live (KERNEL_STACKS s1, WORLD s1) x"
    by (rule trap_stack_kernel [of c L E cpu ?s0 live ts None])
      (use assms(1-7) kernel_ok_cong [OF assms(1), of ?s0] in auto)
  have t1: "t_state (TCBS s1 t) = Running" using n(7) assms(9) by simp
  let ?s2 = "s1\<lparr>TCBS := (TCBS s1)(t := (TCBS s1 t)\<lparr>t_state := Blocked\<rparr>)\<rparr>"
  have k2: "kernel_ok c L E cpu ?s2" by (rule kernel_ok_running(1) [OF n(2) t1])
  have v: "twq_of ?s2 0 = twq_of s 0" "rq_of ?s2 0 = rq_of s 0"
    using n(9) by (simp_all add: twq_of_def rq_of_def sched_of_def)
  obtain info w where p: "push_trap_of c L E cpu t (Some t) ?s2 = Inr (trap_queued c cpu info (Some t) w ?s2)"
    "kernel_ok c L E cpu (trap_queued c cpu info (Some t) w ?s2)" "\<And>x. live (WORLD ?s2) x \<Longrightarrow> live w x"
    using push_trap_of_spec [OF k2 assms(3), of t "Some t"] assms(10) unfolding v by metis
  let ?s' = "trap_queued c cpu info (Some t) w ?s2"
  have st: "stacks_ok c L E live ?s'" using stacks_ok_world [OF n(3)] p(3) by simp
  have "trap_entry c L E cpu 0 0 s = Inr (1, ?s')"
    using K(7) assms(5,8) n(1,8) t1 p(1)
    by (simp add: trap_entry_def sync_trap_entry_def get_current_task_def set_state_from_running_def
        set_state_def push_prev_task_def)
  then show thesis
    by (rule that [of _ info ns])
      (use p(2,3) st n(4-7,10,11) v trap_queued_prio [OF k2, of info "Some t" w] in \<open>auto simp: loose_def\<close>)
qed

section \<open>Starting a process\<close>

lemma get_user_data_own:
  assumes "user_data_laws E" "v \<noteq> 0"
  shows "get_user_data E s cpu (Some v) = Inr v"
  using assms by (simp add: get_user_data_def user_data_laws_def assert_that_def)

text \<open>The process table after a registration.\<close>

definition registered_as :: "nat \<Rightarrow> nat \<Rightarrow> process_table \<Rightarrow> process_table \<Rightarrow> bool" where
  "registered_as pid v pt pt' \<longleftrightarrow> length (pt_table pt') = length (pt_table pt) \<and> pid < length (pt_table pt) \<and>
     pt_table pt' ! pid = (pt_table pt ! pid)\<lparr>pi_valid := True, pi_vspace := Some v, pi_scheduler := Some v\<rparr> \<and>
     (\<forall>j. j \<noteq> pid \<longrightarrow> pt_table pt' ! j = pt_table pt ! j)"

lemma process_init_ok:
  assumes "config_ok c" "lib_laws c L" "user_data_laws E" "v \<noteq> 0"
    and "pt_inv c (PROCESS_INFO_TABLE s)" "pt_next_i (PROCESS_INFO_TABLE s) + PROCESS_NUM c + 1 < 2 ^ 64"
    and "i < PROCESS_NUM c" "\<not> pt_valid_at (PROCESS_INFO_TABLE s) i"
    and "USER_SCHEDULER s v = None" "STACK_HANDLER s v = None"
  obtains pid pt rq where "process_init c L E cpu v s = Some (Inr (pid, s\<lparr>PROCESS_INFO_TABLE := pt,
      USER_SCHEDULER := (USER_SCHEDULER s)(v := Some \<lparr>sources = [], global_index = pid,
        s_ready_queue = rq, s_trap_wait_queue = TrapWaitQueue_new L\<rparr>),
      STACK_HANDLER := (STACK_HANDLER s)(v := Some (StackHandler_default (stacks_map L)))\<rparr>))"
    "\<not> pt_valid_at (PROCESS_INFO_TABLE s) pid" "registered_as pid v (PROCESS_INFO_TABLE s) pt"
    "pt_inv c pt" "rq_inv c rq" "\<forall>q \<in> set (queues rq). q = []"
proof -
  let ?pt = "PROCESS_INFO_TABLE s"
  from assms(5,6) obtain pid n where
    r: "register_process c ?pt = Some (Inr (Some pid,
        ?pt\<lparr>pt_table := (pt_table ?pt)[pid := (pt_table ?pt ! pid)\<lparr>pi_valid := True\<rparr>], pt_next_i := n\<rparr>))"
    "pid < PROCESS_NUM c" "\<not> pt_valid_at ?pt pid"
    using assms(7,8) by (cases rule: register_process_spec) blast+
  let ?r = "?pt\<lparr>pt_table := (pt_table ?pt)[pid := (pt_table ?pt ! pid)\<lparr>pi_valid := True\<rparr>], pt_next_i := n\<rparr>"
  let ?t = "pt_update (\<lambda>e. e\<lparr>pi_scheduler := Some v\<rparr>) pid (pt_update (\<lambda>e. e\<lparr>pi_vspace := Some v\<rparr>) pid ?r)"
  have len: "pid < length (pt_table ?pt)" using r(2) pt_invD(1) [OF assms(5)] by simp
  have "USER_SCHEDULER (s\<lparr>PROCESS_INFO_TABLE := pt_update (\<lambda>e. e\<lparr>pi_vspace := Some v\<rparr>) pid ?r\<rparr>) v = None"
    using assms(9) by simp
  from init_except_sources_ok [OF assms(1,2) this, of pid] obtain rq where
    q: "init_except_sources c L v pid (s\<lparr>PROCESS_INFO_TABLE := pt_update (\<lambda>e. e\<lparr>pi_vspace := Some v\<rparr>) pid ?r\<rparr>)
      = Inr (set_scheduler v \<lparr>sources = [], global_index = pid, s_ready_queue = rq,
          s_trap_wait_queue = TrapWaitQueue_new L\<rparr>
        (s\<lparr>PROCESS_INFO_TABLE := pt_update (\<lambda>e. e\<lparr>pi_vspace := Some v\<rparr>) pid ?r\<rparr>))"
    "rq_inv c rq" "\<forall>q \<in> set (queues rq). q = []" by blast
  have "process_init c L E cpu v s = Some (Inr (pid, s\<lparr>PROCESS_INFO_TABLE := ?t,
      USER_SCHEDULER := (USER_SCHEDULER s)(v := Some \<lparr>sources = [], global_index = pid,
        s_ready_queue = rq, s_trap_wait_queue = TrapWaitQueue_new L\<rparr>),
      STACK_HANDLER := (STACK_HANDLER s)(v := Some (StackHandler_default (stacks_map L)))\<rparr>))"
    using len assms(4,10)
    by (simp add: process_init_def r(1) unwrap_def index_def get_user_data_own [OF assms(3,4)] q(1)
        scheduler_at_def set_scheduler_def Let_def)
  moreover have "registered_as pid v ?pt ?t" using len by (simp add: registered_as_def nth_list_update)
  moreover have "pt_inv c ?t"
    by (intro pt_update_inv register_process_inv [OF assms(5,6) r(1)]) simp_all
  ultimately show thesis using that r(3) q(2,3) by blast
qed

lemma user_init_ok:
  assumes "user_data_laws E" "v \<noteq> 0" "\<And>x. os_get_user_addr E (Kern x) 1 (Some v) \<noteq> Null"
  shows "user_init c L E cpu v s = init_sources c L E v (User v USER_SCHEDULER_var) v s cpu"
proof -
  have "os_get_user_addr E (Kern USER_SCHEDULER_var) 1 (Some v) = User v USER_SCHEDULER_var"
    using assms(1,3) unfolding user_data_laws_def user_addr_laws_def by metis
  then show ?thesis
    by (simp add: user_init_def get_user_data_own [OF assms(1,2)] get_user_addr_def assert_that_def Let_def)
qed

end
