(* ===== verification/Arch.thy ===== *)
theory Arch
  imports Api
begin

text \<open>
  \<^verbatim>\<open>src/arch/riscv.rs\<close> and \<^verbatim>\<open>src/arch/x86.rs\<close>: the assembly that strings the functions of the
  main loop together. The labels of \<^verbatim>\<open>schedule_loop\<close> are the states of a machine with two
  registers, the privilege level (\<^verbatim>\<open>s1\<close>, \<^verbatim>\<open>r12\<close>) and the status of the stack (\<^verbatim>\<open>s2\<close>,
  \<^verbatim>\<open>r13\<close>); \<open>Illegal\<close> is the undefined instruction behind each chain of branches.
\<close>

section \<open>The schedule loop\<close>

datatype label =
    Raw_trap_entry u64 u64
  | Raw_thread_entry
  | Raw_kschedule
  | Raw_uschedule
  | Raw_utok_schedule
  | Raw_run_task
  | Raw_krun_utask

record loop_state =
  at :: label
  reg_s1 :: u64
  reg_s2 :: u64
  core :: nat
  machine :: sys

datatype 'a outcome =
    Next 'a
  | Leaves exit sys
  | Illegal
  | Panics panic
  | Diverges

definition call :: "'a result \<Rightarrow> ('a \<Rightarrow> 'b outcome) \<Rightarrow> 'b outcome" where
  "call r f = (case r of Inl e \<Rightarrow> Panics e | Inr x \<Rightarrow> f x)"

definition call_loop :: "'a result option \<Rightarrow> ('a \<Rightarrow> 'b outcome) \<Rightarrow> 'b outcome" where
  "call_loop r f = (case r of None \<Rightarrow> Diverges | Some r' \<Rightarrow> call r' f)"

text \<open>A chain of comparisons of a register with constants.\<close>

definition branch :: "(u64 \<times> label) list \<Rightarrow> u64 \<Rightarrow> loop_state \<Rightarrow> loop_state outcome" where
  "branch table reg st = (case map_of table reg of None \<Rightarrow> Illegal | Some l \<Rightarrow> Next (st\<lparr>at := l\<rparr>))"

definition loop_step :: "config \<Rightarrow> lib \<Rightarrow> os \<Rightarrow> loop_state \<Rightarrow> loop_state outcome" where
  "loop_step c L E st =
     (case at st of
        Raw_trap_entry a0 a1 \<Rightarrow>
          call (trap_entry c L E (core st) (unat a0) (unat a1) (machine st)) (\<lambda>(res, s).
            branch [(1, Raw_kschedule), (2, Raw_uschedule), (3, Raw_utok_schedule)] (of_nat res)
              (st\<lparr>reg_s1 := a1, machine := s\<rparr>))
      | Raw_thread_entry \<Rightarrow>
          call (thread_entry c L E (core st) (machine st)) (\<lambda>(res, s).
            let a0 = of_nat res :: u64; level = a0 AND 1 in
            branch [(0, Raw_kschedule), (1, Raw_uschedule)] level
              (st\<lparr>reg_s1 := level, reg_s2 := drop_bit 1 a0, machine := s\<rparr>))
      | Raw_kschedule \<Rightarrow>
          call_loop (kschedule c L E (core st) (machine st)) (\<lambda>(r, s).
            case r of
              Inl x \<Rightarrow> Leaves x s
            | Inr res \<Rightarrow> branch [(0, Raw_run_task), (1, Raw_krun_utask)] (of_nat res) (st\<lparr>machine := s\<rparr>))
      | Raw_uschedule \<Rightarrow>
          call (uschedule c L E (core st) (unat (reg_s2 st)) (machine st)) (\<lambda>(r, s).
            case r of
              Inl x \<Rightarrow> Leaves x s
            | Inr _ \<Rightarrow> Next (st\<lparr>at := Raw_run_task, machine := s\<rparr>))
      | Raw_utok_schedule \<Rightarrow>
          call_loop (utok_schedule c L E (core st) (machine st)) (\<lambda>(r, s).
            case r of
              Inl x \<Rightarrow> Leaves x s
            | Inr res \<Rightarrow> branch [(0, Raw_run_task), (1, Raw_krun_utask)] (of_nat res) (st\<lparr>machine := s\<rparr>))
      | Raw_run_task \<Rightarrow>
          call (run_task c L E (core st) (unat (reg_s1 st)) (unat (reg_s2 st)) (machine st)) (\<lambda>(r, s).
            case r of
              Inl x \<Rightarrow> Leaves x s
            | Inr (level, cpu') \<Rightarrow>
                branch [(0, Raw_kschedule), (1, Raw_uschedule)] (of_nat level)
                  (st\<lparr>reg_s1 := of_nat level, reg_s2 := 0, core := cpu', machine := s\<rparr>))
      | Raw_krun_utask \<Rightarrow>
          call (krun_utask c L E (core st) (unat (reg_s2 st)) (machine st)) (\<lambda>(x, s). Leaves x s))"

text \<open>On x86 the trap entry also clears the status of the stack.\<close>

definition loop_step_x86 :: "config \<Rightarrow> lib \<Rightarrow> os \<Rightarrow> loop_state \<Rightarrow> loop_state outcome" where
  "loop_step_x86 c L E st =
     loop_step c L E (case at st of Raw_trap_entry _ _ \<Rightarrow> st\<lparr>reg_s2 := 0\<rparr> | _ \<Rightarrow> st)"

text \<open>The states a machine comes through before it leaves, panics or hangs.\<close>

inductive runs :: "('a \<Rightarrow> 'a outcome) \<Rightarrow> 'a \<Rightarrow> 'a \<Rightarrow> bool" for step where
  here: "runs step st st"
| more: "runs step st st' \<Longrightarrow> step st' = Next st'' \<Longrightarrow> runs step st st''"

inductive_cases runsE: "runs step st st'"

lemma runs_two: "step st = Next st' \<Longrightarrow> step st' = Next st'' \<Longrightarrow> runs step st st''"
  using runs.more [OF runs.more [OF runs.here, of step st st'], of st''] .

abbreviation loop_runs :: "config \<Rightarrow> lib \<Rightarrow> os \<Rightarrow> loop_state \<Rightarrow> loop_state \<Rightarrow> bool" where
  "loop_runs c L E \<equiv> runs (loop_step c L E)"

section \<open>The trampolines\<close>

text \<open>
  Where the x86-64 trampoline stores the return address before it jumps, and the stack pointer
  there; the riscv trampoline takes the address it is given.
\<close>

definition switch_sp_x86_64 :: "u64 \<Rightarrow> u64" where
  "switch_sp_x86_64 sp = ((sp + 8) AND (- 16)) - 8"

definition switch_sp_x86 :: "32 word \<Rightarrow> 32 word" where
  "switch_sp_x86 sp = ((sp + 4) AND (- 16)) - 4"

definition switch_sp_riscv :: "u64 \<Rightarrow> u64" where
  "switch_sp_riscv sp = sp"

section \<open>The results of the calls\<close>

lemma ktask_schedule_result:
  "ktask_schedule c L E cpu pid s = Inr (r, s') \<Longrightarrow> r = 0 \<or> r = 1 \<or> r = 2"
  by (auto simp: ktask_schedule_def and_then_Inr_iff split: if_splits option.splits prod.splits)

lemma kschedule_loop_result:
  assumes "kschedule_loop c L E cpu k s = Some (Inr (Inr r, s'))"
  shows "r = 0 \<or> r = 1"
proof -
  have "\<forall>r s'. y = Inr (Inr r, s') \<longrightarrow> r = 0 \<or> r = 1"
    if "kschedule_loop c L E cpu k s = Some y" for c L E cpu k s y
    using that
    by (rule kschedule_loop.raw_induct [where P = "\<lambda>c L E cpu k s y. \<forall>r s'. y = Inr (Inr r, s') \<longrightarrow> r = 0 \<or> r = 1",
          rotated])
      (auto split: sum.splits prod.splits if_splits dest!: ktask_schedule_result)
  then show ?thesis using assms by blast
qed

lemma kschedule_result:
  "kschedule c L E cpu s = Some (Inr (Inr r, s')) \<Longrightarrow> r = 0 \<or> r = 1"
  using kschedule_loop_result by (auto simp: kschedule_def split: sum.splits if_splits)

lemma utok_loop_result:
  assumes "utok_loop c L E cpu pid s = Some (Inr (Inr r, s'))"
  shows "r = 0 \<or> r = 1"
proof -
  have "\<forall>r s'. y = Inr (Inr r, s') \<longrightarrow> r = 0 \<or> r = 1"
    if "utok_loop c L E cpu pid s = Some y" for c L E cpu pid s y
    using that
    by (rule utok_loop.raw_induct [where P = "\<lambda>c L E cpu k s y. \<forall>r s'. y = Inr (Inr r, s') \<longrightarrow> r = 0 \<or> r = 1",
          rotated])
      (auto split: sum.splits prod.splits if_splits dest!: ktask_schedule_result)
  then show ?thesis using assms by blast
qed

lemma utok_schedule_result:
  "utok_schedule c L E cpu s = Some (Inr (Inr r, s')) \<Longrightarrow> r = 0 \<or> r = 1"
  using utok_loop_result by (auto simp: utok_schedule_def)

lemma trap_entry_result:
  "trap_entry c L E cpu a b s = Inr (r, s') \<Longrightarrow> r = 1 \<or> r = 3"
  by (auto simp: trap_entry_def sync_trap_entry_def irq_trap_entry_def user_irq_trap_entry_def and_then_Inr_iff Let_def
      split: if_splits)

lemma thread_entry_phase2_result:
  "thread_entry_phase2 c L E cpu s = Inr (r, s') \<Longrightarrow>
     r = (if CPU_NUM c = 1 then 2 else 0) + (if IN_KERNEL s' cpu then 0 else 1)"
  by (auto simp: thread_entry_phase2_def and_then_Inr_iff split: if_splits)

lemma thread_entry_result:
  "thread_entry c L E cpu s = Inr (r, s') \<Longrightarrow>
     r = (if CPU_NUM c = 1 then 2 else 0) + (if IN_KERNEL s' cpu then 0 else 1)"
  by (auto simp: thread_entry_def and_then_Inr_iff split: if_splits dest: thread_entry_phase2_result)

lemma run_coroutine_result:
  "run_coroutine c L E cpu s = Inr ((l, cpu'), s') \<Longrightarrow> l = (if IN_KERNEL s' cpu' then 0 else 1)"
proof -
  assume r: "run_coroutine c L E cpu s = Inr ((l, cpu'), s')"
  then obtain t u where t: "start_current cpu s = Inr (t, u)"
    by (auto simp: run_coroutine_def and_then_Inr_iff)
  obtain res cpu2 v where "os_poll E t cpu u = (res, cpu2, v)" by (cases "os_poll E t cpu u")
  with r t show ?thesis by (auto simp: run_coroutine_def and_then_Inr_iff)
qed

lemma run_task_result:
  "run_task c L E cpu a b s = Inr (Inr (l, cpu'), s') \<Longrightarrow> l = (if IN_KERNEL s' cpu' then 0 else 1)"
  by (auto simp: run_task_def and_then_Inr_iff Let_def split: if_splits dest: run_coroutine_result)

text \<open>The two bits of \<^verbatim>\<open>thread_entry_phase2\<close>, as \<^verbatim>\<open>raw_thread_entry\<close> takes them apart.\<close>

lemma phase2_bits:
  fixes level status :: nat
  assumes "level < 2" "status < 2"
  shows "(of_nat (2 * status + level) :: u64) AND 1 = of_nat level"
    and "drop_bit 1 (of_nat (2 * status + level) :: u64) = of_nat status"
proof -
  have "level = 0 \<or> level = 1" "status = 0 \<or> status = 1" using assms by auto
  then show "(of_nat (2 * status + level) :: u64) AND 1 = of_nat level"
    and "drop_bit 1 (of_nat (2 * status + level) :: u64) = of_nat status"
    by (auto simp: drop_bit_Suc)
qed

section \<open>The privilege level of a core\<close>

text \<open>
  What the system's functions do to \<^verbatim>\<open>IN_KERNEL\<close>, which only the scheduler sets: nothing, on
  the core that calls them.
\<close>

definition level_laws :: "os \<Rightarrow> bool" where
  "level_laws E \<longleftrightarrow>
     (\<forall>p s h s'. os_new_handler E p s = (h, s') \<longrightarrow> IN_KERNEL s' = IN_KERNEL s) \<and>
     (\<forall>t s i s'. os_from_task E t s = (i, s') \<longrightarrow> IN_KERNEL s' = IN_KERNEL s) \<and>
     (\<forall>n cpu s r s'. os_ext_take_task E n cpu s = (r, s') \<longrightarrow> IN_KERNEL s' = IN_KERNEL s) \<and>
     (\<forall>cpu s s'. os_wfi E cpu s = Some s' \<longrightarrow> IN_KERNEL s' = IN_KERNEL s)"

lemma level_lawsD:
  assumes "level_laws E"
  shows "os_new_handler E p s = (h, s') \<Longrightarrow> IN_KERNEL s' = IN_KERNEL s"
    "os_from_task E t s = (i, s') \<Longrightarrow> IN_KERNEL s' = IN_KERNEL s"
    "os_ext_take_task E n cpu s = (r, s') \<Longrightarrow> IN_KERNEL s' = IN_KERNEL s"
    "os_wfi E cpu s = Some s' \<Longrightarrow> IN_KERNEL s' = IN_KERNEL s"
  using assms unfolding level_laws_def by blast+

lemma store_prio_level [level_frames]:
  "store_prio c pid p cpu s = Inr s' \<Longrightarrow> IN_KERNEL s' = IN_KERNEL s"
  by (auto simp: store_prio_def and_then_Inr_iff)

lemma store_prios_level [level_frames]:
  "store_prios c pid p cpus s = Inr s' \<Longrightarrow> IN_KERNEL s' = IN_KERNEL s"
  by (induction cpus arbitrary: s) (auto simp: and_then_Inr_iff dest: store_prio_level)

lemma update_prio_level [level_frames]:
  "update_prio c k p i s = Inr s' \<Longrightarrow> IN_KERNEL s' = IN_KERNEL s"
  by (auto simp: update_prio_def and_then_Inr_iff dest: store_prio_level store_prios_level split: if_splits)

lemma get_and_update_level [level_frames]:
  "get_and_update_current_prio c L E k s cpu = Inr (p, s') \<Longrightarrow> IN_KERNEL s' = IN_KERNEL s"
  "get_and_update_all_prio c L E k s cpu = Inr (p, s') \<Longrightarrow> IN_KERNEL s' = IN_KERNEL s"
  by (auto simp: get_and_update_current_prio_def get_and_update_all_prio_def and_then_Inr_iff
      dest: update_prio_level)

lemma Scheduler_push_level [level_frames]:
  "Scheduler_push_task c L E k s cpu t = Inr (r, s') \<Longrightarrow> IN_KERNEL s' = IN_KERNEL s"
  "Scheduler_push_trap c L E k s cpu i o' target = Inr (q, s') \<Longrightarrow> IN_KERNEL s' = IN_KERNEL s"
  by (auto simp: Scheduler_push_task_def Scheduler_push_trap_def Inr_iffs Let_def
      dest!: get_and_update_level split: if_splits)

lemma set_twq_level [level_frames]: "set_twq k q s = Inr s' \<Longrightarrow> IN_KERNEL s' = IN_KERNEL s"
  by (auto simp: set_twq_def and_then_Inr_iff)

lemma obtain_handler_level [level_frames]:
  assumes "level_laws E" "obtain_handler E s cpu idle = Inr (h, s')"
  shows "IN_KERNEL s' = IN_KERNEL s"
  using assms(2) level_lawsD(1) [OF assms(1)]
  by (cases idle) (auto simp: obtain_handler_def Inr_iffs)

lemma twq_take_task_level [level_frames]:
  assumes "level_laws E" "twq_take_task c L E k s cpu = Inr (r, s')"
  shows "IN_KERNEL s' = IN_KERNEL s"
  using assms(2)
  by (auto simp: twq_take_task_def Inr_iffs Let_def
      dest!: set_twq_level obtain_handler_level [OF assms(1)])

lemma es_take_task_level [level_frames]:
  assumes "level_laws E" "es_take_task c L E s cpu ik e = Inr (r, s')"
  shows "IN_KERNEL s' = IN_KERNEL s"
proof -
  obtain code data where x: "reach ik (ACTIVE_VSPACE s cpu) (vt_take_task (es_vtable e) ik) = Inr code"
    "reach ik (ACTIVE_VSPACE s cpu) (entry_data e ik) = Inr data"
    using assms(2) by (auto simp: es_take_task_def and_then_Inr_iff)
  obtain ty k where "code = Take_task_impl ty" "data = Source ty k"
    using assms(2) x by (cases code; cases data) (auto simp: es_take_task_def split: if_splits)
  with x assms(2) show ?thesis
    using level_lawsD(3) [OF assms(1)]
    by (cases ty) (auto simp: es_take_task_def Inr_iffs dest!: twq_take_task_level [OF assms(1)])
qed

lemma pop_task_level [level_frames]:
  assumes "level_laws E" "pop_task c L E k s cpu = Inr (r, s')"
  shows "IN_KERNEL s' = IN_KERNEL s"
  using assms(2)
  by (auto simp: pop_task_def Inr_iffs Let_def split: if_splits
      dest!: update_prio_level es_take_task_level [OF assms(1)])

lemma switch_vspace_level [level_frames]:
  "switch_vspace cpu pid s = Inr s' \<Longrightarrow> IN_KERNEL s' = IN_KERNEL s"
  by (auto simp: switch_vspace_def Inr_iffs Let_def split: if_splits)

lemma on_stacks_level [level_frames]:
  "on_kernel_stacks f s = Inr (r, s') \<Longrightarrow> IN_KERNEL s' = IN_KERNEL s"
  "on_user_stacks k f s = Inr (r, s') \<Longrightarrow> IN_KERNEL s' = IN_KERNEL s"
  "on_stacks u cpu f s = Inr (r, s') \<Longrightarrow> IN_KERNEL s' = IN_KERNEL s"
  by (auto simp: on_stacks_def on_kernel_stacks_def on_user_stacks_def and_then_Inr_iff
      split: if_splits)

lemma push_prev_task_level [level_frames]:
  "push_prev_task c L E cpu st s = Inr s' \<Longrightarrow> IN_KERNEL s' = IN_KERNEL s"
  by (cases st) (auto simp: push_prev_task_def Inr_iffs dest!: Scheduler_push_level)

lemma next_trap_stack_level [level_frames]:
  "next_trap_stack c L E cpu ws s = Inr s' \<Longrightarrow> IN_KERNEL s' = IN_KERNEL s"
  by (auto simp: next_trap_stack_def Inr_iffs Let_def set_pre_stack_def dest!: on_stacks_level)

lemma push_trap_of_level [level_frames]:
  assumes "level_laws E" "push_trap_of c L E cpu t x s = Inr s'"
  shows "IN_KERNEL s' = IN_KERNEL s"
  using assms(2) level_lawsD(2) [OF assms(1)]
  by (auto simp: push_trap_of_def Inr_iffs dest!: Scheduler_push_level)

lemma ktask_schedule_level [level_frames]:
  assumes "level_laws E" "ktask_schedule c L E cpu pid s = Inr (r, s')"
  shows "IN_KERNEL s' = IN_KERNEL s"
  using assms(2)
  by (auto simp: ktask_schedule_def Inr_iffs set_current_task_def split: if_splits
      dest!: pop_task_level [OF assms(1)] switch_vspace_level)

lemma wait_for_runnable_task_level [level_frames]:
  assumes "level_laws E" "wait_for_runnable_task c L E k cpu s = Inr (Inr u, s')"
  shows "IN_KERNEL s' = IN_KERNEL s"
  using assms(2)
  by (auto simp: wait_for_runnable_task_def wait_irqs_def Inr_iffs Let_def set_current_task_def
      split: if_splits dest!: level_lawsD(4) [OF assms(1)])

lemma kschedule_loop_level:
  assumes "level_laws E" "kschedule_loop c L E cpu k s = Some (Inr (Inr r, s'))"
  shows "IN_KERNEL s' = IN_KERNEL s"
proof -
  have "\<forall>r s'. level_laws E \<longrightarrow> y = Inr (Inr r, s') \<longrightarrow> IN_KERNEL s' = IN_KERNEL s"
    if "kschedule_loop c L E cpu k s = Some y" for c L E cpu k s y
    using that
    by (rule kschedule_loop.raw_induct [where P = "\<lambda>c L E cpu k s y.
          \<forall>r s'. level_laws E \<longrightarrow> y = Inr (Inr r, s') \<longrightarrow> IN_KERNEL s' = IN_KERNEL s", rotated])
      (auto split: sum.splits prod.splits if_splits
        dest!: ktask_schedule_level [rotated] wait_for_runnable_task_level [rotated])
  then show ?thesis using assms by blast
qed

lemma kschedule_level [level_frames]:
  assumes "level_laws E" "kschedule c L E cpu s = Some (Inr (Inr r, s'))"
  shows "IN_KERNEL s' = IN_KERNEL s"
  using assms(2) kschedule_loop_level [OF assms(1)]
  by (auto simp: kschedule_def split: sum.splits if_splits)

lemma utok_loop_level:
  assumes "level_laws E" "utok_loop c L E cpu pid s = Some (Inr (Inr r, s'))"
  shows "IN_KERNEL s' = IN_KERNEL s"
proof -
  have "\<forall>r s'. level_laws E \<longrightarrow> y = Inr (Inr r, s') \<longrightarrow> IN_KERNEL s' = IN_KERNEL s"
    if "utok_loop c L E cpu pid s = Some y" for c L E cpu pid s y
    using that
    by (rule utok_loop.raw_induct [where P = "\<lambda>c L E cpu k s y.
          \<forall>r s'. level_laws E \<longrightarrow> y = Inr (Inr r, s') \<longrightarrow> IN_KERNEL s' = IN_KERNEL s", rotated])
      (auto split: sum.splits prod.splits if_splits
        dest!: ktask_schedule_level [rotated] wait_for_runnable_task_level [rotated])
  then show ?thesis using assms by blast
qed

lemma utok_schedule_level [level_frames]:
  assumes "level_laws E" "utok_schedule c L E cpu s = Some (Inr (Inr r, s'))"
  shows "IN_KERNEL s' = IN_KERNEL s"
  using utok_loop_level [OF assms(1)] assms(2) by (simp add: utok_schedule_def)

lemma uschedule_level [level_frames]:
  assumes "level_laws E" "uschedule c L E cpu a s = Inr (Inr u, s')"
  shows "IN_KERNEL s' = IN_KERNEL s"
  using assms(2)
  by (auto simp: uschedule_def utask_schedule_def Inr_iffs Let_def set_current_task_def
      split: if_splits dest!: pop_task_level [OF assms(1)])

text \<open>Behind the entry of traps \<^verbatim>\<open>IN_KERNEL\<close> says what the trap said.\<close>

lemma trap_entry_level:
  assumes "level_laws E" "trap_entry c L E cpu a b s = Inr (r, s')"
  shows "IN_KERNEL s' cpu \<longleftrightarrow> b = 0" "r = 1 \<Longrightarrow> b = 0" "r = 3 \<Longrightarrow> a = 2"
proof -
  have sync: "IN_KERNEL s' = IN_KERNEL u \<and> r = 1" if "sync_trap_entry c L E cpu u = Inr (r, s')" for u
    using that
    by (auto simp: sync_trap_entry_def set_state_from_running_def Inr_iffs
        dest!: next_trap_stack_level push_trap_of_level [OF assms(1)] push_prev_task_level)
  have irq: "IN_KERNEL s' = IN_KERNEL u \<and> r = 1" if "irq_trap_entry c L E cpu u = Inr (r, s')" for u
    using that
    by (cases "IS_SLEEPING u cpu") (auto simp: irq_trap_entry_def set_state_from_running_def Inr_iffs
        dest!: next_trap_stack_level push_trap_of_level [OF assms(1)] push_prev_task_level)
  let ?s = "\<lambda>k. s\<lparr>IN_KERNEL := (IN_KERNEL s)(cpu := k)\<rparr>"
  have b: "b = 0 \<or> b = 1" using assms(2) by (auto simp: trap_entry_def and_then_Inr_iff split: if_splits)
  then have "a = 0 \<and> b = 0 \<and> sync_trap_entry c L E cpu (?s True) = Inr (r, s') \<or>
    a = 1 \<and> b = 0 \<and> irq_trap_entry c L E cpu (?s True) = Inr (r, s') \<or>
    a = 2 \<and> r = 3 \<and> s' = ?s (b = 0)"
    using assms(2) by (elim disjE) (simp_all add: trap_entry_def user_irq_trap_entry_def and_then_Inr_iff split: if_splits)
  then have "(IN_KERNEL s' cpu \<longleftrightarrow> b = 0) \<and> (r = 1 \<longrightarrow> b = 0) \<and> (r = 3 \<longrightarrow> a = 2)"
  proof (elim disjE conjE)
    assume "b = 0" "sync_trap_entry c L E cpu (?s True) = Inr (r, s')"
    with sync [OF this(2)] show ?thesis by simp
  next
    assume "b = 0" "irq_trap_entry c L E cpu (?s True) = Inr (r, s')"
    with irq [OF this(2)] show ?thesis by simp
  qed simp
  then show "IN_KERNEL s' cpu \<longleftrightarrow> b = 0" "r = 1 \<Longrightarrow> b = 0" "r = 3 \<Longrightarrow> a = 2" by blast+
qed

text \<open>
  What the loop knows at each label: the register \<^verbatim>\<open>s1\<close> is the level the core is in. A trap
  enters with level 0 or 1, and the call from a user scheduler into the kernel with level 0.
\<close>

definition entry_args_ok :: "label \<Rightarrow> bool" where
  "entry_args_ok l \<longleftrightarrow> (case l of Raw_trap_entry a0 a1 \<Rightarrow> a1 \<in> {0, 1} \<and> (a0 = 2 \<longrightarrow> a1 = 0) | _ \<Rightarrow> True)"

definition level_ok :: "loop_state \<Rightarrow> bool" where
  "level_ok st \<longleftrightarrow>
     (let k = IN_KERNEL (machine st) (core st) in
      case at st of
        Raw_trap_entry a0 a1 \<Rightarrow> entry_args_ok (at st)
      | Raw_thread_entry \<Rightarrow> True
      | Raw_uschedule \<Rightarrow> reg_s1 st = 1 \<and> \<not> k
      | Raw_run_task \<Rightarrow> reg_s1 st = (if k then 0 else 1)
      | _ \<Rightarrow> reg_s1 st = 0 \<and> k)"

lemma branch_Next_iff:
  "branch table r st = Next st' \<longleftrightarrow> (\<exists>l. map_of table r = Some l \<and> st' = st\<lparr>at := l\<rparr>)"
  by (auto simp: branch_def split: option.splits)

lemma call_Next_iff:
  "call r f = Next st' \<longleftrightarrow> (\<exists>x. r = Inr x \<and> f x = Next st')"
  "call_loop r' f = Next st' \<longleftrightarrow> (\<exists>x. r' = Some (Inr x) \<and> f x = Next st')"
  by (auto simp: call_def call_loop_def split: sum.splits option.splits)

lemma loop_step_level:
  assumes "level_laws E" "level_ok st" "loop_step c L E st = Next st'"
  shows "level_ok st'"
proof (cases "at st")
  case (Raw_trap_entry a0 a1)
  then obtain r s where r: "trap_entry c L E (core st) (unat a0) (unat a1) (machine st) = Inr (r, s)"
    and b: "branch [(1, Raw_kschedule), (2, Raw_uschedule), (3, Raw_utok_schedule)] (of_nat r)
        (st\<lparr>reg_s1 := a1, machine := s\<rparr>) = Next st'"
    using assms(3) by (auto simp: loop_step_def call_Next_iff)
  have args: "a0 = 2 \<longrightarrow> a1 = 0"
    using assms(2) Raw_trap_entry by (auto simp: level_ok_def entry_args_ok_def Let_def)
  note lev = trap_entry_level [OF assms(1) r]
  from trap_entry_result [OF r] show ?thesis
  proof
    assume "r = 1"
    with lev b show ?thesis by (auto simp: branch_Next_iff level_ok_def unat_eq_0)
  next
    assume "r = 3"
    then have "unat a0 = 2" using lev(3) by simp
    then have "of_nat (unat a0) = (2 :: u64)" by simp
    then have "a0 = 2" by simp
    with \<open>r = 3\<close> lev(1) b args show ?thesis by (auto simp: branch_Next_iff level_ok_def)
  qed
next
  case Raw_thread_entry
  then obtain r s where r: "thread_entry c L E (core st) (machine st) = Inr (r, s)"
    and b: "branch [(0, Raw_kschedule), (1, Raw_uschedule)] ((of_nat r :: u64) AND 1)
        (st\<lparr>reg_s1 := of_nat r AND 1, reg_s2 := drop_bit 1 (of_nat r), machine := s\<rparr>) = Next st'"
    using assms(3) by (auto simp: loop_step_def call_Next_iff Let_def)
  have "r = 2 * (if CPU_NUM c = 1 then 1 else 0) + (if IN_KERNEL s (core st) then 0 else 1)"
    using thread_entry_result [OF r] by simp
  then have "(of_nat r :: u64) AND 1 = of_nat (if IN_KERNEL s (core st) then 0 else 1)"
    using phase2_bits(1) [of "if IN_KERNEL s (core st) then 0 else 1" "if CPU_NUM c = 1 then 1 else 0"]
    by auto
  with b show ?thesis by (auto simp: branch_Next_iff level_ok_def split: if_splits)
next
  case Raw_kschedule
  then obtain r s where "kschedule c L E (core st) (machine st) = Some (Inr (Inr r, s))"
    and b: "branch [(0, Raw_run_task), (1, Raw_krun_utask)] (of_nat r) (st\<lparr>machine := s\<rparr>) = Next st'"
    using assms(3) by (auto simp: loop_step_def call_Next_iff case_sum_eq_iff)
  then have "IN_KERNEL s = IN_KERNEL (machine st)" using kschedule_level [OF assms(1)] by blast
  with b assms(2) Raw_kschedule show ?thesis
    by (auto simp: branch_Next_iff level_ok_def split: if_splits)
next
  case Raw_uschedule
  then obtain u s where "uschedule c L E (core st) (unat (reg_s2 st)) (machine st) = Inr (Inr u, s)"
    and b: "st' = st\<lparr>at := Raw_run_task, machine := s\<rparr>"
    using assms(3) by (auto simp: loop_step_def call_Next_iff case_sum_eq_iff)
  then have "IN_KERNEL s = IN_KERNEL (machine st)" using uschedule_level [OF assms(1)] by blast
  with b assms(2) Raw_uschedule show ?thesis by (simp add: level_ok_def)
next
  case Raw_utok_schedule
  then obtain r s where "utok_schedule c L E (core st) (machine st) = Some (Inr (Inr r, s))"
    and b: "branch [(0, Raw_run_task), (1, Raw_krun_utask)] (of_nat r) (st\<lparr>machine := s\<rparr>) = Next st'"
    using assms(3) by (auto simp: loop_step_def call_Next_iff case_sum_eq_iff)
  then have "IN_KERNEL s = IN_KERNEL (machine st)" using utok_schedule_level [OF assms(1)] by blast
  with b assms(2) Raw_utok_schedule show ?thesis
    by (auto simp: branch_Next_iff level_ok_def split: if_splits)
next
  case Raw_run_task
  then obtain l cpu' s where "run_task c L E (core st) (unat (reg_s1 st)) (unat (reg_s2 st)) (machine st)
      = Inr (Inr (l, cpu'), s)"
    and b: "branch [(0, Raw_kschedule), (1, Raw_uschedule)] (of_nat l)
        (st\<lparr>reg_s1 := of_nat l, reg_s2 := 0, core := cpu', machine := s\<rparr>) = Next st'"
    using assms(3) by (auto simp: loop_step_def call_Next_iff case_sum_eq_iff)
  then have "l = (if IN_KERNEL s cpu' then 0 else 1)" using run_task_result by blast
  with b show ?thesis by (auto simp: branch_Next_iff level_ok_def split: if_splits)
next
  case Raw_krun_utask
  then show ?thesis using assms(3) by (auto simp: loop_step_def call_Next_iff)
qed

lemma loop_runs_level:
  "loop_runs c L E st st' \<Longrightarrow> level_laws E \<Longrightarrow> level_ok st \<Longrightarrow> level_ok st'"
  by (induction rule: runs.induct) (auto dest: loop_step_level)

text \<open>The undefined instructions are never reached.\<close>

lemma branch_not_Illegal: "r \<in> fst ` set table \<Longrightarrow> branch table r st \<noteq> Illegal"
  by (cases "map_of table r") (auto simp: branch_def map_of_eq_None_iff)

lemma loop_step_not_Illegal: "loop_step c L E st \<noteq> Illegal"
proof (cases "at st")
  case (Raw_trap_entry a0 a1)
  then show ?thesis
    by (auto simp: loop_step_def call_def intro!: branch_not_Illegal split: sum.splits
        dest!: trap_entry_result)
next
  case Raw_thread_entry
  have "(of_nat r :: u64) AND 1 = 0 \<or> (of_nat r :: u64) AND 1 = 1" for r :: nat
    by (simp add: and_one_eq mod_2_eq_odd)
  with Raw_thread_entry show ?thesis
    by (auto simp: loop_step_def call_def Let_def intro!: branch_not_Illegal split: sum.splits)
next
  case Raw_kschedule
  then show ?thesis
    by (auto simp: loop_step_def call_def call_loop_def intro!: branch_not_Illegal
        split: sum.splits option.splits dest!: kschedule_result)
next
  case Raw_uschedule
  then show ?thesis by (auto simp: loop_step_def call_def split: sum.splits)
next
  case Raw_utok_schedule
  then show ?thesis
    by (auto simp: loop_step_def call_def call_loop_def intro!: branch_not_Illegal
        split: sum.splits option.splits dest!: utok_schedule_result)
next
  case Raw_run_task
  then show ?thesis
    by (auto simp: loop_step_def call_def intro!: branch_not_Illegal split: sum.splits
        dest!: run_task_result)
next
  case Raw_krun_utask
  then show ?thesis by (auto simp: loop_step_def call_def split: sum.splits)
qed

end
