(* ===== verification/Example.thy ===== *)
theory Example
  imports Arch
begin

text \<open>
  An operating system that satisfies every law the development relies on, and a machine with
  two cores in the middle of its work: the laws are consistent, and the properties of the
  scheduler apply to a concrete state.
\<close>

section \<open>A system\<close>

definition first_free :: "(nat \<Rightarrow> bool) \<Rightarrow> nat \<Rightarrow> nat" where
  "first_free P n = length (takeWhile P [0..<n])"

lemma first_free:
  assumes "\<not> P n"
  shows "\<not> P (first_free P n)"
proof (cases "first_free P n < n")
  case True
  then have "length (takeWhile P [0..<n]) < length [0..<n]" by (simp add: first_free_def)
  then have "\<not> P ([0..<n] ! length (takeWhile P [0..<n]))" by (rule nth_length_takeWhile)
  with True show ?thesis by (simp add: first_free_def)
next
  case False
  have "first_free P n \<le> n"
    using length_takeWhile_le [of P "[0..<n]"] by (simp add: first_free_def)
  with False assms show ?thesis by simp
qed

text \<open>The even bits of the system's state are its stacks, the odd bits its tasks.\<close>

definition stack_live :: "nat \<Rightarrow> nat \<Rightarrow> bool" where
  "stack_live w x \<longleftrightarrow> bit w (2 * x)"

definition task_live :: "nat \<Rightarrow> task \<Rightarrow> bool" where
  "task_live w x \<longleftrightarrow> x < 50 \<or> bit w (2 * x + 1)"

definition new_stack :: "nat \<Rightarrow> nat" where
  "new_stack w = first_free (\<lambda>x. bit w (2 * x)) (Suc w)"

definition new_task :: "nat \<Rightarrow> nat" where
  "new_task w = 50 + first_free (\<lambda>x. bit w (2 * (50 + x) + 1)) (Suc w)"

definition example_stacks :: stack_os where
  "example_stacks = \<lparr>
     stk_alloc = (\<lambda>w. (new_stack w, Bit_Operations.set_bit (2 * new_stack w) w)),
     stk_dealloc = (\<lambda>s w. Bit_Operations.unset_bit (2 * s) w),
     stk_base = (\<lambda>s. 4096 * s + 4096)\<rparr>"

definition example_tcb :: "TaskState \<Rightarrow> tcb" where
  "example_tcb st = \<lparr>t_state = st, t_priority = 1, t_is_coroutine = False, t_is_kernel = True,
     t_pid = 0, t_thread_stack = 40, t_return_value = None, t_dealloced = False\<rparr>"

definition example_os :: os where
  "example_os = \<lparr>
     os_stack = example_stacks,
     os_task_live = task_live,
     os_new_handler = (\<lambda>p s. (new_task (WORLD s),
       s\<lparr>TCBS := (TCBS s)(new_task (WORLD s) := example_tcb Ready),
         WORLD := Bit_Operations.set_bit (2 * new_task (WORLD s) + 1) (WORLD s)\<rparr>)),
     os_from_task = (\<lambda>t s. (t, s)),
     os_handle = (\<lambda>info t cpu s. (cpu, s)),
     os_resched = (\<lambda>t cpu s. (cpu, s)),
     os_poll = (\<lambda>t cpu s. (if t = 42 then Some 7 else None, cpu, s)),
     os_wfi = (\<lambda>cpu s. None),
     os_observed = (\<lambda>t s. [Blocking, Blocked]),
     os_get_user_data = (\<lambda>v. v),
     os_get_user_addr = map_all,
     os_ext_hightest_priority = (\<lambda>n cpu s. 0),
     os_ext_take_task = (\<lambda>n cpu s. ((None, 0), s))\<rparr>"

lemma big_bit: "w \<le> n \<Longrightarrow> \<not> bit (w :: nat) n"
proof -
  assume "w \<le> n"
  then have "w < 2 ^ n" using less_exp [of n] by linarith
  then show ?thesis by (simp add: bit_iff_odd)
qed

lemma new_stack_fresh: "\<not> bit w (2 * new_stack w)"
  unfolding new_stack_def by (rule first_free) (simp add: big_bit)

lemma new_task_fresh: "\<not> task_live w (new_task w)"
proof -
  have "\<not> bit w (2 * (50 + first_free (\<lambda>x. bit w (2 * (50 + x) + 1)) (Suc w)) + 1)"
    by (rule first_free) (simp add: big_bit)
  then show ?thesis unfolding task_live_def new_task_def by simp
qed

lemma even_odd [simp]: "2 * x \<noteq> Suc (2 * y)" "Suc (2 * y) \<noteq> 2 * x" for x y :: nat
  by presburger+

lemma example_stack_laws: "stack_laws stack_live example_stacks"
  using new_stack_fresh
  by (auto simp: stack_laws_def stack_live_def example_stacks_def bit_set_bit_iff bit_unset_bit_iff)

lemma example_handler_laws: "handler_laws example_os"
  unfolding handler_laws_def
proof (intro allI impI)
  fix p s h s' assume "os_new_handler example_os p s = (h, s')"
  then have h: "h = new_task (WORLD s)" and s': "s' = s\<lparr>TCBS := (TCBS s)(h := example_tcb Ready),
      WORLD := Bit_Operations.set_bit (2 * h + 1) (WORLD s)\<rparr>"
    by (auto simp: example_os_def)
  have "os_task_live example_os = task_live" by (simp add: example_os_def)
  moreover have "task_live (Bit_Operations.set_bit (2 * h + 1) w) x \<longleftrightarrow> task_live w x \<or> x = h" for w x
    by (auto simp: task_live_def bit_set_bit_iff)
  ultimately show "\<not> os_task_live example_os (WORLD s) h \<and>
      (\<exists>tcb w. s' = s\<lparr>TCBS := (TCBS s)(h := tcb), WORLD := w\<rparr> \<and>
        (\<forall>x. os_task_live example_os (WORLD s) x \<or> x = h \<longrightarrow> os_task_live example_os w x) \<and>
        (t_state tcb = Ready \<or> t_state tcb = Blocked))"
    using new_task_fresh [of "WORLD s"] h s'
    by (intro conjI exI [of _ "example_tcb Ready"]
        exI [of _ "Bit_Operations.set_bit (2 * h + 1) (WORLD s)"]) (simp_all add: example_tcb_def)
qed

lemma example_memory_laws: "memory_laws c (list_lib c) example_os stack_live"
proof -
  have "handler_ok c (stacks_map (list_lib c)) stack_live (os_stack example_os)"
    using lib_lawsD(6) [OF list_lib_laws] example_stack_laws by (simp add: handler_ok_def example_os_def)
  moreover have "handler_keeps example_os (\<lambda>w. stack_live w x)" for x
    by (auto simp: handler_keeps_def example_os_def stack_live_def bit_set_bit_iff)
  moreover have "alloc_keeps (os_stack example_os) (\<lambda>w. os_task_live example_os w x)" for x
    by (auto simp: alloc_keeps_def example_os_def example_stacks_def task_live_def bit_set_bit_iff)
  ultimately show ?thesis by (simp add: memory_laws_def)
qed

lemma example_user_data_laws: "user_data_laws example_os"
  by (simp add: user_data_laws_def map_all_laws example_os_def)

section \<open>A machine\<close>

definition two_cores :: config where
  "two_cores = default_config\<lparr>CPU_NUM := 2\<rparr>"

lemma two_cores_ok: "config_ok two_cores" "CPU_NUM two_cores < 2 ^ 62"
  by (simp_all add: config_ok_def two_cores_def default_config_def)

lemma two_cores_sel [simp]:
  "CPU_NUM two_cores = 2" "EVENT_SORCE_NUM two_cores = 8" "READY_QUEUE_SIZE two_cores = 256"
  "TRAP_WAIT_QUEUE_SIZE two_cores = 256" "LOWEST_PRIORITY two_cores = 15"
  "HIGHEST_PRIORITY two_cores = 0" "PROCESS_NUM two_cores = 256" "STACK_POOL_SIZE two_cores = 16"
  by (simp_all add: two_cores_def default_config_def)

lemma two_cores_levels [simp]: "PRIORITY_LEVELS two_cores = 16"
  using PRIORITY_LEVELS_eq(1) [OF two_cores_ok(1)] by simp

text \<open>
  The kernel and one process, whose address space is the space 1; task 30 runs on core 0, the
  handlers 20 and 21 wait in the kernel's pool, task 25 waits for its trap to be handled; \<open>ready\<close> are the kernel's ready tasks, \<open>user\<close>
  the process's, \<open>traps\<close> the kernel's pending traps. Core 0 keeps the stack 3 for its next trap;
  the tasks run on the stack 40.
\<close>

definition kernel_entry :: "nat \<Rightarrow> es_type \<Rightarrow> bool \<Rightarrow> event_source_entry" where
  "kernel_entry k ty pc = EventSourceEntry_new (Kern (Source ty k)) (Kern (Source ty k)) (vtable_of ty pc)"

definition example_scheduler ::
  "nat \<Rightarrow> task list list \<Rightarrow> (nat \<Rightarrow> trap_item list) \<Rightarrow> task list \<Rightarrow> scheduler" where
  "example_scheduler k qs traps hs = \<lparr>
     sources = [kernel_entry k TRAP_WAIT_QUEUE True, kernel_entry k READY_QUEUE False],
     global_index = k, s_ready_queue = queue_of qs,
     s_trap_wait_queue = \<lparr>tw_queues = traps, idle_handlers = hs\<rparr>\<rparr>"

definition example_table :: "int \<Rightarrow> int \<Rightarrow> process_table" where
  "example_table kp up = \<lparr>
     pt_table = (replicate 256 ProcessInfo_empty)
       [0 := \<lparr>pi_valid = True, pi_highest_prio = (\<lambda>_. kp), pi_vspace = None, pi_scheduler = None\<rparr>,
        1 := \<lparr>pi_valid = True, pi_highest_prio = (\<lambda>_. up), pi_vspace = Some 1, pi_scheduler = Some 1\<rparr>],
     pt_next_i = 2\<rparr>"

definition example_tasks :: tcbs where
  "example_tasks t = example_tcb
     (if t = 30 then Running else if t = 20 \<or> t = 21 \<or> t = 25 then Blocked else if t = 22 then Blocking else Ready)"

definition example_sys ::
  "task list list \<Rightarrow> task list list \<Rightarrow> (nat \<Rightarrow> trap_item list) \<Rightarrow> int \<Rightarrow> int \<Rightarrow> sys" where
  "example_sys ready user traps kp up = \<lparr>
     TCBS = example_tasks,
     CURRENT_TASK = (\<lambda>_. Some 30),
     SCHEDULER_WAIT_CONTEXT = (\<lambda>_. Some 31),
     IS_SLEEPING = (\<lambda>_. False),
     KERNEL_SCHEDULER = Some 0,
     IN_KERNEL = (\<lambda>_. True),
     CURRENT_VSPACE = (\<lambda>_. 0),
     PROCESS_INFO_TABLE = example_table kp up,
     KERNEL_STACKS = \<lparr>free_stacks = (\<lambda>_. []), current_stack = (\<lambda>_. None),
       trap_stack = (\<lambda>i. if i = 0 then Some 3 else None)\<rparr>,
     USER_SCHEDULER = (\<lambda>k. if k = 0 then Some (example_scheduler 0 ready traps [20, 21])
       else if k = 1 then Some (example_scheduler 1 user (\<lambda>_. []) []) else None),
     STACK_HANDLER = (\<lambda>k. if k = 1 then Some (StackHandler_default (list_index_map 16)) else None),
     SSCRATCH = (\<lambda>_. 0),
     IRQ_ENABLED = (\<lambda>_. False),
     ACTIVE_VSPACE = (\<lambda>_. 0),
     DROPPED_TRAPS = [],
     DROPPED_VSPACES = [],
     WORLD = Bit_Operations.set_bit 80 (Bit_Operations.set_bit 6 0)\<rparr>"

lemma example_table_nth:
  "pt_table (example_table kp up) ! i =
     (if i = 0 then \<lparr>pi_valid = True, pi_highest_prio = (\<lambda>_. kp), pi_vspace = None, pi_scheduler = None\<rparr>
      else if i = 1 then \<lparr>pi_valid = True, pi_highest_prio = (\<lambda>_. up), pi_vspace = Some 1, pi_scheduler = Some 1\<rparr>
      else if i < 256 then ProcessInfo_empty else pt_table (example_table kp up) ! i)"
  by (auto simp: example_table_def nth_list_update nth_replicate)

lemma example_table_valid [simp]:
  "pt_valid_at (example_table kp up) i \<longleftrightarrow> i = 0 \<or> i = 1"
  by (auto simp: pt_valid_at_def example_table_def nth_list_update nth_replicate ProcessInfo_empty_def)

lemma example_table_prio [simp]:
  "pt_prio (example_table kp up) 0 cpu = kp"
  "pt_prio (example_table kp up) 1 cpu = up"
  "pt_prio (example_table kp up) (Suc 0) cpu = up"
  "length (pt_table (example_table kp up)) = 256"
  "pt_next_i (example_table kp up) = 2"
  by (simp_all add: pt_prio_def example_table_def)

lemma example_table_inv:
  assumes "kp \<le> isize_MAX" "up \<le> isize_MAX"
  shows "pt_inv two_cores (example_table kp up)"
  using assms
  by (auto simp: pt_inv_def pt_valid_at_def pt_prio_def example_table_def nth_list_update
      ProcessInfo_empty_def split: if_splits)

lemma kernel_entry_for: "entry_for k True vs ty pc (kernel_entry k ty pc)"
  by (simp add: entry_for_def kernel_entry_def entry_data_def EventSourceEntry_new_def vtable_of_def
      vt_hightest_priority_def vt_take_task_def EventSourceVtable_new_def)

lemma example_sched_ok:
  assumes "length ready = 16" "\<forall>q \<in> set ready. length q \<le> 256"
    and "length user = 16" "\<forall>q \<in> set user. length q \<le> 256"
    and "kp \<le> isize_MAX" "up \<le> isize_MAX" "cpu < 2" "k < 2"
  shows "sched_ok two_cores (list_lib two_cores) example_os k cpu (example_sys ready user traps kp up)"
proof -
  have rq: "rq_inv two_cores (queue_of ready)" "rq_inv two_cores (queue_of user)"
    using assms(1-4) by (auto intro!: queue_of_inv)
  have live: "os_task_live example_os = task_live" by (simp add: example_os_def)
  show ?thesis
    using assms(5-8) rq example_table_inv [of kp up] example_handler_laws two_cores_ok
      kernel_entry_for [of k 0]
    by (auto simp: sched_ok_def twq_ok_def example_sys_def example_scheduler_def idle_inv_def
        in_kernel_def live task_live_def example_tasks_def example_tcb_def less_2_cases_iff)
qed

lemma example_kernel_ok:
  assumes "length ready = 16" "\<forall>q \<in> set ready. length q \<le> 256"
    and "length user = 16" "\<forall>q \<in> set user. length q \<le> 256"
    and "kp \<le> isize_MAX" "up \<le> isize_MAX" "cpu < 2"
  shows "kernel_ok two_cores (list_lib two_cores) example_os cpu (example_sys ready user traps kp up)"
  using example_sched_ok [OF assms, of 0]
  by (simp add: kernel_ok_def example_sys_def sched_of_def example_scheduler_def)

text \<open>The ready queue of the machine's kernel, as lists.\<close>

lemma example_rq_abs:
  "rq_abs two_cores (rq_of (example_sys (one_queue q) user traps kp up) 0) = (\<lambda>p. if p = 1 then q else [])"
proof -
  have "rq_abs two_cores = rq_abs default_config"
    by (simp add: rq_abs_def [abs_def] in_range_def slot_def cong: if_cong)
  then show ?thesis
    using example_queue_abs [of q]
    by (simp add: rq_of_def sched_of_def example_sys_def example_scheduler_def example_queue_def)
qed

text \<open>Taking a handler for a trap succeeds on this machine.\<close>

lemma example_take_trap:
  "\<exists>s'. twq_take_task two_cores (list_lib two_cores) example_os 0
    (example_sys ready user (\<lambda>_. [(info, t)]) kp up) cpu = Inr ((Some 20, 0), s')"
proof -
  have "deque_laws 256 (trap_deque (list_lib two_cores))" "deque_laws 256 (idle_deque (list_lib two_cores))"
    by (simp_all add: list_lib_def)
  from deque_lawsD [OF this(1)] deque_lawsD [OF this(2)] show ?thesis
    by (simp add: twq_take_task_def scheduler_at_def example_sys_def example_scheduler_def
        get_idle_handler_def set_twq_def match_set_state_def example_tasks_def example_tcb_def
        obtain_handler_def ACTIVE_PRIORITY_def)
qed

text \<open>Its stacks, and the traps the system saves.\<close>

lemma example_own:
  "own_inv two_cores stack_live (KERNEL_STACKS (example_sys ready user traps kp up),
     WORLD (example_sys ready user traps kp up))"
proof -
  have "{..<2 :: nat} = {0, 1}" by auto
  then show ?thesis
    by (simp add: own_inv_def sh_inv_def held_def example_sys_def stack_live_def bit_set_bit_iff
        bit_iff_odd)
qed

lemma example_loose:
  "loose two_cores stack_live (KERNEL_STACKS (example_sys ready user traps kp up),
     WORLD (example_sys ready user traps kp up)) 40"
proof -
  have "{..<2 :: nat} = {0, 1}" by auto
  then show ?thesis
    by (simp add: loose_def held_def example_sys_def stack_live_def bit_set_bit_iff bit_iff_odd)
qed

lemma example_from_task_laws: "from_task_laws example_os stack_live"
proof -
  have "\<exists>w. s = s\<lparr>WORLD := w\<rparr> \<and> (\<forall>x. os_task_live example_os (WORLD s) x \<longrightarrow> os_task_live example_os w x) \<and>
      (\<forall>x. stack_live (WORLD s) x \<longrightarrow> stack_live w x)" for s :: sys
    by (intro exI [of _ "WORLD s"]) simp
  then show ?thesis unfolding from_task_laws_def by (simp add: example_os_def)
qed

text \<open>The queues of the process.\<close>

lemma example_user_abs:
  "rq_abs two_cores (rq_of (example_sys ready (one_queue q) traps kp up) 1) = (\<lambda>p. if p = 1 then q else [])"
  using example_rq_abs [of q] by (simp add: rq_of_def sched_of_def example_sys_def example_scheduler_def)

lemma example_not_pending:
  "\<not> rq_pending (rq_of (example_sys (one_queue []) user traps kp up) 0) cpu"
  by (auto simp: rq_pending_def rq_of_def sched_of_def example_sys_def example_scheduler_def
      queue_of_def one_queue_def)

text \<open>The same machine with both cores in user mode in the address space 1.\<close>

definition user_entry :: "es_type \<Rightarrow> bool \<Rightarrow> event_source_entry" where
  "user_entry ty pc = EventSourceEntry_new (Kern (Source ty 1)) (User 1 (Source ty 1))
     (EventSourceVtable_new (Kern (Hightest_priority_impl ty)) (User 1 (Hightest_priority_impl ty))
       (Kern (Take_task_impl ty)) (User 1 (Take_task_impl ty)) pc)"

definition user_mode_sys :: "task list list \<Rightarrow> int \<Rightarrow> int \<Rightarrow> sys" where
  "user_mode_sys user kp up = (example_sys (one_queue []) user (\<lambda>_. []) kp up)
     \<lparr>IN_KERNEL := (\<lambda>_. False), ACTIVE_VSPACE := (\<lambda>_. 1), CURRENT_VSPACE := (\<lambda>_. 1),
      USER_SCHEDULER := (\<lambda>k. if k = 1 then Some ((example_scheduler 1 user (\<lambda>_. []) [])
        \<lparr>sources := [user_entry TRAP_WAIT_QUEUE True, user_entry READY_QUEUE False]\<rparr>) else None)\<rparr>"

lemma user_entry_for: "entry_for (Suc 0) False (Suc 0) ty pc (user_entry ty pc)"
  by (simp add: entry_for_def user_entry_def entry_data_def EventSourceEntry_new_def
      vt_hightest_priority_def vt_take_task_def EventSourceVtable_new_def)

lemma user_mode_sched_ok:
  assumes "length user = 16" "\<forall>q \<in> set user. length q \<le> 256" "kp \<le> isize_MAX" "up \<le> isize_MAX" "cpu < 2"
  shows "sched_ok two_cores (list_lib two_cores) example_os 1 cpu (user_mode_sys user kp up)"
proof -
  have rq: "rq_inv two_cores (queue_of user)" using assms(1,2) by (auto intro!: queue_of_inv)
  show ?thesis
    using assms(3-5) rq example_table_inv [of kp up] example_handler_laws two_cores_ok user_entry_for
    by (auto simp: sched_ok_def twq_ok_def user_mode_sys_def example_sys_def example_scheduler_def idle_inv_def
        in_kernel_def less_2_cases_iff)
qed

lemma user_mode_rq_abs:
  "rq_abs two_cores (rq_of (user_mode_sys (one_queue q) kp up) 1) = (\<lambda>p. if p = 1 then q else [])"
  using example_user_abs [of "one_queue []" q "\<lambda>_. []" kp up]
  by (simp add: rq_of_def sched_of_def user_mode_sys_def example_sys_def example_scheduler_def)

end
