(* ===== verification/Core_Stacks.thy ===== *)
theory Core_Stacks
  imports Stack_Handler
begin

text \<open>
  The contract between the stack handler and the code that moves a core from stack to stack: a
  core may give its stack to the system, may ask for an empty stack, and may enter a stack the
  handler does not hold. The stack of a thread that has given up its core stays outside the
  handler, whatever the cores do, until a core enters it again.
\<close>

section \<open>The contract\<close>

locale core_stacks =
  fixes invar :: "'st \<Rightarrow> bool"
    and current :: "'st \<Rightarrow> nat option"
    and outside :: "'st \<Rightarrow> nat \<Rightarrow> bool"
    and base :: "nat \<Rightarrow> nat"
    and take_stack :: "'st \<Rightarrow> (nat \<times> 'st) result"
    and empty_stack :: "'st \<Rightarrow> (nat \<times> 'st) result"
    and enter_stack :: "nat option \<Rightarrow> 'st \<Rightarrow> 'st result"
  assumes take_law: "invar st \<Longrightarrow> current st = Some s \<Longrightarrow> \<exists>st'. take_stack st = Inr (s, st') \<and> invar st' \<and>
      current st' = None \<and> outside st' s \<and> (\<forall>y. outside st y \<longrightarrow> outside st' y)"
    and take_none: "invar st \<Longrightarrow> current st = None \<Longrightarrow> \<exists>e. take_stack st = Inl e"
    and empty_law: "invar st \<Longrightarrow> \<exists>s st'. empty_stack st = Inr (base s, st') \<and> invar st' \<and>
      current st' = Some s \<and> (current st \<noteq> None \<longrightarrow> st' = st) \<and>
      (\<forall>y. outside st y \<longrightarrow> outside st' y \<and> y \<noteq> s)"
    and enter_law: "invar st \<Longrightarrow> \<forall>s. x = Some s \<longrightarrow> outside st s \<Longrightarrow> \<exists>st'. enter_stack x st = Inr st' \<and>
      invar st' \<and> current st' = x \<and> (\<forall>y. outside st y \<longrightarrow> x \<noteq> Some y \<longrightarrow> outside st' y)"
begin

text \<open>Asking for an empty stack twice gives the same stack.\<close>

lemma empty_again:
  assumes "invar st" "empty_stack st = Inr (b, st')"
  shows "empty_stack st' = Inr (b, st')"
proof -
  obtain s where s: "b = base s" "invar st'" "current st' = Some s" using empty_law [OF assms(1)] assms(2) by auto
  with empty_law [OF s(2)] show ?thesis by auto
qed

text \<open>Each operation keeps the invariant, and a stack outside stays outside unless it is entered.\<close>

lemma take_keeps:
  assumes "invar st" "take_stack st = Inr (s, st')"
  shows "invar st'" "outside st y \<Longrightarrow> outside st' y" "current st = Some s" "outside st' s"
proof -
  obtain a where a: "current st = Some a" using take_none [OF assms(1)] assms(2) by (cases "current st") auto
  from take_law [OF assms(1) a] assms(2) a
  show "invar st'" "outside st y \<Longrightarrow> outside st' y" "current st = Some s" "outside st' s" by auto
qed

lemma empty_keeps:
  assumes "invar st" "empty_stack st = Inr (b, st')"
  shows "invar st'" "outside st y \<Longrightarrow> outside st' y"
  using empty_law [OF assms(1)] assms(2) by auto

lemma enter_keeps:
  assumes "invar st" "enter_stack x st = Inr st'" "\<And>s. x = Some s \<Longrightarrow> outside st s \<and> s \<noteq> y"
  shows "invar st'" "outside st y \<Longrightarrow> outside st' y"
  using enter_law [OF assms(1), of x] assms(2,3) by auto

end

section \<open>The stack handler keeps it\<close>

definition stacks_inv ::
  "config \<Rightarrow> index_map_ops \<Rightarrow> (nat \<Rightarrow> nat \<Rightarrow> bool) \<Rightarrow> stack_os \<Rightarrow> nat \<Rightarrow> stacks \<Rightarrow> bool" where
  "stacks_inv c M live S i st \<longleftrightarrow> handler_ok c M live S \<and> i < CPU_NUM c \<and> own_inv c live st"

lemma take_current_stack_spec:
  assumes "own_inv c live (sh, w)" "i < CPU_NUM c" "current_stack sh i = Some s"
  obtains sh' where "take_current_stack (sh, w) i = Inr (s, (sh', w))" "own_inv c live (sh', w)"
    "current_stack sh' = (current_stack sh)(i := None)" "loose c live (sh', w) s"
    "\<And>y. loose c live (sh, w) y \<Longrightarrow> loose c live (sh', w) y"
proof -
  let ?sh = "sh\<lparr>current_stack := (current_stack sh)(i := None)\<rparr>"
  have h: "held c ?sh + {#s#} = held c sh" using held_current [OF assms(2), of sh None] assms(3) by simp
  have l: "length (free_stacks ?sh j) \<le> STACK_POOL_SIZE c" if "j < CPU_NUM c" for j
    using own_invD(2) [OF assms(1) that] by simp
  note lose = own_inv_lose [OF assms(1) h l]
  have "y \<in># held c ?sh \<Longrightarrow> y \<in># held c sh" for y using arg_cong [OF h, of "\<lambda>m. y \<in># m"] by simp
  then show thesis
    by (intro that [of ?sh]) (use assms(3) lose in \<open>auto simp: take_current_stack_def loose_def\<close>)
qed

interpretation handler: core_stacks "stacks_inv c M live S i" "\<lambda>st. current_stack (fst st) i" "loose c live"
    "stk_base S" "\<lambda>st. take_current_stack st i" "\<lambda>st. get_empty_stack c M S i st k"
    "\<lambda>x st. get_thread_stack c M S i st x k"
  for c M live S i k
proof (unfold_locales, goal_cases)
  case (1 st s)
  obtain sh w where st: "st = (sh, w)" by (cases st)
  with 1 obtain sh' where "take_current_stack (sh, w) i = Inr (s, (sh', w))" "own_inv c live (sh', w)"
    "current_stack sh' = (current_stack sh)(i := None)" "loose c live (sh', w) s"
    "\<And>y. loose c live (sh, w) y \<Longrightarrow> loose c live (sh', w) y"
    by (auto simp: stacks_inv_def elim: take_current_stack_spec)
  with 1 st show ?case by (auto simp: stacks_inv_def)
next
  case (2 st)
  then show ?case by (cases st) (auto simp: take_current_stack_def)
next
  case (3 st)
  obtain sh w where st: "st = (sh, w)" by (cases st)
  with 3 have i: "handler_ok c M live S" "own_inv c live (sh, w)" "i < CPU_NUM c" by (simp_all add: stacks_inv_def)
  obtain s sh' w' where "get_empty_stack c M S i (sh, w) k = Inr (stk_base S s, (sh', w'))"
    "own_inv c live (sh', w')" "current_stack sh' i = Some s" "current_stack sh i \<noteq> None \<Longrightarrow> (sh', w') = (sh, w)"
    "\<And>y. loose c live (sh, w) y \<Longrightarrow> loose c live (sh', w') y \<and> y \<noteq> s"
    using get_empty_stack_spec [OF i] by metis
  with i st show ?case by (intro exI [of _ s] exI [of _ "(sh', w')"]) (auto simp: stacks_inv_def)
next
  case (4 st x)
  obtain sh w where st: "st = (sh, w)" by (cases st)
  with 4 have i: "handler_ok c M live S" "own_inv c live (sh, w)" "i < CPU_NUM c"
    and x: "\<And>s. x = Some s \<Longrightarrow> loose c live (sh, w) s" by (auto simp: stacks_inv_def)
  obtain sh' w' where "get_thread_stack c M S i (sh, w) x k = Inr (sh', w')" "own_inv c live (sh', w')"
    "current_stack sh' = (current_stack sh)(i := x)"
    "\<And>y. loose c live (sh, w) y \<Longrightarrow> x \<noteq> Some y \<Longrightarrow> loose c live (sh', w') y"
    using get_thread_stack_spec [OF i x, where k = k] by metis
  with i st show ?case by (intro exI [of _ "(sh', w')"]) (auto simp: stacks_inv_def)
qed

section \<open>What other cores do meanwhile\<close>

text \<open>Any operations of any cores, none of which enters the stack \<open>x\<close>.\<close>

inductive stack_steps ::
  "config \<Rightarrow> index_map_ops \<Rightarrow> (nat \<Rightarrow> nat \<Rightarrow> bool) \<Rightarrow> stack_os \<Rightarrow> nat \<Rightarrow> stacks \<Rightarrow> stacks \<Rightarrow> bool"
  for c M live S x where
  none: "stack_steps c M live S x st st"
| take_step: "stack_steps c M live S x st st1 \<Longrightarrow> i < CPU_NUM c \<Longrightarrow>
    take_current_stack st1 i = Inr (s, st2) \<Longrightarrow> stack_steps c M live S x st st2"
| empty_step: "stack_steps c M live S x st st1 \<Longrightarrow> i < CPU_NUM c \<Longrightarrow>
    get_empty_stack c M S i st1 k = Inr (b, st2) \<Longrightarrow> stack_steps c M live S x st st2"
| enter_step: "stack_steps c M live S x st st1 \<Longrightarrow> i < CPU_NUM c \<Longrightarrow>
    (\<forall>s. ts = Some s \<longrightarrow> loose c live st1 s \<and> s \<noteq> x) \<Longrightarrow>
    get_thread_stack c M S i st1 ts k = Inr st2 \<Longrightarrow> stack_steps c M live S x st st2"

lemma stack_steps_keep:
  assumes "stack_steps c M live S x st st'" "handler_ok c M live S" "own_inv c live st" "loose c live st x"
  shows "own_inv c live st' \<and> loose c live st' x"
  using assms
proof (induction rule: stack_steps.induct)
  case (take_step st st1 i s st2)
  then have "stacks_inv c M live S i st1" by (simp add: stacks_inv_def)
  from handler.take_keeps(1,2) [OF this take_step(3)] take_step show ?case by (auto simp: stacks_inv_def)
next
  case (empty_step st st1 i k b st2)
  then have "stacks_inv c M live S i st1" by (simp add: stacks_inv_def)
  from handler.empty_keeps [OF this empty_step(3)] empty_step show ?case by (auto simp: stacks_inv_def)
next
  case (enter_step st st1 i ts k st2)
  then have "stacks_inv c M live S i st1" by (simp add: stacks_inv_def)
  from handler.enter_keeps [OF this enter_step(4), of x] enter_step show ?case by (auto simp: stacks_inv_def)
qed simp

lemma loose_not_current: "loose c live st x \<Longrightarrow> i < CPU_NUM c \<Longrightarrow> current_stack (fst st) i \<noteq> Some x"
  using current_in_held [of i c "fst st" x] by (auto simp: loose_def)

lemma stack_comes_back:
  assumes "handler_ok c M live S" "own_inv c live st" "i < CPU_NUM c" "current_stack (fst st) i = Some x"
  obtains st1 where "take_current_stack st i = Inr (x, st1)"
    "\<And>st2 j k. stack_steps c M live S x st1 st2 \<Longrightarrow> j < CPU_NUM c \<Longrightarrow>
      (\<forall>m < CPU_NUM c. current_stack (fst st2) m \<noteq> Some x) \<and>
      (\<exists>st3. get_thread_stack c M S j st2 (Some x) k = Inr st3 \<and> own_inv c live st3 \<and>
         current_stack (fst st3) j = Some x)"
proof -
  have "stacks_inv c M live S i st" using assms(1-3) by (simp add: stacks_inv_def)
  from handler.take_law [OF this assms(4)] obtain st1 where
    t: "take_current_stack st i = Inr (x, st1)" "own_inv c live st1" "loose c live st1 x" by (auto simp: stacks_inv_def)
  show thesis
  proof (rule that [OF t(1)])
    fix st2 j k assume s: "stack_steps c M live S x st1 st2" "j < CPU_NUM c"
    have o: "own_inv c live st2" "loose c live st2 x" using stack_steps_keep [OF s(1) assms(1) t(2,3)] by simp_all
    then have "stacks_inv c M live S j st2" using assms(1) s(2) by (simp add: stacks_inv_def)
    from handler.enter_law [OF this, of "Some x" k] o(2)
    show "(\<forall>m < CPU_NUM c. current_stack (fst st2) m \<noteq> Some x) \<and>
      (\<exists>st3. get_thread_stack c M S j st2 (Some x) k = Inr st3 \<and> own_inv c live st3 \<and>
         current_stack (fst st3) j = Some x)"
      using loose_not_current [OF o(2)] by (auto simp: stacks_inv_def)
  qed
qed

end
