(* ===== verification/Component_Properties.thy ===== *)
theory Component_Properties
  imports Example Core_Stacks
begin

text \<open>
  The properties of the stacks, the trap wait queue, the scheduler and the trap handlers, each
  with a concrete instance on the machine of \<open>Example\<close>.
\<close>

section \<open>Stacks\<close>

text \<open>
  Whatever stack a core runs on, \<^verbatim>\<open>get_empty_stack\<close> succeeds; the core then runs on the
  stack whose base is returned, the one it had or else one no core has, the other cores' stacks
  and the trap stacks stay, and still no stack is held twice.
\<close>

lemma get_empty_stack_own:
  assumes "handler_ok c M live S" "own_inv c live (sh, w)" "cpu < CPU_NUM c"
  shows "\<exists>s sh' w'. get_empty_stack c M S cpu (sh, w) k = Inr (stk_base S s, (sh', w')) \<and>
    own_inv c live (sh', w') \<and> current_stack sh' = (current_stack sh)(cpu := Some s) \<and>
    trap_stack sh' = trap_stack sh \<and>
    (current_stack sh cpu \<noteq> None \<longrightarrow> current_stack sh cpu = Some s) \<and>
    (current_stack sh cpu = None \<longrightarrow> (\<forall>i < CPU_NUM c. current_stack sh i \<noteq> Some s))"
proof -
  obtain s sh' w' where g: "get_empty_stack c M S cpu (sh, w) k = Inr (stk_base S s, (sh', w'))"
    "own_inv c live (sh', w')" "current_stack sh' cpu = Some s"
    "\<And>i. i \<noteq> cpu \<Longrightarrow> current_stack sh' i = current_stack sh i" "trap_stack sh' = trap_stack sh"
    "current_stack sh cpu \<noteq> None \<Longrightarrow> (sh', w') = (sh, w)"
    using get_empty_stack_spec [OF assms] by metis
  have "current_stack sh' = (current_stack sh)(cpu := Some s)" using g(3,4) by auto
  moreover have "current_stack sh i \<noteq> Some s" if "current_stack sh cpu = None" "i < CPU_NUM c" for i
    using current_stacks_differ [OF g(2) assms(3) that(2) _ g(3)] g(4) that(1) by (cases "i = cpu") auto
  moreover have "current_stack sh cpu = Some s" if "current_stack sh cpu \<noteq> None"
    using g(3) g(6) [OF that] by simp
  ultimately show ?thesis using g(1,2,5)
    by (intro exI [of _ s] exI [of _ sh'] exI [of _ w'] conjI impI allI) blast+
qed

lemma get_empty_stack_own_witness:
  "\<exists>s sh' w'. get_empty_stack two_cores (list_index_map 16) example_stacks 0
       (StackHandler_default (list_index_map 16), 5) 0 = Inr (4096 * s + 4096, (sh', w')) \<and>
     current_stack sh' 0 = Some s"
proof -
  have h: "handler_ok two_cores (list_index_map 16) stack_live example_stacks"
    using list_index_map_laws [of 16] example_stack_laws by (simp add: handler_ok_def)
  have "own_inv two_cores stack_live (StackHandler_default (list_index_map 16), 5)"
    by (simp add: own_inv_def sh_inv_def held_def StackHandler_default_def list_index_map_def)
  from get_empty_stack_own [OF h this, of 0 0] show ?thesis by (auto simp: example_stacks_def)
qed

text \<open>
  Switching a core to the stack of a thread, a stack the handler does not hold, succeeds
  and returns the stack the core leaves to the pool or the system; giving up the stack of a
  core succeeds as well. No stack is held twice after it.
\<close>

lemma get_thread_stack_own:
  assumes "handler_ok c M live S" "own_inv c live (sh, w)" "cpu < CPU_NUM c"
    and "\<And>s. ts = Some s \<Longrightarrow> loose c live (sh, w) s"
  shows "\<exists>sh' w'. get_thread_stack c M S cpu (sh, w) ts k = Inr (sh', w') \<and>
    own_inv c live (sh', w') \<and> current_stack sh' = (current_stack sh)(cpu := ts) \<and>
    trap_stack sh' = trap_stack sh"
  using get_thread_stack_spec [OF assms] by metis

lemma get_thread_stack_own_witness:
  "\<exists>sh' w'. get_thread_stack two_cores (list_index_map 16) example_stacks 1
       (StackHandler_default (list_index_map 16), 2 ^ 4) (Some 2) 0 = Inr (sh', w') \<and>
     current_stack sh' 1 = Some 2"
proof -
  have h: "handler_ok two_cores (list_index_map 16) stack_live example_stacks"
    using list_index_map_laws [of 16] example_stack_laws by (simp add: handler_ok_def)
  have o: "own_inv two_cores stack_live (StackHandler_default (list_index_map 16), 2 ^ 4)"
    by (simp add: own_inv_def sh_inv_def held_def StackHandler_default_def list_index_map_def)
  have l: "loose two_cores stack_live (StackHandler_default (list_index_map 16), 2 ^ 4) 2"
    by (simp add: loose_def held_def StackHandler_default_def list_index_map_def stack_live_def
        bit_iff_odd)
  have "\<exists>sh' w'. get_thread_stack two_cores (list_index_map 16) example_stacks 1
      (StackHandler_default (list_index_map 16), 2 ^ 4) (Some 2) 0 = Inr (sh', w') \<and>
      own_inv two_cores stack_live (sh', w') \<and>
      current_stack sh' = (current_stack (StackHandler_default (list_index_map 16)))(1 := Some 2) \<and>
      trap_stack sh' = trap_stack (StackHandler_default (list_index_map 16))"
    by (rule get_thread_stack_own [OF h o]) (use l in simp_all)
  then show ?thesis by auto
qed

text \<open>
  C28: The stack of a thread that gives up its core is handed to nobody and comes back to it: after
  \<^verbatim>\<open>take_current_stack\<close>, whatever the cores do with other stacks (take theirs, ask for empty ones,
  enter those of other threads, give theirs up), no core runs on the thread's stack, and any core
  can enter it again, with no stack held twice.
\<close>

theorem thread_stack_comes_back:
  assumes "handler_ok c M live S" "own_inv c live st" "i < CPU_NUM c" "current_stack (fst st) i = Some x"
  shows "\<exists>st1. take_current_stack st i = Inr (x, st1) \<and>
    (\<forall>st2 j k. stack_steps c M live S x st1 st2 \<longrightarrow> j < CPU_NUM c \<longrightarrow>
       (\<forall>m < CPU_NUM c. current_stack (fst st2) m \<noteq> Some x) \<and>
       (\<exists>st3. get_thread_stack c M S j st2 (Some x) k = Inr st3 \<and> own_inv c live st3 \<and>
          current_stack (fst st3) j = Some x))"
  by (rule stack_comes_back [OF assms]) blast

definition thread_on_stack_2 :: stacks where
  "thread_on_stack_2 = (\<lparr>free_stacks = (\<lambda>_. []), current_stack = (\<lambda>i. if i = 0 then Some 2 else None),
     trap_stack = (\<lambda>_. None)\<rparr>, 2 ^ 4)"

lemma thread_stack_comes_back_witness:
  "\<exists>st1 b st2 st3. take_current_stack thread_on_stack_2 0 = Inr (2, st1) \<and>
     get_empty_stack two_cores (list_index_map 16) example_stacks 0 st1 1 = Inr (b, st2) \<and>
     get_thread_stack two_cores (list_index_map 16) example_stacks 1 st2 (Some 2) 0 = Inr st3 \<and>
     current_stack (fst st3) 1 = Some 2"
proof -
  let ?M = "list_index_map 16"
  have h: "handler_ok two_cores ?M stack_live example_stacks"
    using list_index_map_laws [of 16] example_stack_laws by (simp add: handler_ok_def)
  have o: "own_inv two_cores stack_live thread_on_stack_2"
    by (simp add: own_inv_def sh_inv_def held_def thread_on_stack_2_def stack_live_def bit_iff_odd lessThan_nat_numeral)
  have x: "0 < CPU_NUM two_cores" "current_stack (fst thread_on_stack_2) 0 = Some 2"
    by (simp_all add: thread_on_stack_2_def)
  from thread_stack_comes_back [OF h o x] obtain st1 where t: "take_current_stack thread_on_stack_2 0 = Inr (2, st1)"
    "\<And>st2 j k. stack_steps two_cores ?M stack_live example_stacks 2 st1 st2 \<Longrightarrow> j < CPU_NUM two_cores \<Longrightarrow>
       (\<exists>st3. get_thread_stack two_cores ?M example_stacks j st2 (Some 2) k = Inr st3 \<and>
          current_stack (fst st3) j = Some 2)" by metis
  have "stacks_inv two_cores ?M stack_live example_stacks 0 thread_on_stack_2" using h o by (simp add: stacks_inv_def)
  from handler.take_keeps(1) [OF this t(1)]
  obtain b st2 where e: "get_empty_stack two_cores ?M example_stacks 0 st1 1 = Inr (b, st2)"
    using handler.empty_law [of two_cores ?M stack_live example_stacks 0 st1 1] by blast
  have "stack_steps two_cores ?M stack_live example_stacks 2 st1 st2"
    by (rule stack_steps.empty_step [OF stack_steps.none _ e]) simp
  moreover have "(1::nat) < CPU_NUM two_cores" by simp
  ultimately obtain st3 where "get_thread_stack two_cores ?M example_stacks 1 st2 (Some 2) 0 = Inr st3"
    "current_stack (fst st3) 1 = Some 2" using t(2) by blast
  with t(1) e show ?thesis by blast
qed

text \<open>
  Making a stack current on a core panics exactly when another core runs on that stack;
  otherwise it only changes the core's stack and returns the one before.
\<close>

lemma set_current_stack_exclusive:
  assumes "cpu < CPU_NUM c"
  shows "set_current_stack c S (sh, w) s cpu =
    (if \<exists>i < CPU_NUM c. i \<noteq> cpu \<and> current_stack sh i = Some s then Inl Explicit_panic
     else Inr (current_stack sh cpu, (sh\<lparr>current_stack := (current_stack sh)(cpu := Some s)\<rparr>, w)))"
proof (cases "\<exists>i < CPU_NUM c. i \<noteq> cpu \<and> current_stack sh i = Some s")
  case True
  then show ?thesis using set_current_stack_panic_iff [OF assms] by simp
next
  case False
  then have "set_current_stack c S (sh, w) s cpu \<noteq> Inl Explicit_panic"
    using set_current_stack_panic_iff [OF assms] by blast
  with False show ?thesis by (auto simp: set_current_stack_def split: if_splits)
qed

lemma set_current_stack_exclusive_witness:
  "set_current_stack two_cores example_stacks
     ((StackHandler_default (list_index_map 16))\<lparr>current_stack := (\<lambda>i. if i = 1 then Some 9 else None)\<rparr>, 0) 9 0 =
   Inl Explicit_panic"
  by (subst set_current_stack_exclusive) (simp_all add: less_2_cases_iff)

section \<open>The trap wait queue\<close>

text \<open>
  Taking a handler for a core's first trap from a pool that is not empty: the pool's first
  handler, in the address space of the trap and ready, comes out of the pool where it has saved
  its context, or has been seen to save it while the core polled; otherwise the core polls for
  ever. The traps stay queued.
\<close>

lemma twq_take_pooled:
  assumes "twq_ok c L E k s" "USER_SCHEDULER s k = Some sc"
    and "tw_queues (s_trap_wait_queue sc) cpu = (info, t) # items"
    and "idle_handlers (s_trap_wait_queue sc) = h # hs"
  shows "twq_take_task c L E k s cpu =
    (let s1 = set_scheduler k (sc\<lparr>s_trap_wait_queue := (s_trap_wait_queue sc)\<lparr>idle_handlers := hs\<rparr>\<rparr>) s in
     if t_state (TCBS s h) = Blocked \<or> Blocked \<in> set (os_observed E h s1) then
       Inr ((Some h, HIGHEST_PRIORITY c), s1\<lparr>TCBS := (TCBS s)(h := (TCBS s h)
         \<lparr>t_state := Ready, t_pid := trap_pid (TCBS s) t\<rparr>)\<rparr>)
     else Inl Spin)"
  using twq_take_head [OF assms] .

lemma twq_take_pooled_witness:
  "\<exists>s'. twq_take_task two_cores (list_lib two_cores) example_os 0
       (example_sys (one_queue []) (one_queue []) (\<lambda>_. [(70, Some 25)]) 0 16) 1 = Inr ((Some 20, 0), s')"
proof -
  have "sched_ok two_cores (list_lib two_cores) example_os 0 1
      (example_sys (one_queue []) (one_queue []) (\<lambda>_. [(70, Some 25)]) 0 16)"
    by (rule example_sched_ok) (simp_all add: one_queue_def isize_MAX_def)
  from twq_take_pooled [OF sched_okD(6) [OF this], of _ 1 70 "Some 25" "[]" 20 "[21]"]
  show ?thesis
    by (simp add: example_sys_def example_scheduler_def Let_def example_tasks_def example_tcb_def)
qed

text \<open>
  With an empty pool, taking a handler for a core's first trap creates one: a task that did
  not exist, ready and in the address space of the trap. The traps stay queued and the pool
  empty.
\<close>

lemma twq_take_new:
  assumes "twq_ok c L E k s" "USER_SCHEDULER s k = Some sc" "USER_SCHEDULER s (private_space s cpu) \<noteq> None"
    and "tw_queues (s_trap_wait_queue sc) cpu = (info, t) # items"
    and "idle_handlers (s_trap_wait_queue sc) = []"
  shows "\<exists>h tcb w. twq_take_task c L E k s cpu =
      Inr ((Some h, HIGHEST_PRIORITY c), s\<lparr>TCBS := (TCBS s)(h := tcb), WORLD := w\<rparr>) \<and>
    \<not> os_task_live E (WORLD s) h \<and> os_task_live E w h \<and>
    t_state tcb = Ready \<and> t_pid tcb = trap_pid (TCBS s) t"
proof -
  have o: "lib_laws c L" "handler_laws E" using assms(1) by (auto elim: twq_okE)
  note dq = deque_lawsD [OF lib_lawsD(2) [OF o(1)]]
  have "sc\<lparr>s_trap_wait_queue := (s_trap_wait_queue sc)\<lparr>idle_handlers := []\<rparr>\<rparr> = sc"
    using assms(5) by simp
  then have same: "set_scheduler k (sc\<lparr>s_trap_wait_queue := (s_trap_wait_queue sc)\<lparr>idle_handlers := []\<rparr>\<rparr>) s = s"
    using assms(2) by (simp add: set_scheduler_def fun_upd_idem)
  obtain h s2 where nh: "os_new_handler E (Some (private_space s cpu)) s = (h, s2)"
    by (cases "os_new_handler E (Some (private_space s cpu)) s")
  obtain tcb w where s2: "s2 = s\<lparr>TCBS := (TCBS s)(h := tcb), WORLD := w\<rparr>"
    and ready: "t_state tcb = Ready \<or> t_state tcb = Blocked" and new: "\<not> os_task_live E (WORLD s) h"
    and live: "os_task_live E w h"
    using handler_lawsE [OF o(2) nh] by metis
  have c: "create_new_handler (TCBS s2) h = Inr (h, (TCBS s2)(h := tcb\<lparr>t_state := Ready\<rparr>))"
    using ready by (auto simp: s2 create_new_handler_def match_set_state_def)
  have "twq_take_task c L E k s cpu = Inr ((Some h, HIGHEST_PRIORITY c),
      s\<lparr>TCBS := (TCBS s)(h := tcb\<lparr>t_state := Ready, t_pid := trap_pid (TCBS s) t\<rparr>), WORLD := w\<rparr>)"
    using assms(2-5) dq get_idle_handler_Nil [OF o(1)] nh c same
    by (auto simp: twq_take_task_def scheduler_at_def set_twq_def obtain_handler_def set_pid_def
        Let_def ACTIVE_PRIORITY_def s2)
  with new live show ?thesis
    by (intro exI [of _ h] exI [of _ "tcb\<lparr>t_state := Ready, t_pid := trap_pid (TCBS s) t\<rparr>"] exI [of _ w]) simp
qed

lemma twq_take_new_witness:
  "\<exists>h s'. twq_take_task two_cores (list_lib two_cores) example_os 0
       ((example_sys (one_queue []) (one_queue []) (\<lambda>_. [(70, None)]) 0 16)
         \<lparr>USER_SCHEDULER := (\<lambda>_. Some (example_scheduler 0 (one_queue []) (\<lambda>_. [(70, None)]) []))\<rparr>) 1 =
     Inr ((Some h, 0), s') \<and> t_pid (TCBS s' h) = 0"
proof -
  let ?sc = "example_scheduler 0 (one_queue []) (\<lambda>_. [(70, None)]) []"
  let ?s = "(example_sys (one_queue []) (one_queue []) (\<lambda>_. [(70, None)]) 0 16)\<lparr>USER_SCHEDULER := (\<lambda>_. Some ?sc)\<rparr>"
  have "twq_ok two_cores (list_lib two_cores) example_os 0 ?s"
    using two_cores_ok(1) example_handler_laws by (simp add: twq_ok_def example_scheduler_def idle_inv_def)
  from twq_take_new [OF this, of ?sc 1 70 None "[]"] show ?thesis
    by (auto simp: example_scheduler_def trap_pid_def)
qed

text \<open>
  Initialising the trap wait queue fills its pool with one handler per core: all of them
  different, existing, and blocked or about to block. Nothing else changes but the system's
  state and the handlers' control blocks.
\<close>

lemma twq_init_fills:
  assumes "config_ok c" "lib_laws c L" "handler_laws E" "USER_SCHEDULER s k = Some sc"
    and "idle_handlers (s_trap_wait_queue sc) = []"
  shows "\<exists>T w hs. twq_init c L E k s = Inr (s\<lparr>TCBS := T, WORLD := w,
      USER_SCHEDULER := (USER_SCHEDULER s)(k := Some (sc\<lparr>s_trap_wait_queue :=
        (s_trap_wait_queue sc)\<lparr>idle_handlers := hs\<rparr>\<rparr>))\<rparr>) \<and>
    length hs = CPU_NUM c \<and> distinct hs \<and>
    (\<forall>h \<in> set hs. (t_state (T h) = Blocked \<or> t_state (T h) = Blocking) \<and> os_task_live E w h)"
proof -
  obtain T w hs where "twq_init c L E k s = Inr (s\<lparr>TCBS := T, WORLD := w,
      USER_SCHEDULER := (USER_SCHEDULER s)(k := Some (sc\<lparr>s_trap_wait_queue :=
        (s_trap_wait_queue sc)\<lparr>idle_handlers := hs\<rparr>\<rparr>))\<rparr>)"
    "idle_inv c E w T hs" "length hs = CPU_NUM c"
    using twq_init_ok [OF assms(2-5) config_okD(2) [OF assms(1)]] by blast
  then show ?thesis by (intro exI [of _ T] exI [of _ w] exI [of _ hs]) (simp add: idle_inv_def)
qed

lemma twq_init_fills_witness:
  "\<exists>s'. twq_init two_cores (list_lib two_cores) example_os 0
       ((example_sys (one_queue []) (one_queue []) (\<lambda>_. []) 0 16)
         \<lparr>USER_SCHEDULER := (\<lambda>_. Some (example_scheduler 0 (one_queue []) (\<lambda>_. []) []))\<rparr>) = Inr s'"
  using twq_init_fills [OF two_cores_ok(1) list_lib_laws [of two_cores] example_handler_laws, of
      "(example_sys (one_queue []) (one_queue []) (\<lambda>_. []) 0 16)
         \<lparr>USER_SCHEDULER := (\<lambda>_. Some (example_scheduler 0 (one_queue []) (\<lambda>_. []) []))\<rparr>" 0
      "example_scheduler 0 (one_queue []) (\<lambda>_. []) []"]
  by (auto simp: example_scheduler_def)

section \<open>The scheduler\<close>

text \<open>
  Where a core has no trap pending, a scheduler gives it the ready task that has waited
  longest among those of the most urgent priority, removes it from the ready queue and changes
  no other task; the priority of its list is returned and published for every core, and one
  behind the lowest priority is returned and published for this core where there is no task.
\<close>

lemma pop_task_fifo:
  assumes "sched_ok c L E k cpu s" "\<not> twq_pending k s cpu"
  shows "\<exists>p s'. pop_task c L E k s cpu = Inr ((fst (fifo_take c (rq_abs c (rq_of s k))), p), s') \<and>
    rq_abs c (rq_of s' k) = snd (fifo_take c (rq_abs c (rq_of s k))) \<and>
    p = (case fifo_top c (rq_abs c (rq_of s k)) of None \<Rightarrow> LOWEST_PRIORITY c + 1 | Some q \<Rightarrow> q) \<and>
    (\<forall>i < CPU_NUM c. i = cpu \<or> p \<le> LOWEST_PRIORITY c \<longrightarrow>
       pt_prio (PROCESS_INFO_TABLE s') (global_index (sched_of s k)) i = p) \<and>
    TCBS s' = TCBS s"
proof -
  note D = sched_okD [OF assms(1)]
  have gi: "global_index (sched_of s k) < length (pt_table (PROCESS_INFO_TABLE s))"
    using D(9) pt_invD(1) [OF D(7)] by simp
  obtain r p rq' where t: "take_ref c (rq_of s k) = ((r, p), rq')" "rq_inv c rq'"
    "fifo_take c (rq_abs c (rq_of s k)) = (r, rq_abs c rq')"
    "p = (case fifo_top c (rq_abs c (rq_of s k)) of None \<Rightarrow> LOWEST_PRIORITY c + 1 | Some q \<Rightarrow> q)"
    by (rule sched_take_ref [OF assms(1)])
  show ?thesis
  proof (cases r)
    case None
    then have n: "fifo_top c (rq_abs c (rq_of s k)) = None"
      using t(3) by (auto simp: fifo_take_def Let_def split: option.splits)
    then have same: "rq_abs c rq' = rq_abs c (rq_of s k)" using t(3) by (auto simp: fifo_take_def)
    have "\<not> rq_pending (rq_of s k) cpu"
      using None t(1) take_ref_pending [OF _ D(1,8)] by fastforce
    from pop_task_none [OF assms this] show ?thesis
      using None n same t(3,4) gi by (auto simp: publish_prio)
  next
    case (Some x)
    from pop_task_ready [OF assms t(1) [unfolded Some]] show ?thesis
      using Some t(3,4) gi by (auto simp: publish_prio)
  qed
qed

lemma pop_task_fifo_witness:
  "\<exists>p s'. pop_task two_cores (list_lib two_cores) example_os 0
       (example_sys (one_queue [41, 42]) (one_queue []) (\<lambda>_. []) 0 16) 1 = Inr ((Some 41, p), s')"
proof -
  let ?s = "example_sys (one_queue [41, 42]) (one_queue []) (\<lambda>_. []) 0 16"
  have "sched_ok two_cores (list_lib two_cores) example_os 0 1 ?s"
    by (rule example_sched_ok) (simp_all add: one_queue_def isize_MAX_def)
  moreover have "\<not> twq_pending 0 ?s 1"
    by (simp add: twq_pending_def twq_of_def example_sys_def example_scheduler_def)
  moreover have "fst (fifo_take two_cores (rq_abs two_cores (rq_of ?s 0))) = Some 41"
    by (simp add: example_rq_abs fifo_take_def fifo_top_def)
  ultimately show ?thesis using pop_task_fifo by metis
qed

text \<open>
  Where a core has a trap pending, a scheduler that gives it a task gives it a handler,
  ready and in the address space of the trap, before any ready task, with the highest priority,
  published for this core alone. The ready queue and the traps of all cores stay as they are.
\<close>

lemma pop_task_trap_first:
  assumes "sched_ok c L E k cpu s" "tw_queues (twq_of s k) cpu = (info, t) # items"
    and "pop_task c L E k s cpu = Inr ((r, p), s')"
  shows "\<exists>h. r = Some h \<and> t_state (TCBS s' h) = Ready \<and> t_pid (TCBS s' h) = trap_pid (TCBS s) t \<and>
    p = HIGHEST_PRIORITY c \<and> rq_of s' k = rq_of s k \<and> tw_queues (twq_of s' k) = tw_queues (twq_of s k) \<and>
    (\<forall>x. x \<noteq> h \<longrightarrow> TCBS s' x = TCBS s x) \<and>
    (\<forall>j i. pt_prio (PROCESS_INFO_TABLE s') j i =
      (if j = global_index (sched_of s k) \<and> i = cpu then p else pt_prio (PROCESS_INFO_TABLE s) j i))"
proof -
  note D = sched_okD [OF assms(1)]
  have pend: "twq_pending k s cpu" using assms(2) by (simp add: twq_pending_def)
  have gi: "global_index (sched_of s k) < length (pt_table (PROCESS_INFO_TABLE s))"
    using D(9) pt_invD(1) [OF D(7)] by simp
  have inv: "idle_inv c E (WORLD s) (TCBS s) (idle_handlers (s_trap_wait_queue (sched_of s k)))"
    using D(6,10) by (auto elim: twq_okE)
  obtain np s1 where tk: "twq_take_task c L E k s cpu = Inr ((r, np), s1)" "p = HIGHEST_PRIORITY c"
    "s' = publish (global_index (sched_of s k)) (\<lambda>i. i = cpu) p s1"
    using assms(3) by (auto simp: pop_task_trap [OF assms(1) pend] and_then_Inr_iff)
  obtain h tcb w where h: "r = Some h" "t_state tcb = Ready" "t_pid tcb = trap_pid (TCBS s) t"
    "s1 = s\<lparr>TCBS := (TCBS s)(h := tcb), WORLD := w, USER_SCHEDULER := (USER_SCHEDULER s)(k :=
       Some ((sched_of s k)\<lparr>s_trap_wait_queue := (s_trap_wait_queue (sched_of s k))
         \<lparr>idle_handlers := tl (idle_handlers (s_trap_wait_queue (sched_of s k)))\<rparr>\<rparr>))\<rparr>"
    using twq_take_busy [OF D(2,3,10) inv assms(2) [unfolded D(11)] tk(1)] by metis
  have v: "rq_of s1 k = rq_of s k" "tw_queues (twq_of s1 k) = tw_queues (twq_of s k)"
    "PROCESS_INFO_TABLE s1 = PROCESS_INFO_TABLE s" "TCBS s1 = (TCBS s)(h := tcb)"
    using D(11) by (simp_all add: h(4) rq_of_def sched_of_def twq_of_def)
  show ?thesis
    using h(1-3) tk(2,3) gi v by (intro exI [of _ h]) (simp add: publish_prio)
qed

lemma pop_task_trap_first_witness:
  "\<exists>s'. pop_task two_cores (list_lib two_cores) example_os 0
       (example_sys (one_queue [41]) (one_queue []) (\<lambda>_. [(70, Some 25)]) 0 16) 1 = Inr ((Some 20, 0), s') \<and>
     t_state (TCBS s' 20) = Ready \<and> rq_abs two_cores (rq_of s' 0) 1 = [41]"
proof -
  let ?s = "example_sys (one_queue [41]) (one_queue []) (\<lambda>_. [(70, Some 25)]) 0 16"
  have ok: "sched_ok two_cores (list_lib two_cores) example_os 0 1 ?s"
    by (rule example_sched_ok) (simp_all add: one_queue_def isize_MAX_def)
  have q: "tw_queues (twq_of ?s 0) 1 = (70, Some 25) # []"
    by (simp add: twq_of_def example_sys_def example_scheduler_def)
  then have pend: "twq_pending 0 ?s 1" by (simp add: twq_pending_def)
  obtain s' where s': "pop_task two_cores (list_lib two_cores) example_os 0 ?s 1 = Inr ((Some 20, 0), s')"
    using example_take_trap [of "one_queue [41]" "one_queue []" 70 "Some 25" 0 16 1]
    by (auto simp: pop_task_trap [OF ok pend] simp del: One_nat_def)
  from pop_task_trap_first [OF ok q s'] s' example_rq_abs [of "[41]"] show ?thesis by auto
qed

text \<open>
  C13: A pop leaves the scheduler usable and hides no work from the core that popped: it returns
  no task only where the core has neither a trap nor a ready task, and the priority it
  publishes for the core is never behind the work that is left.
\<close>

theorem pop_task_hides_nothing:
  assumes "sched_ok c L E k cpu s" "pop_task c L E k s cpu = Inr ((r, p), s')"
  shows "sched_ok c L E k cpu s' \<and>
    pt_prio (PROCESS_INFO_TABLE s') (global_index (sched_of s' k)) cpu \<le> sc_prio c k s' cpu \<and>
    (r = None \<longleftrightarrow> \<not> twq_pending k s cpu \<and> \<not> rq_pending (rq_of s k) cpu)"
  using pop_task_ok [OF assms] by simp

lemma pop_task_hides_nothing_witness:
  "\<exists>s'. pop_task two_cores (list_lib two_cores) example_os 0
       (example_sys (one_queue []) (one_queue []) (\<lambda>_. [(70, Some 25)]) 0 16) 1 = Inr ((Some 20, 0), s') \<and>
     sched_ok two_cores (list_lib two_cores) example_os 0 1 s'"
proof -
  let ?s = "example_sys (one_queue []) (one_queue []) (\<lambda>_. [(70, Some 25)]) 0 16"
  have ok: "sched_ok two_cores (list_lib two_cores) example_os 0 1 ?s"
    by (rule example_sched_ok) (simp_all add: one_queue_def isize_MAX_def)
  have pend: "twq_pending 0 ?s 1"
    by (simp add: twq_pending_def twq_of_def example_sys_def example_scheduler_def)
  obtain s' where s': "pop_task two_cores (list_lib two_cores) example_os 0 ?s 1 = Inr ((Some 20, 0), s')"
    using example_take_trap [of "one_queue []" "one_queue []" 70 "Some 25" 0 16 1]
    by (auto simp: pop_task_trap [OF ok pend] simp del: One_nat_def)
  with pop_task_hides_nothing [OF ok s'] show ?thesis by auto
qed

text \<open>
  C40: A pop of a ready task on one core publishes the priority of that task's list for every
  core. Where another core has a trap pending, which the pop does not see, that core's
  published priority is then behind its pending trap.
\<close>

theorem pop_task_hides_other_core:
  assumes "sched_ok c L E k cpu s" "\<not> twq_pending k s cpu" "twq_pending k s i" "i < CPU_NUM c"
    and "fifo_top c (rq_abs c (rq_of s k)) = Some p" "HIGHEST_PRIORITY c < p"
  shows "\<exists>t s'. pop_task c L E k s cpu = Inr ((Some t, p), s') \<and> sc_prio c k s' i = HIGHEST_PRIORITY c \<and>
    pt_prio (PROCESS_INFO_TABLE s') (global_index (sched_of s k)) i = p"
proof -
  note D = sched_okD [OF assms(1)]
  have gi: "global_index (sched_of s k) < length (pt_table (PROCESS_INFO_TABLE s))"
    using D(9) pt_invD(1) [OF D(7)] by simp
  obtain r q rq' where t: "take_ref c (rq_of s k) = ((r, q), rq')"
    "fifo_take c (rq_abs c (rq_of s k)) = (r, rq_abs c rq')" "q = p"
    by (rule sched_take_ref [OF assms(1)]) (use assms(5) in simp)
  then obtain x where x: "r = Some x" using assms(5) by (auto simp: fifo_take_def)
  from pop_task_ready [OF assms(1,2) t(1) [unfolded x]] show ?thesis
    using t(3) assms(3,4) gi by (simp add: publish_prio sc_prio_def set_rq_twq [OF D(10)])
qed

lemma pop_task_hides_other_core_witness:
  "\<exists>t s'. pop_task two_cores (list_lib two_cores) example_os 0
       (example_sys (one_queue [41]) (one_queue []) (\<lambda>i. if i = 0 then [(70, None)] else []) 0 16) 1 =
       Inr ((Some t, 1), s') \<and>
     sc_prio two_cores 0 s' 0 = 0 \<and> pt_prio (PROCESS_INFO_TABLE s') 0 0 = 1"
proof -
  let ?s = "example_sys (one_queue [41]) (one_queue []) (\<lambda>i. if i = 0 then [(70, None)] else []) 0 16"
  have ok: "sched_ok two_cores (list_lib two_cores) example_os 0 1 ?s"
    by (rule example_sched_ok) (simp_all add: one_queue_def isize_MAX_def)
  have v: "twq_pending 0 ?s i \<longleftrightarrow> i = 0" "global_index (sched_of ?s 0) = 0" for i
    by (simp_all add: twq_pending_def twq_of_def sched_of_def example_sys_def example_scheduler_def)
  from pop_task_hides_other_core [OF ok, of 0 1] show ?thesis
    by (simp add: v example_rq_abs fifo_top_def)
qed

text \<open>
  C32: Pushing a task with a configured priority appends it to the list of its priority where
  the list has room, keeps the scheduler usable and publishes the priority of its most urgent
  work, as the pushing core sees it, for every core; where the list is full the task comes
  back and nothing changes.
\<close>

theorem Scheduler_push_task_publishes:
  assumes "sched_ok c L E k cpu s" "in_range c (t_priority (TCBS s t))"
  shows "if length (rq_abs c (rq_of s k) (t_priority (TCBS s t))) < READY_QUEUE_SIZE c
    then \<exists>s'. Scheduler_push_task c L E k s cpu t = Inr (Inr (), s') \<and> sched_ok c L E k cpu s' \<and>
      rq_abs c (rq_of s' k) = fifo_push (rq_abs c (rq_of s k)) (t_priority (TCBS s t)) t \<and>
      (\<forall>i < CPU_NUM c. pt_prio (PROCESS_INFO_TABLE s') (global_index (sched_of s' k)) i = sc_prio c k s' cpu) \<and>
      sc_prio c k s' cpu \<le> t_priority (TCBS s t)
    else Scheduler_push_task c L E k s cpu t = Inr (Inl t, s)"
proof (cases "length (rq_abs c (rq_of s k) (t_priority (TCBS s t))) < READY_QUEUE_SIZE c")
  case True
  obtain s' where p: "Scheduler_push_task c L E k s cpu t = Inr (Inr (), s')"
    "rq_abs c (rq_of s' k) = fifo_push (rq_abs c (rq_of s k)) (t_priority (TCBS s t)) t"
    "sched_ok c L E k cpu s'"
    using Scheduler_push_task_room [OF assms True] by metis
  have "rq_abs c (rq_of s' k) (t_priority (TCBS s t)) \<noteq> []" using p(2) by (simp add: fifo_push_def)
  from rq_prio_le [OF sched_okD(1,8) [OF p(3)] assms(2) this]
  have le: "sc_prio c k s' cpu \<le> t_priority (TCBS s t)"
    using assms(2) by (auto simp: sc_prio_def in_range_def)
  have "length (queues (rq_of s k) ! slot c (t_priority (TCBS s t))) < READY_QUEUE_SIZE c"
    using True assms(2) by (simp add: rq_abs_def)
  then obtain rq where s': "s' = publish (global_index (sched_of s k)) (\<lambda>i. i < CPU_NUM c)
      (sc_prio c k (set_rq k rq s) cpu) (set_rq k rq s)"
    using Scheduler_push_task_spec [OF assms] p(1) by (auto simp: Let_def)
  have "global_index (sched_of s k) < length (pt_table (PROCESS_INFO_TABLE s))"
    using sched_okD(7,9) [OF assms(1)] pt_invD(1) by simp
  then show ?thesis using True p le by (simp add: s' publish_prio)
next
  case False
  then show ?thesis
    using Scheduler_push_task_spec [OF assms] assms(2) by (simp add: rq_abs_def Let_def)
qed

lemma Scheduler_push_task_publishes_witness:
  "\<exists>s'. Scheduler_push_task two_cores (list_lib two_cores) example_os 0
       (example_sys (one_queue [41]) (one_queue []) (\<lambda>_. []) 16 16) 1 42 = Inr (Inr (), s') \<and>
     rq_abs two_cores (rq_of s' 0) 1 = [41, 42]"
proof -
  let ?s = "example_sys (one_queue [41]) (one_queue []) (\<lambda>_. []) 16 16"
  have ok: "sched_ok two_cores (list_lib two_cores) example_os 0 1 ?s"
    by (rule example_sched_ok) (simp_all add: one_queue_def isize_MAX_def)
  have p: "t_priority (TCBS ?s 42) = 1" by (simp add: example_sys_def example_tasks_def example_tcb_def)
  have "in_range two_cores (t_priority (TCBS ?s 42))" by (simp add: p in_range_def)
  from Scheduler_push_task_publishes [OF ok this] show ?thesis
    by (auto simp: p example_rq_abs fifo_push_def)
qed

text \<open>
  Pushing a trap appends it to the traps of its core where there is room, changes no other
  core's traps, and publishes the priority of the scheduler's most urgent work for the pushing
  core; where the core's queue is full the trap comes back and nothing changes. A core that
  pushes its own trap publishes the highest priority.
\<close>

lemma Scheduler_push_trap_publishes:
  assumes "sched_ok c L E k cpu s" "target < CPU_NUM c"
  shows "if length (tw_queues (twq_of s k) target) < TRAP_WAIT_QUEUE_SIZE c
    then \<exists>s'. Scheduler_push_trap c L E k s cpu info t target = Inr (Inr (), s') \<and>
      sched_ok c L E k cpu s' \<and> rq_of s' k = rq_of s k \<and>
      tw_queues (twq_of s' k) =
        (tw_queues (twq_of s k))(target := tw_queues (twq_of s k) target @ [(info, t)]) \<and>
      (\<forall>j i. pt_prio (PROCESS_INFO_TABLE s') j i = (if j = global_index (sched_of s k) \<and> i = cpu
        then sc_prio c k s' cpu else pt_prio (PROCESS_INFO_TABLE s) j i)) \<and>
      (target = cpu \<longrightarrow> sc_prio c k s' cpu = HIGHEST_PRIORITY c)
    else Scheduler_push_trap c L E k s cpu info t target = Inr (Inl (info, t), s)"
proof (cases "length (tw_queues (twq_of s k) target) < TRAP_WAIT_QUEUE_SIZE c")
  case True
  let ?qs = "(tw_queues (twq_of s k))(target := tw_queues (twq_of s k) target @ [(info, t)])"
  let ?s1 = "set_traps k ?qs s"
  let ?s' = "publish (global_index (sched_of s k)) (\<lambda>i. i = cpu) (sc_prio c k ?s1 cpu) ?s1"
  have ok: "sched_ok c L E k cpu ?s1" by (rule sched_ok_set_traps [OF assms(1)])
  have "global_index (sched_of s k) < length (pt_table (PROCESS_INFO_TABLE s))"
    using sched_okD(7,9) [OF assms(1)] pt_invD(1) by simp
  moreover have "Scheduler_push_trap c L E k s cpu info t target = Inr (Inr (), ?s')"
    using Scheduler_push_trap_spec [OF assms] True by (simp add: Let_def)
  moreover have "tw_queues (twq_of ?s1 k) = ?qs" by (simp add: twq_of_def set_traps_def)
  moreover have "target = cpu \<longrightarrow> sc_prio c k ?s1 cpu = HIGHEST_PRIORITY c"
    by (simp add: sc_prio_def)
  ultimately show ?thesis
    using True sched_ok_publish [OF ok sc_prio_bounds(4) [OF ok]]
    by (simp add: publish_prio)
next
  case False
  then show ?thesis using Scheduler_push_trap_spec [OF assms] by (simp add: Let_def)
qed

lemma Scheduler_push_trap_publishes_witness:
  "\<exists>s'. Scheduler_push_trap two_cores (list_lib two_cores) example_os 0
       (example_sys (one_queue [41]) (one_queue []) (\<lambda>_. []) 16 16) 1 70 None 1 = Inr (Inr (), s') \<and>
     pt_prio (PROCESS_INFO_TABLE s') 0 1 = 0"
proof -
  let ?s = "example_sys (one_queue [41]) (one_queue []) (\<lambda>_. []) 16 16"
  have ok: "sched_ok two_cores (list_lib two_cores) example_os 0 1 ?s"
    by (rule example_sched_ok) (simp_all add: one_queue_def isize_MAX_def)
  have v: "tw_queues (twq_of ?s 0) 1 = []" "global_index (sched_of ?s 0) = 0"
    by (simp_all add: twq_of_def sched_of_def example_sys_def example_scheduler_def)
  from Scheduler_push_trap_publishes [OF ok, of 1 70 None] show ?thesis
    by (auto simp: v simp del: One_nat_def)
qed

text \<open>
  C37: Registering an event source at index \<open>- len - 1\<close>, the smallest index the interface
  admits, panics: the index of the insertion is \<open>len + index\<close>, one less than the position it
  stands for, and wraps around. Every other negative index inserts one position before the
  one it stands for (index \<open>- 1\<close> not at the end but before the last source).
\<close>

theorem register_event_source_negative:
  assumes "vec_laws (EVENT_SORCE_NUM c) (sources_vec L)" "USER_SCHEDULER s k = Some sc"
    and "kd \<noteq> Null" "ud \<noteq> Null" "i < 0" "int (length (sources sc)) < 2 ^ 62"
  shows "register_event_source c L E k s cpu kd ud vt i =
    (let len = length (sources sc) in
     if i < - int len - 1 then Inr (False, s)
     else if i = - int len - 1 then Inl Explicit_panic
     else if len < EVENT_SORCE_NUM c then
       and_then (get_and_update_all_prio c L E k (set_scheduler k (sc\<lparr>sources :=
           take (nat (int len + i)) (sources sc) @ [EventSourceEntry_new kd ud vt] @
           drop (nat (int len + i)) (sources sc)\<rparr>) s) cpu) (\<lambda>(_, s'). Inr (True, s'))
     else Inr (False, s))"
proof -
  note V = vec_lawsD(4) [OF assms(1)]
  consider "i < - int (length (sources sc)) - 1" | "i = - int (length (sources sc)) - 1"
    | "- int (length (sources sc)) \<le> i" by linarith
  then show ?thesis
  proof cases
    case 1
    then show ?thesis using assms(2-5) by (simp add: register_event_source_def scheduler_at_def Let_def)
  next
    case 2
    have "2 ^ 63 \<le> usize_of_isize (- 1)" by (rule usize_of_isize_neg) simp_all
    moreover have "length (sources sc) < 2 ^ 62" using assms(6) by simp
    moreover have "(2 :: nat) ^ 62 \<le> 2 ^ 63" by simp
    ultimately have "\<not> usize_of_isize (- 1) \<le> length (sources sc)" by linarith
    then show ?thesis
      using 2 assms(2-5) V by (simp add: register_event_source_def scheduler_at_def Let_def not_le)
  next
    case 3
    then have "usize_of_isize (int (length (sources sc)) + i) = nat (int (length (sources sc)) + i)"
      using assms(5,6) by (intro usize_of_isize_pos) auto
    moreover have "nat (int (length (sources sc)) + i) \<le> length (sources sc)" using assms(5) by simp
    ultimately show ?thesis
      using 3 assms(2-5) V
      by (simp add: register_event_source_def scheduler_at_def Let_def not_less)
  qed
qed

lemma register_event_source_negative_witness:
  "register_event_source two_cores (list_lib two_cores) example_os 0
     (example_sys (one_queue []) (one_queue []) (\<lambda>_. []) 16 16) 0
     (Kern (Source (EXTERNAL 4) 0)) (Kern (Source (EXTERNAL 4) 0)) (vtable_of (EXTERNAL 4) False) (- 3) =
   Inl Explicit_panic"
proof -
  have "vec_laws (EVENT_SORCE_NUM two_cores) (sources_vec (list_lib two_cores))"
    using lib_lawsD(4) [OF list_lib_laws] .
  from register_event_source_negative [OF this, of
      "example_sys (one_queue []) (one_queue []) (\<lambda>_. []) 16 16" 0 _ _ _ "- 3"]
  show ?thesis by (simp add: example_sys_def example_scheduler_def)
qed

section \<open>Trap handlers\<close>



text \<open>
  An iteration of a trap handler whose core has no trap: the handler returns to the kernel's
  address space and, about to block, to the end of the pool, and gives up the core with its
  interrupts closed; when it runs again, wherever that is, it restores the interrupts as they
  were. The scheduler stays usable while the handler is away.
\<close>

lemma trap_handler_step_waits:
  assumes "sched_ok c L E k cpu s" "tw_queues (twq_of s k) cpu = []"
    and "length (idle_handlers (twq_of s k)) < TRAP_WAIT_QUEUE_SIZE c"
    and "h \<notin> set (idle_handlers (twq_of s k))" "os_task_live E (WORLD s) h"
  shows "\<exists>u. trap_handler_step c L E k h cpu s =
      (case os_resched E h cpu u of (cpu', s') \<Rightarrow> Inr (cpu', irq_release cpu' (IRQ_ENABLED s cpu) s')) \<and>
    sched_ok c L E k cpu u \<and> \<not> IRQ_ENABLED u cpu \<and> t_state (TCBS u h) = Blocking \<and> t_pid (TCBS u h) = 0 \<and>
    idle_handlers (twq_of u k) = idle_handlers (twq_of s k) @ [h] \<and>
    tw_queues (twq_of u k) = tw_queues (twq_of s k) \<and> rq_of u k = rq_of s k"
proof -
  note D = sched_okD [OF assms(1)]
  let ?q = "twq_of s k" let ?hs = "idle_handlers ?q @ [h]"
  let ?T = "(TCBS s)(h := (TCBS s h)\<lparr>t_pid := 0, t_state := Blocking\<rparr>)"
  let ?u = "set_scheduler k ((sched_of s k)\<lparr>s_trap_wait_queue := ?q\<lparr>idle_handlers := ?hs\<rparr>\<rparr>)
    (s\<lparr>IRQ_ENABLED := (IRQ_ENABLED s)(cpu := False), TCBS := ?T\<rparr>)"
  have "reschedule_handler L E k h cpu s = (case os_resched E h cpu ?u of (cpu', s') \<Rightarrow>
      Inr (cpu', irq_release cpu' (IRQ_ENABLED s cpu) s'))"
    using D(10,11) assms(3) deque_lawsD(2) [OF lib_lawsD(3) [OF D(2)]]
    by (simp add: reschedule_handler_def irq_acquire_def set_state_def set_pid_def scheduler_at_def
        set_twq_def Let_def)
  moreover have "idle_inv c E (WORLD s) ?T ?hs"
    using D(6,10,11) assms(3-5) by (auto simp: idle_inv_def elim!: twq_okE)
  then have "sched_ok c L E k cpu ?u"
    using assms(1) D(10) by (auto simp: sched_ok_def twq_ok_def in_kernel_def set_scheduler_def)
  ultimately show ?thesis
    using trap_handler_step_idle [OF assms(1,2), of h]
    by (intro exI [of _ ?u]) (simp add: twq_of_def rq_of_def sched_of_def set_scheduler_def)
qed

lemma trap_handler_step_waits_witness:
  "\<exists>s'. trap_handler_step two_cores (list_lib two_cores) example_os 0 22 1
       (example_sys (one_queue [41]) (one_queue []) (\<lambda>_. []) 16 16) = Inr (1, s')"
proof -
  let ?s = "example_sys (one_queue [41]) (one_queue []) (\<lambda>_. []) 16 16"
  have ok: "sched_ok two_cores (list_lib two_cores) example_os 0 1 ?s"
    by (rule example_sched_ok) (simp_all add: one_queue_def isize_MAX_def)
  have "tw_queues (twq_of ?s 0) 1 = []" "idle_handlers (twq_of ?s 0) = [20, 21]"
    by (simp_all add: twq_of_def example_sys_def example_scheduler_def)
  moreover have "os_task_live example_os (WORLD ?s) 22" by (simp add: example_os_def task_live_def)
  ultimately show ?thesis
    using trap_handler_step_waits [OF ok, of 22] by (auto simp: example_os_def)
qed

end
