(* ===== verification/Ready_Queue_Smp.thy ===== *)
theory Ready_Queue_Smp
  imports Ready_Queue
begin

unbundle bit_operations_syntax

text \<open>
  The ready queue as the cores share it: \<^verbatim>\<open>push_task\<close> and \<^verbatim>\<open>take_task\<close> of
  \<^verbatim>\<open>src/schedule/ready_queue.rs\<close>, cut at every point where another core can act. A critical
  section that only reads or changes its own queue is one step, which needs the queue's lock
  to be free; the section of \<^verbatim>\<open>take_task\<close> that finds the queue empty and clears the bit keeps
  the lock between two steps, because the bitmap can change under it.
\<close>

section \<open>The steps\<close>

datatype pc =
    Idle
  | Pushed int             \<comment> \<open>queued the task, the bit is not set yet\<close>
  | Scanning int           \<comment> \<open>the loop of \<^verbatim>\<open>take_task\<close> is at this priority\<close>
  | Popped int             \<comment> \<open>removed a task, has not looked at the rest yet\<close>
  | Clearing int           \<comment> \<open>holds the lock, saw the queue empty\<close>

record rq_smp =
  shared :: ready_queue
  pcs :: "nat \<Rightarrow> pc"

definition lock_free :: "rq_smp \<Rightarrow> int \<Rightarrow> bool" where
  "lock_free s p \<longleftrightarrow> (\<forall>i. pcs s i \<noteq> Clearing p)"

definition rq_at :: "config \<Rightarrow> rq_smp \<Rightarrow> int \<Rightarrow> task list" where
  "rq_at c s p = queues (shared s) ! slot c p"

text \<open>What a step does to the lists, seen from outside: a task is queued or removed.\<close>

datatype rq_event = Queued int task | Removed int task

inductive rq_step :: "config \<Rightarrow> task deque_ops \<Rightarrow> rq_smp \<Rightarrow> rq_event option \<Rightarrow> rq_smp \<Rightarrow> bool"
  for c D where
  push_back: "pcs s i = Idle \<Longrightarrow> in_range c p \<Longrightarrow> lock_free s p \<Longrightarrow>
    dq_push_back D (rq_at c s p) t = Some q' \<Longrightarrow>
    rq_step c D s (Some (Queued p t)) (s\<lparr>shared := (shared s)\<lparr>queues := (queues (shared s))[slot c p := q']\<rparr>,
      pcs := (pcs s)(i := Pushed p)\<rparr>)"
| push_full: "pcs s i = Idle \<Longrightarrow> in_range c p \<Longrightarrow> lock_free s p \<Longrightarrow>
    dq_push_back D (rq_at c s p) t = None \<Longrightarrow> rq_step c D s None s"
| fetch_or: "pcs s i = Pushed p \<Longrightarrow>
    rq_step c D s None (s\<lparr>shared := (shared s)\<lparr>prio_bitmap := prio_bitmap (shared s) OR prio_bit c p\<rparr>,
      pcs := (pcs s)(i := Idle)\<rparr>)"
| start: "pcs s i = Idle \<Longrightarrow>
    rq_step c D s None (s\<lparr>pcs := (pcs s)(i := Scanning (HIGHEST_PRIORITY c))\<rparr>)"
| scan_next: "pcs s i = Scanning p \<Longrightarrow> p \<le> LOWEST_PRIORITY c \<Longrightarrow> lock_free s p \<Longrightarrow>
    dq_pop_front D (rq_at c s p) = None \<Longrightarrow>
    rq_step c D s None (s\<lparr>pcs := (pcs s)(i := Scanning (p + 1))\<rparr>)"
| scan_end: "pcs s i = Scanning p \<Longrightarrow> \<not> p \<le> LOWEST_PRIORITY c \<Longrightarrow>
    rq_step c D s None (s\<lparr>pcs := (pcs s)(i := Idle)\<rparr>)"
| pop_front: "pcs s i = Scanning p \<Longrightarrow> p \<le> LOWEST_PRIORITY c \<Longrightarrow> lock_free s p \<Longrightarrow>
    dq_pop_front D (rq_at c s p) = Some (t, q') \<Longrightarrow>
    rq_step c D s (Some (Removed p t)) (s\<lparr>shared := (shared s)\<lparr>queues := (queues (shared s))[slot c p := q']\<rparr>,
      pcs := (pcs s)(i := Popped p)\<rparr>)"
| see_rest: "pcs s i = Popped p \<Longrightarrow> lock_free s p \<Longrightarrow> \<not> dq_is_empty D (rq_at c s p) \<Longrightarrow>
    rq_step c D s None (s\<lparr>pcs := (pcs s)(i := Idle)\<rparr>)"
| see_empty: "pcs s i = Popped p \<Longrightarrow> lock_free s p \<Longrightarrow> dq_is_empty D (rq_at c s p) \<Longrightarrow>
    rq_step c D s None (s\<lparr>pcs := (pcs s)(i := Clearing p)\<rparr>)"
| fetch_and: "pcs s i = Clearing p \<Longrightarrow>
    rq_step c D s None (s\<lparr>shared := (shared s)\<lparr>prio_bitmap := prio_bitmap (shared s) AND NOT (prio_bit c p)\<rparr>,
      pcs := (pcs s)(i := Idle)\<rparr>)"

inductive_cases rq_stepE: "rq_step c D s e s'"

text \<open>The states the cores reach, and the events on the way, in their order.\<close>

inductive rq_reach :: "config \<Rightarrow> task deque_ops \<Rightarrow> rq_smp \<Rightarrow> bool" for c D where
  init: "ReadyQueue_new c D = Inr rq \<Longrightarrow> rq_reach c D \<lparr>shared = rq, pcs = (\<lambda>_. Idle)\<rparr>"
| step: "rq_reach c D s \<Longrightarrow> rq_step c D s e s' \<Longrightarrow> rq_reach c D s'"

inductive rq_trace :: "config \<Rightarrow> task deque_ops \<Rightarrow> rq_event list \<Rightarrow> rq_smp \<Rightarrow> bool" for c D where
  init: "ReadyQueue_new c D = Inr rq \<Longrightarrow> rq_trace c D [] \<lparr>shared = rq, pcs = (\<lambda>_. Idle)\<rparr>"
| silent: "rq_trace c D es s \<Longrightarrow> rq_step c D s None s' \<Longrightarrow> rq_trace c D es s'"
| event: "rq_trace c D es s \<Longrightarrow> rq_step c D s (Some e) s' \<Longrightarrow> rq_trace c D (es @ [e]) s'"

lemma rq_trace_reach: "rq_trace c D es s \<Longrightarrow> rq_reach c D s"
  by (induction rule: rq_trace.induct) (blast intro: rq_reach.intros)+

section \<open>The invariant\<close>

text \<open>
  A priority that some core works on is in range; a core that is about to clear a bit works on
  an empty queue; and a non-empty queue has its bit set, or the core that filled it is about
  to set it.
\<close>

fun pc_in_range :: "config \<Rightarrow> pc \<Rightarrow> bool" where
  "pc_in_range c Idle \<longleftrightarrow> True"
| "pc_in_range c (Pushed p) \<longleftrightarrow> in_range c p"
| "pc_in_range c (Scanning p) \<longleftrightarrow> HIGHEST_PRIORITY c \<le> p"
| "pc_in_range c (Popped p) \<longleftrightarrow> in_range c p"
| "pc_in_range c (Clearing p) \<longleftrightarrow> in_range c p"

definition smp_inv :: "config \<Rightarrow> rq_smp \<Rightarrow> bool" where
  "smp_inv c s \<longleftrightarrow>
     length (queues (shared s)) = PRIORITY_LEVELS c \<and>
     (\<forall>i. pc_in_range c (pcs s i)) \<and>
     (\<forall>i p. pcs s i = Clearing p \<longrightarrow> rq_at c s p = []) \<and>
     (\<forall>p. in_range c p \<longrightarrow> rq_at c s p \<noteq> [] \<longrightarrow>
        bit (prio_bitmap (shared s)) (63 - slot c p) \<or> (\<exists>i. pcs s i = Pushed p))"

lemma smp_invD:
  assumes "smp_inv c s"
  shows "length (queues (shared s)) = PRIORITY_LEVELS c"
    and "pc_in_range c (pcs s i)"
    and "pcs s i = Clearing p \<Longrightarrow> rq_at c s p = []"
    and "in_range c p \<Longrightarrow> rq_at c s p \<noteq> [] \<Longrightarrow>
      bit (prio_bitmap (shared s)) (63 - slot c p) \<or> (\<exists>i. pcs s i = Pushed p)"
  using assms unfolding smp_inv_def by blast+

text \<open>The contents of one queue after an update of another.\<close>

lemma rq_at_update:
  assumes "config_ok c" "in_range c p" "in_range c p'"
    and "length (queues (shared s)) = PRIORITY_LEVELS c"
  shows "rq_at c (s\<lparr>shared := (shared s)\<lparr>queues := (queues (shared s))[slot c p := q]\<rparr>, pcs := x\<rparr>) p' =
    (if p' = p then q else rq_at c s p')"
  using assms slot_less [OF assms(1,2)] slot_inject [OF assms(3,2)]
  by (auto simp: rq_at_def nth_list_update)

text \<open>A step of a core that changes no queue and no bit.\<close>

lemma smp_inv_pc:
  assumes "smp_inv c s" "pc_in_range c x" "\<And>p. pcs s i \<noteq> Pushed p"
    and "\<And>p. x = Clearing p \<Longrightarrow> rq_at c s p = []"
  shows "smp_inv c (s\<lparr>pcs := (pcs s)(i := x)\<rparr>)"
proof -
  have at: "rq_at c (s\<lparr>pcs := (pcs s)(i := x)\<rparr>) p = rq_at c s p" for p
    by (simp add: rq_at_def)
  show ?thesis
    unfolding smp_inv_def at
    using assms smp_invD [OF assms(1)] by (auto simp: fun_upd_def) metis+
qed

text \<open>A step that replaces one queue whose lock is free.\<close>

lemma smp_inv_queue:
  assumes "config_ok c" "smp_inv c s" "in_range c p" "lock_free s p"
    and "pc_in_range c x" "\<And>r. pcs s i \<noteq> Pushed r" "\<And>r. x \<noteq> Clearing r"
    and "q \<noteq> [] \<Longrightarrow> rq_at c s p \<noteq> [] \<or> x = Pushed p"
  shows "smp_inv c (s\<lparr>shared := (shared s)\<lparr>queues := (queues (shared s))[slot c p := q]\<rparr>,
      pcs := (pcs s)(i := x)\<rparr>)"
proof -
  let ?s = "s\<lparr>shared := (shared s)\<lparr>queues := (queues (shared s))[slot c p := q]\<rparr>,
      pcs := (pcs s)(i := x)\<rparr>"
  note inv = smp_invD [OF assms(2)]
  have at: "rq_at c ?s p' = (if p' = p then q else rq_at c s p')" if "in_range c p'" for p'
    using rq_at_update [OF assms(1,3) that inv(1)] by simp
  have "rq_at c ?s p' = []" if "pcs ?s j = Clearing p'" for j p'
  proof -
    have j: "pcs s j = Clearing p'" using that assms(7) by (auto split: if_splits)
    then have "in_range c p'" "p' \<noteq> p" using inv(2) [of j] assms(4) by (auto simp: lock_free_def)
    with j show ?thesis using at inv(3) by simp
  qed
  moreover have "bit (prio_bitmap (shared ?s)) (63 - slot c p') \<or> (\<exists>j. pcs ?s j = Pushed p')"
    if "in_range c p'" "rq_at c ?s p' \<noteq> []" for p'
  proof (cases "p' = p \<and> x = Pushed p")
    case True
    then show ?thesis by auto
  next
    case False
    then have "rq_at c s p' \<noteq> []" using that at assms(8) by (auto split: if_splits)
    then have "bit (prio_bitmap (shared s)) (63 - slot c p') \<or> (\<exists>j. pcs s j = Pushed p')"
      using inv(4) that(1) by blast
    then show ?thesis using assms(6) by (auto simp: fun_upd_def) metis
  qed
  moreover have "pc_in_range c (pcs ?s j)" for j using inv(2) assms(5) by simp
  ultimately show ?thesis unfolding smp_inv_def using inv(1) by auto
qed

text \<open>A step that changes one bit of the bitmap.\<close>

lemma smp_inv_bit:
  assumes "config_ok c" "smp_inv c s"
    and "pcs s i = Pushed p \<and> b = prio_bitmap (shared s) OR prio_bit c p \<or>
      pcs s i = Clearing p \<and> b = prio_bitmap (shared s) AND NOT (prio_bit c p)"
  shows "smp_inv c (s\<lparr>shared := (shared s)\<lparr>prio_bitmap := b\<rparr>, pcs := (pcs s)(i := Idle)\<rparr>)"
proof -
  let ?s = "s\<lparr>shared := (shared s)\<lparr>prio_bitmap := b\<rparr>, pcs := (pcs s)(i := Idle)\<rparr>"
  note inv = smp_invD [OF assms(2)]
  have at: "rq_at c ?s p' = rq_at c s p'" for p' by (simp add: rq_at_def)
  have p: "in_range c p" using assms(3) inv(2) [of i] by auto
  have bit: "bit (prio_bit c p) (63 - slot c p') \<longleftrightarrow> p' = p" if "in_range c p'" for p'
  proof -
    have "slot c p < 64" "slot c p' < 64"
      using slot_less [OF assms(1)] p that PRIORITY_LEVELS_eq(2) [OF assms(1)] by (meson less_le_trans)+
    then show ?thesis
      using bit_prio_bit [OF assms(1) p, of "63 - slot c p'"] slot_inject [OF that p] by auto
  qed
  have "bit b (63 - slot c p') \<or> (\<exists>j. pcs ?s j = Pushed p')"
    if "in_range c p'" "rq_at c s p' \<noteq> []" for p'
  proof -
    have ne: "pcs s i \<noteq> Clearing p'" using that(2) inv(3) by blast
    have "bit (prio_bitmap (shared s)) (63 - slot c p') \<or> (\<exists>j. pcs s j = Pushed p')"
      using inv(4) that by blast
    then show ?thesis
      using assms(3) bit [OF that(1)] ne that(1)
      by (auto simp: bit_or_iff bit_and_iff bit_not_iff) (metis pc.distinct pc.inject)+
  qed
  moreover have "rq_at c s p' = []" if "pcs ?s j = Clearing p'" for j p'
    using that inv(3) [of j p'] by (auto split: if_splits)
  moreover have "pc_in_range c (pcs ?s j)" for j using inv(2) by simp
  ultimately show ?thesis unfolding smp_inv_def at using inv(1) by auto
qed

lemma lock_free_Clearing: "lock_free s p \<Longrightarrow> pcs s i \<noteq> Clearing p"
  by (simp add: lock_free_def)

lemma rq_step_inv:
  assumes "rq_step c D s e s'" "smp_inv c s" "config_ok c" "deque_laws N D"
  shows "smp_inv c s'"
  using assms
proof (induction rule: rq_step.induct)
  case (push_back s i p t q')
  then show ?case by (intro smp_inv_queue) auto
next
  case (pop_front s i p t q')
  then have "rq_at c s p = t # q'"
    by (auto simp: deque_lawsD [OF \<open>deque_laws N D\<close>] split: list.splits)
  with pop_front show ?case
    using smp_invD(2) [of c s i] by (intro smp_inv_queue) (auto simp: in_range_def)
next
  case (fetch_or s i p)
  then show ?case by (intro smp_inv_bit) auto
next
  case (fetch_and s i p)
  then show ?case by (intro smp_inv_bit) auto
next
  case (scan_next s i p)
  then show ?case using smp_invD(2) [of c s i] by (intro smp_inv_pc) auto
next
  case (see_empty s i p)
  then show ?case
    using smp_invD(2) [of c s i]
    by (intro smp_inv_pc) (auto simp: deque_lawsD [OF \<open>deque_laws N D\<close>])
qed (auto intro!: smp_inv_pc)

lemma rq_reach_inv:
  assumes "rq_reach c D s" "config_ok c" "deque_laws (READY_QUEUE_SIZE c) D"
  shows "smp_inv c s"
  using assms
proof (induction rule: rq_reach.induct)
  case (init rq)
  then have "rq_inv c rq" "\<forall>q \<in> set (queues rq). q = []"
    using ReadyQueue_new_ok [of c D] by auto
  then show ?case
    using slot_less [OF init.prems(1)] by (auto simp: smp_inv_def rq_inv_def rq_at_def)
next
  case (step s s')
  then show ?case using rq_step_inv by blast
qed

section \<open>No task is hidden\<close>

text \<open>A set bit makes the reported priority at least as urgent.\<close>

lemma bit_hightest_priority:
  assumes "config_ok c" "in_range c p" "bit (prio_bitmap rq) (63 - slot c p)"
  shows "rq_hightest_priority c rq cpu \<le> p"
proof (cases "highest_one (prio_bitmap rq)")
  case None
  with assms(3) show ?thesis by (auto simp: highest_one_None)
next
  case (Some i)
  have s: "slot c p < 64" using slot_less [OF assms(1,2)] PRIORITY_LEVELS_eq(2) [OF assms(1)] by simp
  have "\<not> i < 63 - slot c p"
    using Some assms(3) by (auto simp: highest_one_Some)
  then have "63 - int i \<le> int (slot c p)" using s by linarith
  with Some assms(2) show ?thesis by (simp add: rq_hightest_priority_def slot_def in_range_def)
qed

lemma rq_reach_not_hidden:
  assumes "config_ok c" "deque_laws (READY_QUEUE_SIZE c) D" "rq_reach c D s"
    and "in_range c p" "rq_at c s p \<noteq> []" "\<And>i. pcs s i \<noteq> Pushed p"
  shows "rq_hightest_priority c (shared s) cpu \<le> p"
proof -
  have "smp_inv c s" using rq_reach_inv assms(1-3) by blast
  from smp_invD(4) [OF this assms(4,5)] assms(6)
  have "bit (prio_bitmap (shared s)) (63 - slot c p)" by blast
  with assms(1,4) show ?thesis by (rule bit_hightest_priority)
qed

section \<open>No task is lost\<close>

text \<open>
  The tasks that were queued at a priority, and those that were removed from it, in the order of
  the events.
\<close>

fun queued :: "int \<Rightarrow> rq_event list \<Rightarrow> task list" where
  "queued p [] = []"
| "queued p (Queued q t # es) = (if q = p then [t] else []) @ queued p es"
| "queued p (Removed q t # es) = queued p es"

fun removed :: "int \<Rightarrow> rq_event list \<Rightarrow> task list" where
  "removed p [] = []"
| "removed p (Removed q t # es) = (if q = p then [t] else []) @ removed p es"
| "removed p (Queued q t # es) = removed p es"

lemma queued_append [simp]: "queued p (es @ es') = queued p es @ queued p es'"
  by (induction es rule: queued.induct) simp_all

lemma removed_append [simp]: "removed p (es @ es') = removed p es @ removed p es'"
  by (induction es rule: removed.induct) simp_all

lemma rq_at_simps [simp]:
  "rq_at c (s\<lparr>pcs := x\<rparr>) p = rq_at c s p"
  "rq_at c (s\<lparr>shared := (shared s)\<lparr>prio_bitmap := b\<rparr>\<rparr>) p = rq_at c s p"
  by (simp_all add: rq_at_def)

text \<open>A silent step leaves the lists; an event is an operation on the list of its priority.\<close>

lemma rq_step_silent: "rq_step c D s None s' \<Longrightarrow> rq_at c s' p = rq_at c s p"
  by (erule rq_stepE) simp_all

lemma rq_step_event:
  assumes "rq_step c D s (Some e) s'" "config_ok c" "smp_inv c s" "deque_laws N D" "in_range c p"
  shows "removed p [e] @ rq_at c s' p = rq_at c s p @ queued p [e]"
    "length (rq_at c s p) \<le> N \<Longrightarrow> length (rq_at c s' p) \<le> N"
proof -
  note laws = deque_lawsD [OF assms(4)] and inv = smp_invD [OF assms(3)]
  have "removed p [e] @ rq_at c s' p = rq_at c s p @ queued p [e] \<and>
    (length (rq_at c s p) \<le> N \<longrightarrow> length (rq_at c s' p) \<le> N)"
    using assms(1)
  proof cases
    case (push_back i q t q')
    with rq_at_update [OF assms(2) push_back(4) assms(5) inv(1)] show ?thesis
      by (auto simp: laws split: if_splits)
  next
    case (pop_front i q t q')
    have "in_range c q" using inv(2) [of i] pop_front(3,4) by (simp add: in_range_def)
    with rq_at_update [OF assms(2) this assms(5) inv(1)] pop_front show ?thesis
      by (auto simp: laws split: list.splits)
  qed
  then show "removed p [e] @ rq_at c s' p = rq_at c s p @ queued p [e]"
    "length (rq_at c s p) \<le> N \<Longrightarrow> length (rq_at c s' p) \<le> N" by blast+
qed

lemma rq_trace_fifo:
  assumes "rq_trace c D es s" "config_ok c" "deque_laws (READY_QUEUE_SIZE c) D" "in_range c p"
  shows "queued p es = removed p es @ rq_at c s p \<and> length (rq_at c s p) \<le> READY_QUEUE_SIZE c"
  using assms
proof (induction rule: rq_trace.induct)
  case (init rq)
  then have "rq_inv c rq" "\<forall>q \<in> set (queues rq). q = []" using ReadyQueue_new_ok [of c D] by auto
  then have "queues rq ! slot c p = []" using slot_less [OF init.prems(1,3)] by (auto simp: rq_inv_def)
  then show ?case by (simp add: rq_at_def)
next
  case (silent es s s')
  then show ?case using rq_step_silent by metis
next
  case (event es s e s')
  have "smp_inv c s" using rq_reach_inv [OF rq_trace_reach [OF event(1)] event.prems(1,2)] .
  from rq_step_event [OF event(2) event.prems(1) this event.prems(2,3)] event show ?case by auto
qed

section \<open>A bit that stays behind\<close>

text \<open>
  The bit is set after the queue's lock is released. Where another core takes the task in
  between, it clears the bit before the first core sets it: the queue is empty and its bit is
  set. No later \<^verbatim>\<open>take_task\<close> finds a task there, so none clears the bit.
\<close>

definition stale_queue :: "config \<Rightarrow> ready_queue \<Rightarrow> ready_queue" where
  "stale_queue c rq = rq\<lparr>prio_bitmap :=
     (prio_bitmap rq AND NOT (prio_bit c (HIGHEST_PRIORITY c))) OR prio_bit c (HIGHEST_PRIORITY c)\<rparr>"

lemma stale_trace:
  assumes "config_ok c" "deque_laws (READY_QUEUE_SIZE c) D" "0 < READY_QUEUE_SIZE c"
    and "ReadyQueue_new c D = Inr rq"
  shows "rq_trace c D [Queued (HIGHEST_PRIORITY c) 0, Removed (HIGHEST_PRIORITY c) 0]
    \<lparr>shared = stale_queue c rq, pcs = (\<lambda>_. Idle)\<rparr>"
proof -
  let ?H = "HIGHEST_PRIORITY c" let ?t = "0 :: task" let ?b = "prio_bitmap rq"
  let ?full = "rq\<lparr>queues := (queues rq)[0 := [?t]]\<rparr>"
  let ?pc = "\<lambda>_ :: nat. Idle" let ?push = "[Queued ?H ?t]"
  note laws = deque_lawsD [OF assms(2)]
  have q: "queues rq = replicate (PRIORITY_LEVELS c) []" and n: "0 < PRIORITY_LEVELS c"
    using assms(4) PRIORITY_LEVELS_eq [OF assms(1)]
    by (auto simp: ReadyQueue_new_def laws Let_def and_then_Inr_iff)
  have e: "rq\<lparr>queues := (replicate (PRIORITY_LEVELS c) [])[0 := []]\<rparr> = rq"
    using q n by (cases rq; cases "PRIORITY_LEVELS c") auto
  have r: "in_range c ?H" "slot c ?H = 0" "?H \<le> LOWEST_PRIORITY c"
    using config_okD [OF assms(1)] by (auto simp: in_range_def slot_def)
  have idle: "rq_trace c D [] \<lparr>shared = rq, pcs = ?pc\<rparr>" using assms(4) by (rule rq_trace.init)
  have "rq_trace c D ?push \<lparr>shared = ?full, pcs = ?pc(0 := Pushed ?H)\<rparr>"
    using rq_trace.event [OF idle rq_step.push_back [of _ 0 c ?H D ?t "[?t]"]] r q n assms(3)
    by (simp add: lock_free_def rq_at_def laws)
  from rq_trace.silent [OF this rq_step.start [of _ 1]]
  have "rq_trace c D ?push \<lparr>shared = ?full, pcs = ?pc(0 := Pushed ?H, 1 := Scanning ?H)\<rparr>" by simp
  from rq_trace.event [OF this rq_step.pop_front [of _ 1 ?H c D ?t "[]"]]
  have "rq_trace c D (?push @ [Removed ?H ?t]) \<lparr>shared = rq, pcs = ?pc(0 := Pushed ?H, 1 := Popped ?H)\<rparr>"
    using r q n by (auto simp: lock_free_def rq_at_def laws e)
  from rq_trace.silent [OF this rq_step.see_empty [of _ 1 ?H D c]]
  have "rq_trace c D (?push @ [Removed ?H ?t]) \<lparr>shared = rq, pcs = ?pc(0 := Pushed ?H, 1 := Clearing ?H)\<rparr>"
    using r q n by (auto simp: lock_free_def rq_at_def laws)
  from rq_trace.silent [OF this rq_step.fetch_and [of _ 1 ?H c D]]
  have "rq_trace c D (?push @ [Removed ?H ?t]) \<lparr>shared = rq\<lparr>prio_bitmap := ?b AND NOT (prio_bit c ?H)\<rparr>,
      pcs = ?pc(0 := Pushed ?H, 1 := Idle)\<rparr>" by simp
  from rq_trace.silent [OF this rq_step.fetch_or [of _ 0 ?H c D]]
  show ?thesis by (simp add: stale_queue_def fun_upd_twist fun_upd_idem_iff fun_upd_def cong: if_cong)
qed

lemma stale_reach:
  assumes "config_ok c" "deque_laws (READY_QUEUE_SIZE c) D" "0 < READY_QUEUE_SIZE c"
    and "ReadyQueue_new c D = Inr rq"
  shows "rq_reach c D \<lparr>shared = stale_queue c rq, pcs = (\<lambda>_. Idle)\<rparr>"
  using rq_trace_reach [OF stale_trace [OF assms]] .

lemma stale_reports:
  assumes "config_ok c"
  shows "rq_hightest_priority c (stale_queue c rq) cpu = HIGHEST_PRIORITY c"
proof -
  have r: "in_range c (HIGHEST_PRIORITY c)" "slot c (HIGHEST_PRIORITY c) = 0"
    using config_okD [OF assms] by (auto simp: in_range_def slot_def)
  have "bit (prio_bitmap (stale_queue c rq)) 63"
    using bit_prio_bit [OF assms r(1), of 63] r(2) by (simp add: stale_queue_def bit_or_iff)
  then have "highest_one (prio_bitmap (stale_queue c rq)) = Some 63"
    by (auto simp: highest_one_Some)
  then show ?thesis by (simp add: rq_hightest_priority_def)
qed

section \<open>What the interleavings guarantee\<close>

text \<open>One core pushes a task to a new queue, alone.\<close>

definition pushed_queue :: "config \<Rightarrow> ready_queue \<Rightarrow> int \<Rightarrow> task \<Rightarrow> ready_queue" where
  "pushed_queue c rq p t = rq\<lparr>queues := (queues rq)[slot c p := [t]],
     prio_bitmap := prio_bitmap rq OR prio_bit c p\<rparr>"

lemma pushed_reach:
  assumes "config_ok c" "deque_laws (READY_QUEUE_SIZE c) D" "0 < READY_QUEUE_SIZE c"
    and "ReadyQueue_new c D = Inr rq" "in_range c p"
  shows "rq_reach c D \<lparr>shared = pushed_queue c rq p t, pcs = (\<lambda>_. Idle)\<rparr>"
proof -
  let ?pc = "\<lambda>_ :: nat. Idle"
  have idle: "rq_reach c D \<lparr>shared = rq, pcs = ?pc\<rparr>" using assms(4) by (rule rq_reach.init)
  have "rq_inv c rq" "\<forall>q \<in> set (queues rq). q = []"
    using ReadyQueue_new_ok [OF assms(1,2)] assms(4) by auto
  then have "queues rq ! slot c p = []"
    using slot_less [OF assms(1,5)] by (auto simp: rq_inv_def)
  then have "rq_reach c D \<lparr>shared = rq\<lparr>queues := (queues rq)[slot c p := [t]]\<rparr>, pcs = ?pc(0 := Pushed p)\<rparr>"
    using rq_reach.step [OF idle rq_step.push_back [of _ 0 c p D t "[t]"]] assms(3,5)
    by (simp add: lock_free_def rq_at_def deque_lawsD [OF assms(2)])
  from rq_reach.step [OF this rq_step.fetch_or [of _ 0 p c D]]
  show ?thesis by (simp add: pushed_queue_def fun_upd_def cong: if_cong)
qed

text \<open>
  C15: However the cores interleave their pushes and takes, a task in the ready queue is never
  hidden: once the cores that queued tasks of a priority have set its bit, the reported
  priority is at least as urgent as every priority with a task.
\<close>

theorem ready_queue_smp_not_hidden:
  assumes "config_ok c" "deque_laws (READY_QUEUE_SIZE c) D" "rq_reach c D s"
    and "in_range c p" "rq_at c s p \<noteq> []" "\<And>i. pcs s i \<noteq> Pushed p"
  shows "rq_hightest_priority c (shared s) cpu \<le> p"
  using assms by (rule rq_reach_not_hidden)

lemma ready_queue_smp_not_hidden_witness:
  "\<exists>rq. ReadyQueue_new default_config (list_deque 256) = Inr rq \<and>
     rq_hightest_priority default_config (pushed_queue default_config rq 4 9) 0 \<le> 4"
proof -
  obtain rq where rq: "ReadyQueue_new default_config (list_deque 256) = Inr rq" "rq_inv default_config rq"
    using ReadyQueue_new_ok [OF default_config_ok default_deque] by blast
  have r: "in_range default_config 4" by (simp add: in_range_def)
  let ?s = "\<lparr>shared = pushed_queue default_config rq 4 9, pcs = (\<lambda>_. Idle)\<rparr>"
  have "rq_reach default_config (list_deque 256) ?s"
    using default_deque rq(1) r by (intro pushed_reach default_config_ok) simp_all
  moreover have "rq_at default_config ?s 4 = [9]"
    using rq(2) slot_less [OF default_config_ok r] by (simp add: rq_at_def pushed_queue_def rq_inv_def)
  ultimately have "rq_hightest_priority default_config (shared ?s) 0 \<le> 4"
    using ready_queue_smp_not_hidden [OF default_config_ok default_deque, of ?s 4 0] r by simp
  with rq(1) show ?thesis by auto
qed

text \<open>
  C39: An interleaving of one push with one take leaves the ready queue of every build empty and
  at rest with the bit of the highest priority set: it reports the highest priority, and a
  take finds nothing and does not clear the bit.
\<close>

theorem ready_queue_smp_stale_bit:
  assumes "config_ok c" "deque_laws (READY_QUEUE_SIZE c) D" "0 < READY_QUEUE_SIZE c"
  shows "\<exists>s. rq_reach c D s \<and> pcs s = (\<lambda>_. Idle) \<and> concat (queues (shared s)) = [] \<and>
    rq_hightest_priority c (shared s) cpu = HIGHEST_PRIORITY c \<and>
    rq_take_task c D (shared s) cpu = Inr ((None, LOWEST_PRIORITY c + 1), shared s)"
proof -
  obtain rq where rq: "ReadyQueue_new c D = Inr rq" "rq_inv c rq" "\<forall>q \<in> set (queues rq). q = []"
    using ReadyQueue_new_ok [OF assms(1,2)] by blast
  have "queues (stale_queue c rq) = queues rq" by (simp add: stale_queue_def)
  then have "rq_take_task c D (stale_queue c rq) cpu =
      Inr ((None, LOWEST_PRIORITY c + 1), stale_queue c rq)" "concat (queues (stale_queue c rq)) = []"
    using rq_take_task_all_empty [OF assms(1,2)] rq(2,3) by (simp_all add: rq_inv_def)
  with stale_reach [OF assms rq(1)] stale_reports [OF assms(1)] show ?thesis
    by (intro exI [of _ "\<lparr>shared = stale_queue c rq, pcs = (\<lambda>_. Idle)\<rparr>"]) simp
qed

lemma ready_queue_smp_stale_bit_witness:
  "\<exists>s. rq_reach default_config (list_deque 256) s \<and> concat (queues (shared s)) = [] \<and>
     rq_hightest_priority default_config (shared s) 0 = 0"
  using ready_queue_smp_stale_bit [OF default_config_ok default_deque] by auto

text \<open>
  C14: However the cores interleave their pushes and takes, the ready queue is a bounded queue of
  each priority: the tasks taken at a priority are the first of those pushed at it, in the order
  in which they were pushed, and the list holds exactly the rest, so that no task is lost, taken
  twice or overtaken; the list never exceeds its capacity.
\<close>

theorem ready_queue_smp_fifo:
  assumes "config_ok c" "deque_laws (READY_QUEUE_SIZE c) D" "rq_trace c D es s" "in_range c p"
  shows "queued p es = removed p es @ rq_at c s p \<and> length (rq_at c s p) \<le> READY_QUEUE_SIZE c"
  using assms(3,1,2,4) by (rule rq_trace_fifo)

lemma ready_queue_smp_fifo_witness:
  "\<exists>es s. rq_trace default_config (list_deque 256) es s \<and> queued 0 es = [0] \<and> removed 0 es = [0] \<and>
     rq_at default_config s 0 = []"
proof -
  obtain rq where rq: "ReadyQueue_new default_config (list_deque 256) = Inr rq"
    using ReadyQueue_new_ok [OF default_config_ok default_deque] by blast
  let ?s = "\<lparr>shared = stale_queue default_config rq, pcs = (\<lambda>_. Idle)\<rparr>"
  have t: "rq_trace default_config (list_deque 256) [Queued 0 0, Removed 0 0] ?s"
    using stale_trace [OF default_config_ok default_deque _ rq] by simp
  have "in_range default_config 0" by (simp add: in_range_def)
  from ready_queue_smp_fifo [OF default_config_ok default_deque t this] t show ?thesis by force
qed

end
