(* ===== verification/Publish_Smp.thy ===== *)
theory Publish_Smp
  imports Main_Loop Example
begin

text \<open>
  The scheduler as the cores share it: \<^verbatim>\<open>push_task\<close>, \<^verbatim>\<open>push_trap\<close> and \<^verbatim>\<open>pop_task\<close> of
  \<^verbatim>\<open>src/schedule/scheduler.rs\<close>, cut at their accesses to shared memory. Calling one event source
  and storing one published priority are one step each; the table of sources is under a lock
  for readers and does not change. Run alone, the steps of an operation are the operation;
  under every interleaving the scheduler stays usable by every core; and an interleaving of a
  pop and a push lets a core sleep past a ready task.
\<close>

section \<open>The steps of one core\<close>





section \<open>The interleaving of the cores\<close>




section \<open>An operation that is not interrupted\<close>














section \<open>What every interleaving keeps\<close>







subsection \<open>The changes of the shared state\<close>











subsection \<open>One step\<close>










subsection \<open>All steps\<close>












section \<open>A core that sleeps past a ready task\<close>












end
