(* ===== verification/Handler_Smp.thy ===== *)
theory Handler_Smp
  imports Trap_Handler
begin

text \<open>
  The trap handlers as the cores share them: how a handler that has no more traps goes back to
  the pool (\<^verbatim>\<open>reschedule_handler\<close> of \<^verbatim>\<open>src/schedule/trap_wait_queue.rs\<close>, then \<^verbatim>\<open>thread_entry\<close> and
  \<^verbatim>\<open>thread_entry_phase2\<close> of \<^verbatim>\<open>src/main_loop.rs\<close>), and how \<^verbatim>\<open>take_task\<close> gets one out of it, cut at
  every point where another core can act. A handler enters the pool while its core still runs
  on its stack, in the state \<^verbatim>\<open>Blocking\<close>; the core that takes it waits until it is \<^verbatim>\<open>Blocked\<close>.
  Handlers are threads, as \<^verbatim>\<open>resched\<close> requires.
\<close>

section \<open>The steps\<close>

datatype handler_pc =
    Scheduling             \<comment> \<open>in the scheduler, on a stack of its own\<close>
  | Holding task           \<comment> \<open>\<^verbatim>\<open>get_idle_handler\<close>: has the lock of the pool, popped this handler\<close>
  | Waiting task           \<comment> \<open>\<^verbatim>\<open>take_task\<close>: busy-waits for this handler\<close>
  | Taken task             \<comment> \<open>\<^verbatim>\<open>take_task\<close> has returned this handler\<close>
  | Handling task          \<comment> \<open>runs this handler\<close>
  | Parking task           \<comment> \<open>\<^verbatim>\<open>reschedule_handler\<close>: the state is \<^verbatim>\<open>Blocking\<close>, not in the pool yet\<close>
  | Pooled task            \<comment> \<open>in the pool, \<^verbatim>\<open>resched\<close> has not saved the context yet\<close>
  | Saved task             \<comment> \<open>\<^verbatim>\<open>thread_entry\<close>: still on the handler's stack\<close>
  | Leaving task           \<comment> \<open>\<^verbatim>\<open>thread_entry_phase2\<close>: on an empty stack\<close>

text \<open>
  \<open>h_away\<close> holds the handlers that gave up their core while they handled a trap, and move as any
  other task; \<open>h_live\<close> the handlers that exist; \<open>h_saved\<close> says whose context is saved.
\<close>

record handlers =
  h_pool :: "task list"
  h_tcbs :: tcbs
  h_away :: "task set"
  h_live :: "task set"
  h_saved :: "task set"
  h_pcs :: "nat \<Rightarrow> handler_pc"

definition pool_free :: "handlers \<Rightarrow> bool" where
  "pool_free g \<longleftrightarrow> (\<forall>i h. h_pcs g i \<noteq> Holding h)"

definition take_handler :: "tcbs \<Rightarrow> task \<Rightarrow> TaskState \<times> tcbs" where
  "take_handler T h = match_set_state T h Ready Running Ready Exited Blocking"

inductive handler_step :: "task deque_ops \<Rightarrow> handlers \<Rightarrow> handlers \<Rightarrow> bool" for D where
  pop: "h_pcs g i = Scheduling \<Longrightarrow> pool_free g \<Longrightarrow> dq_pop_front D (h_pool g) = Some (h, hs) \<Longrightarrow>
    handler_step D g (g\<lparr>h_pool := hs, h_pcs := (h_pcs g)(i := Holding h)\<rparr>)"
| runnable: "h_pcs g i = Holding h \<Longrightarrow> take_handler (h_tcbs g) h = (Blocked, T) \<Longrightarrow>
    handler_step D g (g\<lparr>h_tcbs := set_pid T h pid, h_pcs := (h_pcs g)(i := Taken h)\<rparr>)"
| blocking: "h_pcs g i = Holding h \<Longrightarrow> take_handler (h_tcbs g) h = (Blocking, T) \<Longrightarrow>
    handler_step D g (g\<lparr>h_tcbs := T, h_pcs := (h_pcs g)(i := Waiting h)\<rparr>)"
| released: "h_pcs g i = Waiting h \<Longrightarrow> take_handler (h_tcbs g) h = (Blocked, T) \<Longrightarrow>
    handler_step D g (g\<lparr>h_tcbs := set_pid T h pid, h_pcs := (h_pcs g)(i := Taken h)\<rparr>)"
| spin: "h_pcs g i = Waiting h \<Longrightarrow> take_handler (h_tcbs g) h = (st, T) \<Longrightarrow> st \<noteq> Blocked \<Longrightarrow>
    handler_step D g (g\<lparr>h_tcbs := T\<rparr>)"
| grow: "h_pcs g i = Scheduling \<Longrightarrow> pool_free g \<Longrightarrow> dq_len D (h_pool g) = 0 \<Longrightarrow> h \<notin> h_live g \<Longrightarrow>
    create_new_handler ((h_tcbs g)(h := tcb)) h = Inr (h, T) \<Longrightarrow>
    handler_step D g (g\<lparr>h_tcbs := set_pid T h pid, h_live := insert h (h_live g),
      h_saved := insert h (h_saved g), h_pcs := (h_pcs g)(i := Taken h)\<rparr>)"
| run: "h_pcs g i = Taken h \<Longrightarrow>
    handler_step D g (g\<lparr>h_tcbs := snd (set_state (h_tcbs g) h Running),
      h_saved := h_saved g - {h}, h_pcs := (h_pcs g)(i := Handling h)\<rparr>)"
| sleep: "h_pcs g i = Handling h \<Longrightarrow>
    handler_step D g (g\<lparr>h_tcbs := snd (set_state (h_tcbs g) h st), h_saved := insert h (h_saved g),
      h_away := insert h (h_away g), h_pcs := (h_pcs g)(i := Scheduling)\<rparr>)"
| resume: "h_pcs g i = Scheduling \<Longrightarrow> h \<in> h_away g \<Longrightarrow>
    handler_step D g (g\<lparr>h_tcbs := snd (set_state (h_tcbs g) h Ready),
      h_away := h_away g - {h}, h_pcs := (h_pcs g)(i := Taken h)\<rparr>)"
| park: "h_pcs g i = Handling h \<Longrightarrow>
    handler_step D g (g\<lparr>h_tcbs := snd (set_state (set_pid (h_tcbs g) h 0) h Blocking),
      h_pcs := (h_pcs g)(i := Parking h)\<rparr>)"
| push: "h_pcs g i = Parking h \<Longrightarrow> pool_free g \<Longrightarrow> dq_push_back D (h_pool g) h = Some hs \<Longrightarrow>
    handler_step D g (g\<lparr>h_pool := hs, h_pcs := (h_pcs g)(i := Pooled h)\<rparr>)"
| save: "h_pcs g i = Pooled h \<Longrightarrow>
    handler_step D g (g\<lparr>h_saved := insert h (h_saved g), h_pcs := (h_pcs g)(i := Saved h)\<rparr>)"
| switch: "h_pcs g i = Saved h \<Longrightarrow> handler_step D g (g\<lparr>h_pcs := (h_pcs g)(i := Leaving h)\<rparr>)"
| phase2: "h_pcs g i = Leaving h \<Longrightarrow>
    match_set_state (h_tcbs g) h Ready Blocked Blocked Exited Blocked = (Blocking, T) \<Longrightarrow>
    handler_step D g (g\<lparr>h_tcbs := T, h_pcs := (h_pcs g)(i := Scheduling)\<rparr>)"

text \<open>At the beginning the handlers of the pool are blocked and have a context to start from.\<close>

inductive handler_reach :: "task deque_ops \<Rightarrow> handlers \<Rightarrow> bool" for D where
  init: "distinct hs \<Longrightarrow> \<forall>h \<in> set hs. t_state (T h) = Blocked \<Longrightarrow>
    handler_reach D \<lparr>h_pool = hs, h_tcbs = T, h_away = {}, h_live = set hs, h_saved = set hs,
      h_pcs = (\<lambda>_. Scheduling)\<rparr>"
| step: "handler_reach D g \<Longrightarrow> handler_step D g g' \<Longrightarrow> handler_reach D g'"

section \<open>The invariant\<close>

fun handler_of :: "handler_pc \<Rightarrow> task option" where
  "handler_of Scheduling = None"
| "handler_of (Holding h) = Some h"
| "handler_of (Waiting h) = Some h"
| "handler_of (Taken h) = Some h"
| "handler_of (Handling h) = Some h"
| "handler_of (Parking h) = Some h"
| "handler_of (Pooled h) = Some h"
| "handler_of (Saved h) = Some h"
| "handler_of (Leaving h) = Some h"

text \<open>A core that takes a handler out of the pool, and a core that is about to leave it.\<close>

definition claims :: "handlers \<Rightarrow> nat \<Rightarrow> task \<Rightarrow> bool" where
  "claims g i h \<longleftrightarrow> h_pcs g i = Holding h \<or> h_pcs g i = Waiting h"

definition leaves :: "handlers \<Rightarrow> nat \<Rightarrow> task \<Rightarrow> bool" where
  "leaves g i h \<longleftrightarrow> h_pcs g i = Pooled h \<or> h_pcs g i = Saved h \<or> h_pcs g i = Leaving h"

definition owns :: "handlers \<Rightarrow> nat \<Rightarrow> task \<Rightarrow> bool" where
  "owns g i h \<longleftrightarrow> h_pcs g i = Taken h \<or> h_pcs g i = Handling h \<or> h_pcs g i = Parking h"

text \<open>
  Every handler is in one place: owned by a core, away, or on offer, in the pool or claimed by
  one core. Only a handler on offer may have a core that has not left it yet, which is one core
  and keeps it \<^verbatim>\<open>Blocking\<close>; otherwise it is \<^verbatim>\<open>Blocked\<close> with its context saved.
\<close>

definition offered :: "handlers \<Rightarrow> task \<Rightarrow> bool" where
  "offered g h \<longleftrightarrow> h \<in> set (h_pool g) \<or> (\<exists>i. claims g i h)"

definition handler_inv :: "handlers \<Rightarrow> task \<Rightarrow> bool" where
  "handler_inv g h \<longleftrightarrow>
     (\<forall>i j. claims g i h \<longrightarrow> claims g j h \<longrightarrow> i = j) \<and>
     (\<forall>i j. leaves g i h \<longrightarrow> leaves g j h \<longrightarrow> i = j) \<and>
     (\<forall>i j. owns g i h \<longrightarrow> owns g j h \<longrightarrow> i = j) \<and>
     (\<forall>i. claims g i h \<longrightarrow> h \<notin> set (h_pool g)) \<and>
     (\<forall>i. owns g i h \<longrightarrow> \<not> offered g h) \<and>
     (\<forall>i. leaves g i h \<longrightarrow> offered g h \<and> t_state (h_tcbs g h) = Blocking) \<and>
     (offered g h \<longrightarrow> (\<exists>i. leaves g i h) \<or> t_state (h_tcbs g h) = Blocked \<and> h \<in> h_saved g) \<and>
     (\<forall>i. h_pcs g i = Leaving h \<or> h_pcs g i = Saved h \<longrightarrow> h \<in> h_saved g) \<and>
     (\<forall>i. h_pcs g i = Taken h \<longrightarrow> t_state (h_tcbs g h) = Ready \<and> h \<in> h_saved g) \<and>
     (\<forall>i. h_pcs g i = Parking h \<longrightarrow> t_state (h_tcbs g h) = Blocking) \<and>
     (h \<in> h_away g \<longrightarrow> \<not> offered g h \<and> (\<forall>i. \<not> owns g i h) \<and> h \<in> h_saved g) \<and>
     (offered g h \<or> h \<in> h_away g \<or> (\<exists>i. owns g i h) \<longrightarrow> h \<in> h_live g)"

text \<open>A step of a core concerns one handler; nothing changes for the others.\<close>

lemma handler_inv_other:
  assumes "handler_inv g h" "h \<noteq> h0" "h_pcs g' = (h_pcs g)(i := pc)"
    and "handler_of (h_pcs g i) \<noteq> Some h" "handler_of pc \<noteq> Some h"
    and "h \<in> set (h_pool g') \<longleftrightarrow> h \<in> set (h_pool g)" "h_tcbs g' h = h_tcbs g h"
    and "h \<in> h_away g' \<longleftrightarrow> h \<in> h_away g" "h \<in> h_live g \<Longrightarrow> h \<in> h_live g'"
    and "h \<in> h_saved g' \<longleftrightarrow> h \<in> h_saved g"
  shows "handler_inv g' h"
proof -
  have pc: "h_pcs g' j = X \<longleftrightarrow> h_pcs g j = X" if "handler_of X = Some h" for j X
    using that assms(3-5) by auto
  have "claims g' j h = claims g j h" "leaves g' j h = leaves g j h" "owns g' j h = owns g j h" for j
    by (simp_all add: claims_def leaves_def owns_def pc)
  moreover from this have "offered g' h = offered g h" using assms(6) by (simp add: offered_def)
  ultimately show ?thesis
    using assms(1,6-10) by (simp add: handler_inv_def pc)
qed

lemmas place_defs = claims_def leaves_def owns_def

lemma step_take:
  assumes "handler_inv g h" "h_pcs g i = Holding h \<or> h_pcs g i = Waiting h" "t_state (h_tcbs g h) = Blocked"
    and "h_pcs g' = (h_pcs g)(i := Taken h)" "h_pool g' = h_pool g" "t_state (h_tcbs g' h) = Ready"
    "h_away g' = h_away g" "h_live g' = h_live g" "h_saved g' = h_saved g"
  shows "handler_inv g' h"
proof -
  have cl: "claims g i h" using assms(2) by (simp add: claims_def)
  have "\<not> leaves g j h" for j using assms(1,3) unfolding handler_inv_def by auto
  moreover have "\<not> owns g j h" "claims g j h \<longleftrightarrow> j = i" for j
    using assms(1) cl unfolding handler_inv_def offered_def by blast+
  moreover have "h \<notin> set (h_pool g)" "h \<notin> h_away g" "h \<in> h_saved g" "h \<in> h_live g"
    using assms(1) cl \<open>\<And>j. \<not> leaves g j h\<close> unfolding handler_inv_def offered_def by blast+
  ultimately have p: "\<not> leaves g' j h" "owns g' j h \<longleftrightarrow> j = i" "\<not> claims g' j h" for j
    using assms(4) by (auto simp: place_defs)
  then have "\<not> offered g' h" using assms(5) \<open>h \<notin> set (h_pool g)\<close> by (simp add: offered_def)
  moreover have "h_pcs g' j \<noteq> Leaving h \<and> h_pcs g' j \<noteq> Saved h" "h_pcs g' j = Parking h \<Longrightarrow> False" for j
    using p(1,2) [of j] assms(4) by (auto simp: place_defs split: if_splits)
  ultimately show ?thesis
    using p assms(5-9) \<open>h \<notin> h_away g\<close> \<open>h \<in> h_saved g\<close> \<open>h \<in> h_live g\<close>
    unfolding handler_inv_def by auto
qed

lemma step_pop:
  assumes "handler_inv g h" "h_pcs g i = Scheduling" "h \<in> set (h_pool g)" "h \<notin> set (h_pool g')"
    and "h_pcs g' = (h_pcs g)(i := Holding h)" "h_tcbs g' = h_tcbs g"
    "h_away g' = h_away g" "h_live g' = h_live g" "h_saved g' = h_saved g"
  shows "handler_inv g' h"
proof -
  have "\<not> claims g j h" "\<not> owns g j h" "h \<notin> h_away g" for j
    using assms(1,3) unfolding handler_inv_def offered_def by blast+
  then have p: "claims g' j h \<longleftrightarrow> j = i" "leaves g' j h = leaves g j h" "\<not> owns g' j h" for j
    using assms(2,5) by (auto simp: place_defs)
  then have "offered g' h" "offered g h" using assms(3) by (auto simp: offered_def)
  moreover have "h_pcs g' j = X \<longleftrightarrow> h_pcs g j = X" if "X \<in> {Leaving h, Saved h, Taken h, Parking h}" for j X
    using that assms(2,5) by auto
  ultimately show ?thesis
    using assms(1,4,6-9) p \<open>h \<notin> h_away g\<close> unfolding handler_inv_def by simp
qed

lemma step_own:
  assumes "handler_inv g h" "h_pcs g i = Taken h \<or> h_pcs g i = Handling h"
    and "h_pcs g' = (h_pcs g)(i := pc)" "pc = Handling h \<or> pc = Parking h \<and> t_state (h_tcbs g' h) = Blocking"
    and "h_pool g' = h_pool g" "h_away g' = h_away g" "h_live g' = h_live g"
  shows "handler_inv g' h"
proof -
  have ow: "owns g i h" using assms(2) by (auto simp: owns_def)
  then have "\<not> offered g h" "h \<notin> h_away g" "h \<in> h_live g" "owns g j h \<longleftrightarrow> j = i" "\<not> leaves g j h" for j
    using assms(1) unfolding handler_inv_def by blast+
  note o = this
  have p: "\<not> claims g' j h" "\<not> leaves g' j h" "owns g' j h \<longleftrightarrow> j = i" for j
    using o(1,4,5) assms(2-4) by (auto simp: place_defs offered_def)
  then have "\<not> offered g' h" using o(1) assms(5) by (simp add: offered_def)
  moreover have "h_pcs g' j \<noteq> Leaving h" "h_pcs g' j \<noteq> Saved h" "h_pcs g' j \<noteq> Taken h"
    "h_pcs g' j = Parking h \<Longrightarrow> t_state (h_tcbs g' h) = Blocking" for j
    using p(2,3) [of j] assms(3,4) by (auto simp: place_defs split: if_splits)
  ultimately show ?thesis
    using p o(2,3) assms(5-7) unfolding handler_inv_def by simp
qed

lemma step_push:
  assumes "handler_inv g h" "h_pcs g i = Parking h" "h \<in> set (h_pool g')"
    and "h_pcs g' = (h_pcs g)(i := Pooled h)" "h_tcbs g' = h_tcbs g"
    "h_away g' = h_away g" "h_live g' = h_live g" "h_saved g' = h_saved g"
  shows "handler_inv g' h"
proof -
  have ow: "owns g i h" using assms(2) by (auto simp: owns_def)
  then have "\<not> offered g h" "h \<notin> h_away g" "h \<in> h_live g" "owns g j h \<longleftrightarrow> j = i" "\<not> leaves g j h" for j
    using assms(1) unfolding handler_inv_def by blast+
  note o = this
  have p: "\<not> claims g' j h" "leaves g' j h \<longleftrightarrow> j = i" "\<not> owns g' j h" for j
    using o(1,4,5) assms(2,4) by (auto simp: place_defs offered_def)
  then have "offered g' h" using assms(3) by (simp add: offered_def)
  moreover have "h_pcs g' j \<noteq> Leaving h" "h_pcs g' j \<noteq> Saved h" "h_pcs g' j \<noteq> Taken h" "h_pcs g' j \<noteq> Parking h" for j
    using p(2,3) [of j] assms(4) by (auto simp: place_defs split: if_splits)
  moreover have "t_state (h_tcbs g' h) = Blocking" using assms(1,2,5) unfolding handler_inv_def by metis
  ultimately show ?thesis
    using p o(2,3) assms(6,7) unfolding handler_inv_def by auto
qed

lemma step_leave:
  assumes "handler_inv g h" "leaves g i h"
    and "h_pcs g' = (h_pcs g)(i := pc)" "pc = Saved h \<or> pc = Leaving h" "h \<in> h_saved g'"
    "h_pool g' = h_pool g" "h_tcbs g' = h_tcbs g" "h_away g' = h_away g" "h_live g' = h_live g"
  shows "handler_inv g' h"
proof -
  have p: "claims g' j h = claims g j h" "leaves g' j h = leaves g j h" "owns g' j h = owns g j h" for j
    using assms(2-4) by (auto simp: place_defs)
  moreover from p(1) have "offered g' h = offered g h" using assms(6) by (simp add: offered_def)
  moreover have "h_pcs g' j = Taken h \<longleftrightarrow> h_pcs g j = Taken h" "h_pcs g' j = Parking h \<longleftrightarrow> h_pcs g j = Parking h" for j
    using assms(2-4) by (auto simp: leaves_def)
  ultimately show ?thesis
    using assms(1,5-9) unfolding handler_inv_def by auto
qed

lemma step_phase2:
  assumes "handler_inv g h" "h_pcs g i = Leaving h" "t_state (h_tcbs g' h) = Blocked"
    and "h_pcs g' = (h_pcs g)(i := Scheduling)"
    "h_pool g' = h_pool g" "h_away g' = h_away g" "h_live g' = h_live g" "h_saved g' = h_saved g"
  shows "handler_inv g' h"
proof -
  have lv: "leaves g i h" using assms(2) by (simp add: leaves_def)
  then have o: "offered g h" "leaves g j h \<longleftrightarrow> j = i" "h \<in> h_saved g" for j
    using assms(1,2) unfolding handler_inv_def by blast+
  then have w: "\<not> owns g j h" for j using assms(1) unfolding handler_inv_def by blast
  have p: "claims g' j h = claims g j h" "\<not> leaves g' j h" "\<not> owns g' j h" for j
    using o(2) w assms(2,4) by (auto simp: place_defs)
  then have "offered g' h" using o(1) assms(5) by (simp add: offered_def)
  moreover have "h_pcs g' j \<noteq> Leaving h" "h_pcs g' j \<noteq> Saved h" "h_pcs g' j \<noteq> Taken h" "h_pcs g' j \<noteq> Parking h" for j
    using p(2,3) [of j] by (auto simp: place_defs)
  ultimately show ?thesis
    using assms(1,3,5-8) p o unfolding handler_inv_def by simp
qed

lemma step_wait:
  assumes "handler_inv g h" "h_pcs g i = Holding h \<or> h_pcs g i = Waiting h"
    and "h_pcs g' = (h_pcs g)(i := Waiting h)" "t_state (h_tcbs g' h) = t_state (h_tcbs g h)"
    "h_pool g' = h_pool g" "h_away g' = h_away g" "h_live g' = h_live g" "h_saved g' = h_saved g"
  shows "handler_inv g' h"
proof -
  have p: "claims g' j h = claims g j h" "leaves g' j h = leaves g j h" "owns g' j h = owns g j h" for j
    using assms(2,3) by (auto simp: place_defs)
  moreover from p(1) have "offered g' h = offered g h" using assms(5) by (simp add: offered_def)
  moreover have "h_pcs g' j = X \<longleftrightarrow> h_pcs g j = X" if "X \<in> {Leaving h, Saved h, Taken h, Parking h}" for j X
    using that assms(2,3) by auto
  ultimately show ?thesis
    using assms(1,4-8) unfolding handler_inv_def by simp
qed

lemma step_sleep:
  assumes "handler_inv g h" "h_pcs g i = Handling h" "h_pcs g' = (h_pcs g)(i := Scheduling)"
    and "h_pool g' = h_pool g" "h \<in> h_saved g'" "h_live g' = h_live g"
  shows "handler_inv g' h"
proof -
  have ow: "owns g i h" using assms(2) by (simp add: owns_def)
  then have o: "\<not> offered g h" "h \<in> h_live g" "owns g j h \<longleftrightarrow> j = i" "\<not> leaves g j h" for j
    using assms(1) unfolding handler_inv_def by blast+
  have p: "\<not> claims g' j h" "\<not> leaves g' j h" "\<not> owns g' j h" for j
    using o(1,3,4) assms(2,3) by (auto simp: place_defs offered_def)
  then have "\<not> offered g' h" using o(1) assms(4) by (simp add: offered_def)
  moreover have "h_pcs g' j \<noteq> Leaving h" "h_pcs g' j \<noteq> Saved h" "h_pcs g' j \<noteq> Taken h" "h_pcs g' j \<noteq> Parking h" for j
    using p(2,3) [of j] by (auto simp: place_defs)
  ultimately show ?thesis
    using p o(2) assms(5,6) unfolding handler_inv_def by simp
qed

text \<open>A handler that no core has anything to do with gets a core of its own.\<close>

lemma step_get:
  assumes "handler_inv g h" "h_pcs g i = Scheduling" "\<not> offered g h" "\<And>j. \<not> owns g j h"
    and "h_pcs g' = (h_pcs g)(i := Taken h)" "t_state (h_tcbs g' h) = Ready"
    "h_pool g' = h_pool g" "h \<notin> h_away g'" "h \<in> h_live g'" "h \<in> h_saved g'"
  shows "handler_inv g' h"
proof -
  have "\<not> leaves g j h" for j using assms(1,3) unfolding handler_inv_def by blast
  then have p: "\<not> claims g' j h" "\<not> leaves g' j h" "owns g' j h \<longleftrightarrow> j = i" for j
    using assms(2-5) by (auto simp: place_defs offered_def)
  then have "\<not> offered g' h" using assms(3,7) by (simp add: offered_def)
  moreover have "h_pcs g' j \<noteq> Leaving h" "h_pcs g' j \<noteq> Saved h" "h_pcs g' j \<noteq> Parking h" for j
    using p(2,3) [of j] assms(5) by (auto simp: place_defs split: if_splits)
  ultimately show ?thesis
    using p assms(6,8-10) unfolding handler_inv_def by simp
qed

section \<open>Every step keeps it\<close>

definition handlers_inv :: "handlers \<Rightarrow> bool" where
  "handlers_inv g \<longleftrightarrow> distinct (h_pool g) \<and> (\<forall>h. handler_inv g h)"

lemma take_handlerD:
  assumes "take_handler T h = (st, T')"
  shows "st = t_state (T h)" "x \<noteq> h \<Longrightarrow> T' x = T x" "st = Blocked \<Longrightarrow> t_state (T' h) = Ready"
    "st = Blocking \<Longrightarrow> T' = T"
proof -
  have "T(h := (T h)\<lparr>t_state := Blocking\<rparr>) = T" if "t_state (T h) = Blocking"
    using that by (metis (no_types, lifting) fun_upd_triv tcb.surjective tcb.update_convs(1))
  then show "st = t_state (T h)" "x \<noteq> h \<Longrightarrow> T' x = T x" "st = Blocked \<Longrightarrow> t_state (T' h) = Ready"
    "st = Blocking \<Longrightarrow> T' = T"
    using assms by (auto simp: take_handler_def match_set_state_def)
qed

lemma set_pid_state: "t_state (set_pid T h p x) = t_state (T x)" "x \<noteq> h \<Longrightarrow> set_pid T h p x = T x"
  by (simp_all add: set_pid_def)

lemma claim_state: "handler_inv g h \<Longrightarrow> claims g i h \<Longrightarrow> t_state (h_tcbs g h) = Blocked \<or> t_state (h_tcbs g h) = Blocking"
  unfolding handler_inv_def offered_def by metis

lemma leaving_state: "handler_inv g h \<Longrightarrow> h_pcs g i = Leaving h \<Longrightarrow> t_state (h_tcbs g h) = Blocking"
  unfolding handler_inv_def leaves_def by metis

text \<open>From one handler to all.\<close>

lemma handlers_invI:
  assumes "handlers_inv g" "handler_inv g' h" "distinct (h_pool g')" "h_pcs g' = (h_pcs g)(i := pc)"
    and "handler_of (h_pcs g i) \<in> {None, Some h}" "handler_of pc \<in> {None, Some h}"
    and "\<And>x. x \<noteq> h \<Longrightarrow> x \<in> set (h_pool g') \<longleftrightarrow> x \<in> set (h_pool g)"
    and "\<And>x. x \<noteq> h \<Longrightarrow> h_tcbs g' x = h_tcbs g x"
    and "\<And>x. x \<noteq> h \<Longrightarrow> x \<in> h_away g' \<longleftrightarrow> x \<in> h_away g" "h_live g \<subseteq> h_live g'"
    and "\<And>x. x \<noteq> h \<Longrightarrow> x \<in> h_saved g' \<longleftrightarrow> x \<in> h_saved g"
  shows "handlers_inv g'"
  unfolding handlers_inv_def
proof (intro conjI allI)
  show "distinct (h_pool g')" by fact
  show "handler_inv g' x" for x
  proof (cases "x = h")
    case True
    then show ?thesis using assms(2) by simp
  next
    case False
    have "handler_inv g x" using assms(1) by (simp add: handlers_inv_def)
    then show ?thesis
      by (rule handler_inv_other [OF _ False assms(4)]) (use assms(5-11) False in auto)
  qed
qed

lemma handlers_invD:
  assumes "handlers_inv g"
  shows "distinct (h_pool g)" "handler_inv g h"
  using assms by (simp_all add: handlers_inv_def)

lemma handler_step_inv:
  assumes "handler_step D g g'" "handlers_inv g" "deque_laws N D"
  shows "handlers_inv g'"
  using assms
proof (induction rule: handler_step.induct)
  case (pop g i h hs)
  note I = handlers_invD [OF pop.prems(1)]
  have q: "h_pool g = h # hs"
    using pop.hyps(3) by (auto simp: deque_lawsD [OF pop.prems(2)] split: list.splits)
  have "handler_inv (g\<lparr>h_pool := hs, h_pcs := (h_pcs g)(i := Holding h)\<rparr>) h"
    using step_pop [OF I(2) pop.hyps(1)] I(1) q by simp
  then show ?case
    by (rule handlers_invI [where i = i and h = h, OF pop.prems(1)])
      (use pop.hyps q I(1) in auto)
next
  case (runnable g i h T pid)
  note I = handlers_invD [OF runnable.prems(1)] and t = take_handlerD [OF runnable.hyps(2)]
  have "handler_inv (g\<lparr>h_tcbs := set_pid T h pid, h_pcs := (h_pcs g)(i := Taken h)\<rparr>) h"
    using step_take [OF I(2), of i h] runnable.hyps t by (simp add: set_pid_state)
  then show ?case
    by (rule handlers_invI [where i = i and h = h, OF runnable.prems(1)])
      (use runnable.hyps I t in \<open>auto simp: set_pid_state\<close>)
next
  case (released g i h T pid)
  note I = handlers_invD [OF released.prems(1)] and t = take_handlerD [OF released.hyps(2)]
  have "handler_inv (g\<lparr>h_tcbs := set_pid T h pid, h_pcs := (h_pcs g)(i := Taken h)\<rparr>) h"
    using step_take [OF I(2), of i h] released.hyps t by (simp add: set_pid_state)
  then show ?case
    by (rule handlers_invI [where i = i and h = h, OF released.prems(1)])
      (use released.hyps I t in \<open>auto simp: set_pid_state\<close>)
next
  case (blocking g i h T)
  note I = handlers_invD [OF blocking.prems(1)] and t = take_handlerD [OF blocking.hyps(2)]
  have "handler_inv (g\<lparr>h_tcbs := T, h_pcs := (h_pcs g)(i := Waiting h)\<rparr>) h"
    using step_wait [OF I(2), of i h] blocking.hyps t by simp
  then show ?case
    by (rule handlers_invI [where i = i and h = h, OF blocking.prems(1)])
      (use blocking.hyps I t in auto)
next
  case (spin g i h st T)
  note I = handlers_invD [OF spin.prems(1)] and t = take_handlerD [OF spin.hyps(2)]
  have "T = h_tcbs g" using claim_state [OF I(2), of i h] spin.hyps(1,3) t(1,4) by (auto simp: claims_def)
  then show ?case using spin.prems(1) by simp
next
  case (grow g i h tcb T pid)
  note I = handlers_invD [OF grow.prems(1)]
  have h: "\<not> offered g h" "\<not> owns g j h" "h \<notin> h_away g" for j
    using I(2) [of h] grow.hyps(4) unfolding handler_inv_def by blast+
  have T: "t_state (T h) = Ready" "\<And>x. x \<noteq> h \<Longrightarrow> T x = h_tcbs g x"
    using grow.hyps(5) by (auto simp: create_new_handler_def match_set_state_def split: if_splits)
  have "handler_inv (g\<lparr>h_tcbs := set_pid T h pid, h_live := insert h (h_live g),
      h_saved := insert h (h_saved g), h_pcs := (h_pcs g)(i := Taken h)\<rparr>) h"
    using step_get [OF I(2) grow.hyps(1) h(1,2)] h(3) T(1) by (simp add: set_pid_state)
  then show ?case
    by (rule handlers_invI [where i = i and h = h, OF grow.prems(1)])
      (use grow.hyps I T in \<open>auto simp: set_pid_state\<close>)
next
  case (run g i h)
  note I = handlers_invD [OF run.prems(1)]
  have "handler_inv (g\<lparr>h_tcbs := snd (set_state (h_tcbs g) h Running),
      h_saved := h_saved g - {h}, h_pcs := (h_pcs g)(i := Handling h)\<rparr>) h"
    using step_own [OF I(2), of i h] run.hyps by simp
  then show ?case
    by (rule handlers_invI [where i = i and h = h, OF run.prems(1)])
      (use run.hyps I in \<open>auto simp: set_state_def\<close>)
next
  case (sleep g i h st)
  note I = handlers_invD [OF sleep.prems(1)]
  have "handler_inv (g\<lparr>h_tcbs := snd (set_state (h_tcbs g) h st), h_saved := insert h (h_saved g),
      h_away := insert h (h_away g), h_pcs := (h_pcs g)(i := Scheduling)\<rparr>) h"
    using step_sleep [OF I(2), of i h] sleep.hyps by simp
  then show ?case
    by (rule handlers_invI [where i = i and h = h, OF sleep.prems(1)])
      (use sleep.hyps I in \<open>auto simp: set_state_def\<close>)
next
  case (resume g i h)
  note I = handlers_invD [OF resume.prems(1)]
  have h: "\<not> offered g h" "\<not> owns g j h" "h \<in> h_live g" "h \<in> h_saved g" for j
    using I(2) [of h] resume.hyps(2) unfolding handler_inv_def by blast+
  have "handler_inv (g\<lparr>h_tcbs := snd (set_state (h_tcbs g) h Ready),
      h_away := h_away g - {h}, h_pcs := (h_pcs g)(i := Taken h)\<rparr>) h"
    using step_get [OF I(2) resume.hyps(1) h(1,2)] h(3,4) by (simp add: set_state_def)
  then show ?case
    by (rule handlers_invI [where i = i and h = h, OF resume.prems(1)])
      (use resume.hyps I in \<open>auto simp: set_state_def\<close>)
next
  case (park g i h)
  note I = handlers_invD [OF park.prems(1)]
  have "handler_inv (g\<lparr>h_tcbs := snd (set_state (set_pid (h_tcbs g) h 0) h Blocking),
      h_pcs := (h_pcs g)(i := Parking h)\<rparr>) h"
    using step_own [OF I(2), of i h] park.hyps by (simp add: set_state_def)
  then show ?case
    by (rule handlers_invI [where i = i and h = h, OF park.prems(1)])
      (use park.hyps I in \<open>auto simp: set_state_def set_pid_def\<close>)
next
  case (push g i h hs)
  note I = handlers_invD [OF push.prems(1)]
  have q: "hs = h_pool g @ [h]"
    using push.hyps(3) by (auto simp: deque_lawsD [OF push.prems(2)] split: if_splits)
  have "owns g i h" using push.hyps(1) by (simp add: owns_def)
  then have out: "h \<notin> set (h_pool g)" using I(2) [of h] unfolding handler_inv_def offered_def by blast
  have "handler_inv (g\<lparr>h_pool := hs, h_pcs := (h_pcs g)(i := Pooled h)\<rparr>) h"
    using step_push [OF I(2) push.hyps(1)] q by simp
  then show ?case
    by (rule handlers_invI [where i = i and h = h, OF push.prems(1)])
      (use push.hyps I q out in auto)
next
  case (save g i h)
  note I = handlers_invD [OF save.prems(1)]
  have "handler_inv (g\<lparr>h_saved := insert h (h_saved g), h_pcs := (h_pcs g)(i := Saved h)\<rparr>) h"
    using step_leave [OF I(2), of i h] save.hyps by (simp add: leaves_def)
  then show ?case
    by (rule handlers_invI [where i = i and h = h, OF save.prems(1)])
      (use save.hyps I in auto)
next
  case (switch g i h)
  note I = handlers_invD [OF switch.prems(1)]
  have "h \<in> h_saved g" using I(2) [of h] switch.hyps unfolding handler_inv_def by blast
  then have "handler_inv (g\<lparr>h_pcs := (h_pcs g)(i := Leaving h)\<rparr>) h"
    using step_leave [OF I(2), of i h] switch.hyps by (simp add: leaves_def)
  then show ?case
    by (rule handlers_invI [where i = i and h = h, OF switch.prems(1)])
      (use switch.hyps I in auto)
next
  case (phase2 g i h T)
  note I = handlers_invD [OF phase2.prems(1)]
  have T: "t_state (T h) = Blocked" "\<And>x. x \<noteq> h \<Longrightarrow> T x = h_tcbs g x"
    using phase2.hyps(2) by (auto simp: match_set_state_def)
  have "handler_inv (g\<lparr>h_tcbs := T, h_pcs := (h_pcs g)(i := Scheduling)\<rparr>) h"
    using step_phase2 [OF I(2) phase2.hyps(1)] T(1) by simp
  then show ?case
    by (rule handlers_invI [where i = i and h = h, OF phase2.prems(1)])
      (use phase2.hyps I T in auto)
qed

lemma handler_reach_inv:
  assumes "handler_reach D g" "deque_laws N D"
  shows "handlers_inv g"
  using assms
proof (induction rule: handler_reach.induct)
  case (init hs T)
  then show ?case
    by (simp add: handlers_inv_def handler_inv_def offered_def place_defs)
next
  case (step g g')
  then show ?case using handler_step_inv by blast
qed

lemma handler_of_place:
  "handler_of (h_pcs g i) = Some h \<longleftrightarrow> claims g i h \<or> leaves g i h \<or> owns g i h"
  by (cases "h_pcs g i") (auto simp: place_defs)

lemma owner_alone:
  assumes "handler_inv g h" "owns g i h"
  shows "handler_of (h_pcs g j) = Some h \<longleftrightarrow> j = i" "h \<notin> set (h_pool g)"
proof -
  have "\<not> claims g j h" "\<not> leaves g j h" "owns g j h \<longleftrightarrow> j = i" "h \<notin> set (h_pool g)" for j
    using assms unfolding handler_inv_def offered_def by blast+
  then show "handler_of (h_pcs g j) = Some h \<longleftrightarrow> j = i" "h \<notin> set (h_pool g)"
    by (simp_all add: handler_of_place)
qed

text \<open>The core a handler waits for leaves it in at most three steps.\<close>

lemma leaves_steps:
  assumes "leaves g j h" "t_state (h_tcbs g h) = Blocking"
  obtains g' where "(handler_step D)\<^sup>*\<^sup>* g g'" "t_state (h_tcbs g' h) = Blocked"
    "\<forall>x. x \<noteq> j \<longrightarrow> h_pcs g' x = h_pcs g x"
proof -
  have phase2: "\<exists>g'. (handler_step D)\<^sup>*\<^sup>* g g' \<and> t_state (h_tcbs g' h) = Blocked \<and>
      (\<forall>x. x \<noteq> j \<longrightarrow> h_pcs g' x = h_pcs g x)"
    if "h_pcs g j = Leaving h" "t_state (h_tcbs g h) = Blocking" for g
  proof -
    let ?T = "(h_tcbs g)(h := (h_tcbs g h)\<lparr>t_state := Blocked\<rparr>)"
    let ?g = "g\<lparr>h_tcbs := ?T, h_pcs := (h_pcs g)(j := Scheduling)\<rparr>"
    have "handler_step D g ?g"
      by (rule handler_step.phase2 [OF that(1)]) (simp add: match_set_state_def that(2))
    then show ?thesis by (intro exI [of _ ?g]) auto
  qed
  have saved: "\<exists>g'. (handler_step D)\<^sup>*\<^sup>* g g' \<and> t_state (h_tcbs g' h) = Blocked \<and>
      (\<forall>x. x \<noteq> j \<longrightarrow> h_pcs g' x = h_pcs g x)"
    if sv: "h_pcs g j = Saved h" "t_state (h_tcbs g h) = Blocking" for g
  proof -
    let ?g = "g\<lparr>h_pcs := (h_pcs g)(j := Leaving h)\<rparr>"
    obtain g' where g': "(handler_step D)\<^sup>*\<^sup>* ?g g'" "t_state (h_tcbs g' h) = Blocked"
      "\<forall>x. x \<noteq> j \<longrightarrow> h_pcs g' x = h_pcs ?g x"
      using phase2 [of ?g] sv(2) by auto
    have "(handler_step D)\<^sup>*\<^sup>* g g'"
      using handler_step.switch [OF sv(1), of D] g'(1) by (rule converse_rtranclp_into_rtranclp)
    with g'(2,3) show ?thesis by (intro exI [of _ g']) simp
  qed
  have "\<exists>g'. (handler_step D)\<^sup>*\<^sup>* g g' \<and> t_state (h_tcbs g' h) = Blocked \<and>
      (\<forall>x. x \<noteq> j \<longrightarrow> h_pcs g' x = h_pcs g x)"
  proof (cases "h_pcs g j = Pooled h")
    case True
    let ?g = "g\<lparr>h_saved := insert h (h_saved g), h_pcs := (h_pcs g)(j := Saved h)\<rparr>"
    obtain g' where g': "(handler_step D)\<^sup>*\<^sup>* ?g g'" "t_state (h_tcbs g' h) = Blocked"
      "\<forall>x. x \<noteq> j \<longrightarrow> h_pcs g' x = h_pcs ?g x"
      using saved [of ?g] assms(2) by auto
    have "(handler_step D)\<^sup>*\<^sup>* g g'"
      using handler_step.save [OF True, of D] g'(1) by (rule converse_rtranclp_into_rtranclp)
    with g'(2,3) show ?thesis by (intro exI [of _ g']) simp
  next
    case False
    then show ?thesis using assms saved [of g] phase2 [of g] by (auto simp: leaves_def)
  qed
  then show thesis using that by blast
qed

lemma waiting_steps:
  assumes "handlers_inv g" "h_pcs g i = Waiting h"
  shows "\<exists>g'. (handler_step D)\<^sup>*\<^sup>* g g' \<and> h_pcs g' i = Taken h"
proof -
  have release: "\<exists>g'. (handler_step D)\<^sup>*\<^sup>* g g' \<and> h_pcs g' i = Taken h"
    if "h_pcs g i = Waiting h" "t_state (h_tcbs g h) = Blocked" for g
  proof -
    have "take_handler (h_tcbs g) h = (Blocked, (h_tcbs g)(h := (h_tcbs g h)\<lparr>t_state := Ready\<rparr>))"
      by (simp add: take_handler_def match_set_state_def that(2))
    from handler_step.released [OF that(1) this, of D 0] show ?thesis
      by (intro exI conjI r_into_rtranclp) (assumption, simp)
  qed
  have cl: "claims g i h" using assms(2) by (simp add: claims_def)
  note I = handlers_invD(2) [OF assms(1), of h]
  show ?thesis
  proof (cases "t_state (h_tcbs g h) = Blocked")
    case True
    with assms(2) release show ?thesis by blast
  next
    case False
    then obtain j where j: "leaves g j h" "t_state (h_tcbs g h) = Blocking"
      using I cl unfolding handler_inv_def offered_def by blast
    obtain g' where g': "(handler_step D)\<^sup>*\<^sup>* g g'" "t_state (h_tcbs g' h) = Blocked"
      "\<forall>x. x \<noteq> j \<longrightarrow> h_pcs g' x = h_pcs g x"
      by (rule leaves_steps [where D = D, OF j])
    have "i \<noteq> j" using j(1) assms(2) by (auto simp: leaves_def)
    with g'(3) assms(2) have "h_pcs g' i = Waiting h" by simp
    from release [OF this g'(2)] g'(1) show ?thesis by (meson rtranclp_trans)
  qed
qed

text \<open>
  C18: However the cores interleave in taking trap handlers out of the pool, running them and
  putting them back: a handler that \<^verbatim>\<open>take_task\<close> has given to a core, or that a core runs, is out
  of the pool and no other core has anything to do with it, not even a core that ran it before;
  a handler given to a core is ready and its context is saved. The state of a popped handler is
  one of the two \<^verbatim>\<open>get_idle_handler\<close> expects, that of a handler that is leaving is the one
  \<^verbatim>\<open>thread_entry_phase2\<close> expects, and a core that waits for a handler can get it.
\<close>

theorem handler_exclusive:
  assumes "handler_reach D g" "deque_laws N D"
  shows "(\<forall>i h. h_pcs g i = Taken h \<or> h_pcs g i = Handling h \<longrightarrow>
      h \<notin> set (h_pool g) \<and> (\<forall>j. handler_of (h_pcs g j) = Some h \<longleftrightarrow> j = i)) \<and>
    (\<forall>i h. h_pcs g i = Taken h \<longrightarrow> t_state (h_tcbs g h) = Ready \<and> h \<in> h_saved g) \<and>
    (\<forall>i h. h_pcs g i = Holding h \<longrightarrow> t_state (h_tcbs g h) = Blocked \<or> t_state (h_tcbs g h) = Blocking) \<and>
    (\<forall>i h. h_pcs g i = Leaving h \<longrightarrow> t_state (h_tcbs g h) = Blocking) \<and>
    (\<forall>i h. h_pcs g i = Waiting h \<longrightarrow> (\<exists>g'. (handler_step D)\<^sup>*\<^sup>* g g' \<and> h_pcs g' i = Taken h))"
proof -
  note inv = handler_reach_inv [OF assms] note I = handlers_invD(2) [OF inv]
  have "owns g i h" if "h_pcs g i = Taken h \<or> h_pcs g i = Handling h" for i h
    using that by (auto simp: owns_def)
  then have "\<forall>i h. h_pcs g i = Taken h \<or> h_pcs g i = Handling h \<longrightarrow>
      h \<notin> set (h_pool g) \<and> (\<forall>j. handler_of (h_pcs g j) = Some h \<longleftrightarrow> j = i)"
    using owner_alone [OF I] by blast
  moreover have "\<forall>i h. h_pcs g i = Taken h \<longrightarrow> t_state (h_tcbs g h) = Ready \<and> h \<in> h_saved g"
    using I unfolding handler_inv_def by blast
  moreover have "\<forall>i h. h_pcs g i = Holding h \<longrightarrow> t_state (h_tcbs g h) = Blocked \<or> t_state (h_tcbs g h) = Blocking"
    using claim_state [OF I] unfolding claims_def by blast
  moreover have "\<forall>i h. h_pcs g i = Leaving h \<longrightarrow> t_state (h_tcbs g h) = Blocking"
    using leaving_state [OF I] by blast
  moreover have "\<forall>i h. h_pcs g i = Waiting h \<longrightarrow> (\<exists>g'. (handler_step D)\<^sup>*\<^sup>* g g' \<and> h_pcs g' i = Taken h)"
    by (intro allI impI waiting_steps [OF inv])
  ultimately show ?thesis by (intro conjI)
qed

text \<open>
  One handler, two cores: core 0 runs the handler and puts it back; core 1 takes it before
  core 0 has left it.
\<close>

lemma waiting_reached:
  "\<exists>g. handler_reach (list_deque 256) g \<and> h_pcs g 1 = Waiting 20"
proof -
  let ?D = "list_deque 256 :: task deque_ops"
  let ?t = "\<lambda>st. \<lparr>t_state = st, t_priority = 0, t_is_coroutine = False, t_is_kernel = True, t_pid = 0,
    t_thread_stack = 0, t_return_value = None, t_dealloced = False\<rparr>"
  let ?T = "\<lambda>st. (\<lambda>_. ?t Blocked)(20 := ?t st)"
  let ?g = "\<lambda>q st saved pc0 pc1. \<lparr>h_pool = q, h_tcbs = ?T st, h_away = {}, h_live = {20}, h_saved = saved,
    h_pcs = (\<lambda>_. Scheduling)(0 := pc0, 1 := pc1)\<rparr>"
  have idle: "(\<lambda>_. Scheduling) = (\<lambda>_. Scheduling)(0 := Scheduling, 1 := Scheduling)" by (simp add: fun_upd_idem)
  have g0: "handler_reach ?D (?g [20] Blocked {20} Scheduling Scheduling)"
    using handler_reach.init [of "[20]" "?T Blocked" ?D] by (simp add: fun_upd_idem)
  have "handler_step ?D (?g [20] Blocked {20} Scheduling Scheduling) (?g [] Blocked {20} (Holding 20) Scheduling)"
    using handler_step.pop [of "?g [20] Blocked {20} Scheduling Scheduling" 0 ?D 20 "[]"]
    by (simp add: pool_free_def fun_upd_twist list_deque_def)
  note g1 = handler_reach.step [OF g0 this]
  have "handler_step ?D (?g [] Blocked {20} (Holding 20) Scheduling) (?g [] Ready {20} (Taken 20) Scheduling)"
    using handler_step.runnable [of "?g [] Blocked {20} (Holding 20) Scheduling" 0 20 "?T Ready" ?D 0]
    by (simp add: take_handler_def match_set_state_def set_pid_def fun_upd_twist)
  note g2 = handler_reach.step [OF g1 this]
  have "handler_step ?D (?g [] Ready {20} (Taken 20) Scheduling) (?g [] Running {} (Handling 20) Scheduling)"
    using handler_step.run [of "?g [] Ready {20} (Taken 20) Scheduling" 0 20 ?D]
    by (simp add: set_state_def fun_upd_twist)
  note g3 = handler_reach.step [OF g2 this]
  have "handler_step ?D (?g [] Running {} (Handling 20) Scheduling) (?g [] Blocking {} (Parking 20) Scheduling)"
    using handler_step.park [of "?g [] Running {} (Handling 20) Scheduling" 0 20 ?D]
    by (simp add: set_state_def set_pid_def fun_upd_twist)
  note g4 = handler_reach.step [OF g3 this]
  have "handler_step ?D (?g [] Blocking {} (Parking 20) Scheduling) (?g [20] Blocking {} (Pooled 20) Scheduling)"
    using handler_step.push [of "?g [] Blocking {} (Parking 20) Scheduling" 0 20 ?D "[20]"]
    by (simp add: pool_free_def list_deque_def fun_upd_twist)
  note g5 = handler_reach.step [OF g4 this]
  have "handler_step ?D (?g [20] Blocking {} (Pooled 20) Scheduling) (?g [] Blocking {} (Pooled 20) (Holding 20))"
    using handler_step.pop [of "?g [20] Blocking {} (Pooled 20) Scheduling" 1 ?D 20 "[]"]
    by (simp add: pool_free_def list_deque_def)
  note g6 = handler_reach.step [OF g5 this]
  have "handler_step ?D (?g [] Blocking {} (Pooled 20) (Holding 20)) (?g [] Blocking {} (Pooled 20) (Waiting 20))"
    using handler_step.blocking [of "?g [] Blocking {} (Pooled 20) (Holding 20)" 1 20 "?T Blocking" ?D]
    by (simp add: take_handler_def match_set_state_def)
  from handler_reach.step [OF g6 this] show ?thesis by (intro exI conjI) (assumption, simp)
qed

lemma handler_exclusive_witness:
  "\<exists>g g'. handler_reach (list_deque 256) g \<and> h_pcs g 1 = Waiting 20 \<and>
     (handler_step (list_deque 256))\<^sup>*\<^sup>* g g' \<and> h_pcs g' 1 = Taken 20"
proof -
  obtain g where g: "handler_reach (list_deque 256) g" "h_pcs g 1 = Waiting 20"
    using waiting_reached by blast
  have "deque_laws 256 (list_deque 256 :: task deque_ops)" by (simp add:)
  from handler_exclusive [OF g(1) this] g show ?thesis by blast
qed

end
