(* ===== verification/Task_Properties.thy ===== *)
theory Task_Properties
  imports Example
begin

text \<open>
  The properties of running a task and giving up its core, and of the scheduler in user mode.
\<close>

section \<open>Coroutines\<close>



section \<open>The scheduler in user mode\<close>

text \<open>
  C20: A process's scheduler that runs in user mode and has no trap for its core: where the
  process itself has the most urgent published priority, the longest waiting task of its most
  urgent priority becomes current without leaving user mode; where it has not, the core gives
  back its user stack and enters the kernel, with a process of the most urgent published
  priority as the one to run.
\<close>

theorem uschedule_chooses:
  assumes "sched_ok c L E k cpu s" "k = private_space s cpu" "\<not> twq_pending k s cpu"
    and "handler_ok c (stacks_map L) live (os_stack E)" "STACK_HANDLER s k = Some sh" "own_inv c live (sh, WORLD s)"
  shows "(best_pid s cpu (global_index (sched_of s k)) \<longrightarrow> fifo_take c (rq_abs c (rq_of s k)) = (Some t, rest) \<longrightarrow>
      (\<exists>s'. uschedule c L E cpu a s = Inr (Inr (), s') \<and> CURRENT_TASK s' cpu = Some t \<and>
        CURRENT_VSPACE s' = CURRENT_VSPACE s \<and> TCBS s' = TCBS s \<and> rq_abs c (rq_of s' k) = rest)) \<and>
    (\<not> best_pid s cpu (global_index (sched_of s k)) \<longrightarrow>
      (\<exists>s' pid sh'. uschedule c L E cpu a s = Inr (Inl Into_kernel, s') \<and> best_pid s cpu pid \<and>
        CURRENT_VSPACE s' cpu = pid \<and> STACK_HANDLER s' k = Some sh' \<and> current_stack sh' cpu = None \<and>
        own_inv c live (sh', WORLD s')))"
proof (intro conjI impI)
  assume b: "best_pid s cpu (global_index (sched_of s k))"
    and f: "fifo_take c (rq_abs c (rq_of s k)) = (Some t, rest)"
  obtain p rq' where "take_ref c (rq_of s k) = ((Some t, p), rq')" "rq_abs c rq' = rest"
    using sched_take_fifo [OF assms(1) f] .
  with uschedule_own [OF assms(1,2) b assms(3), of t p rq' a]
  show "\<exists>s'. uschedule c L E cpu a s = Inr (Inr (), s') \<and> CURRENT_TASK s' cpu = Some t \<and>
      CURRENT_VSPACE s' = CURRENT_VSPACE s \<and> TCBS s' = TCBS s \<and> rq_abs c (rq_of s' k) = rest"
    by metis
next
  assume "\<not> best_pid s cpu (global_index (sched_of s k))"
  then obtain pid sh' w where o: "best_pid s cpu pid" "own_inv c live (sh', w)"
    "current_stack sh' = (current_stack sh)(cpu := None)"
    "uschedule c L E cpu a s = Inr (Inl Into_kernel, s\<lparr>CURRENT_VSPACE := (CURRENT_VSPACE s)(cpu := pid),
       STACK_HANDLER := (STACK_HANDLER s)(k := Some sh'), WORLD := w\<rparr>)"
    using uschedule_other [OF assms(1,2) _ assms(5,4,6), of a] by metis
  then show "\<exists>s' pid sh'. uschedule c L E cpu a s = Inr (Inl Into_kernel, s') \<and> best_pid s cpu pid \<and>
      CURRENT_VSPACE s' cpu = pid \<and> STACK_HANDLER s' k = Some sh' \<and> current_stack sh' cpu = None \<and>
      own_inv c live (sh', WORLD s')"
    by (intro exI [of _ "s\<lparr>CURRENT_VSPACE := (CURRENT_VSPACE s)(cpu := pid),
      STACK_HANDLER := (STACK_HANDLER s)(k := Some sh'), WORLD := w\<rparr>"] exI [of _ pid] exI [of _ sh']) simp
qed

lemma uschedule_chooses_witness:
  "\<exists>s'. uschedule two_cores (list_lib two_cores) example_os 0 0 (user_mode_sys (one_queue [41, 42]) 16 1) =
       Inr (Inr (), s') \<and> CURRENT_TASK s' 0 = Some 41"
proof -
  let ?s = "user_mode_sys (one_queue [41, 42]) 16 1"
  have ok: "sched_ok two_cores (list_lib two_cores) example_os 1 0 ?s"
    by (rule user_mode_sched_ok) (simp_all add: one_queue_def isize_MAX_def)
  have s: "1 = private_space ?s 0" "\<not> twq_pending 1 ?s 0"
    "STACK_HANDLER ?s 1 = Some (StackHandler_default (list_index_map 16))"
    by (simp_all add: private_space_def user_mode_sys_def example_sys_def twq_pending_def twq_of_def
        example_scheduler_def)
  have h: "handler_ok two_cores (stacks_map (list_lib two_cores)) stack_live (os_stack example_os)"
    using example_memory_laws by (simp add: memory_laws_def)
  have o: "own_inv two_cores stack_live (StackHandler_default (list_index_map 16), WORLD ?s)"
    by (simp add: own_inv_def sh_inv_def held_def StackHandler_default_def list_index_map_def)
  have "best_pid ?s 0 (global_index (sched_of ?s 1))"
    by (auto simp: best_pid_def user_mode_sys_def example_sys_def sched_of_def example_scheduler_def)
  moreover have "fifo_take two_cores (rq_abs two_cores (rq_of ?s 1)) =
      (Some 41, (rq_abs two_cores (rq_of ?s 1))(1 := [42]))"
    unfolding user_mode_rq_abs by (simp add: fifo_take_def fifo_top_def)
  ultimately show ?thesis using uschedule_chooses [OF ok s(1,2) h s(3) o] by blast
qed

end
