(* ===== verification/Assembly.thy ===== *)
theory Assembly
  imports Arch
begin

text \<open>
  What the schedule loops of the two architectures share: the labels, the Rust functions they
  call with what these do to the registers, and the execution of a piece of code up to the
  next label. The instructions are in \<open>Riscv_Loop\<close> and \<open>X86_Loop\<close>.
\<close>

section \<open>Labels and functions\<close>

datatype entry =
    raw_trap_entry
  | raw_thread_entry
  | raw_kschedule
  | raw_uschedule
  | raw_utok_schedule
  | raw_run_task
  | raw_krun_utask

datatype func =
    Fn_trap_entry
  | Fn_thread_entry
  | Fn_kschedule
  | Fn_uschedule
  | Fn_utok_schedule
  | Fn_run_task
  | Fn_krun_utask

text \<open>A label, with the two arguments the system passes to the entry of traps.\<close>

fun label_of :: "entry \<Rightarrow> u64 \<Rightarrow> u64 \<Rightarrow> label" where
  "label_of raw_trap_entry x y = Raw_trap_entry x y"
| "label_of raw_thread_entry x y = Raw_thread_entry"
| "label_of raw_kschedule x y = Raw_kschedule"
| "label_of raw_uschedule x y = Raw_uschedule"
| "label_of raw_utok_schedule x y = Raw_utok_schedule"
| "label_of raw_run_task x y = Raw_run_task"
| "label_of raw_krun_utask x y = Raw_krun_utask"

section \<open>Calls\<close>

definition then_run :: "'a outcome \<Rightarrow> ('a \<Rightarrow> 'b outcome) \<Rightarrow> 'b outcome" where
  "then_run r f = (case r of
     Next x \<Rightarrow> f x
   | Leaves x s \<Rightarrow> Leaves x s
   | Illegal \<Rightarrow> Illegal
   | Panics e \<Rightarrow> Panics e
   | Diverges \<Rightarrow> Diverges)"

lemma then_run_simps [simp]:
  "then_run (Next x) f = f x"
  "then_run (Leaves y s) f = Leaves y s"
  "then_run Illegal f = Illegal"
  "then_run (Panics e) f = Panics e"
  "then_run Diverges f = Diverges"
  by (simp_all add: then_run_def)

text \<open>
  The call of a function with its two argument registers: the result, if it has one, the core
  it returns on and the machine.
\<close>

fun call_fn ::
  "config \<Rightarrow> lib \<Rightarrow> os \<Rightarrow> func \<Rightarrow> u64 \<Rightarrow> u64 \<Rightarrow> nat \<Rightarrow> sys \<Rightarrow> (u64 option \<times> nat \<times> sys) outcome" where
  "call_fn c L E Fn_trap_entry x y i s =
     call (trap_entry c L E i (unat x) (unat y) s) (\<lambda>(r, s'). Next (Some (of_nat r), i, s'))"
| "call_fn c L E Fn_thread_entry x y i s =
     call (thread_entry c L E i s) (\<lambda>(r, s'). Next (Some (of_nat r), i, s'))"
| "call_fn c L E Fn_kschedule x y i s =
     call_loop (kschedule c L E i s) (\<lambda>(r, s').
       case r of Inl z \<Rightarrow> Leaves z s' | Inr n \<Rightarrow> Next (Some (of_nat n), i, s'))"
| "call_fn c L E Fn_uschedule x y i s =
     call (uschedule c L E i (unat x) s) (\<lambda>(r, s').
       case r of Inl z \<Rightarrow> Leaves z s' | Inr _ \<Rightarrow> Next (None, i, s'))"
| "call_fn c L E Fn_utok_schedule x y i s =
     call_loop (utok_schedule c L E i s) (\<lambda>(r, s').
       case r of Inl z \<Rightarrow> Leaves z s' | Inr n \<Rightarrow> Next (Some (of_nat n), i, s'))"
| "call_fn c L E Fn_run_task x y i s =
     call (run_task c L E i (unat x) (unat y) s) (\<lambda>(r, s').
       case r of Inl z \<Rightarrow> Leaves z s' | Inr (n, i') \<Rightarrow> Next (Some (of_nat n), i', s'))"
| "call_fn c L E Fn_krun_utask x y i s =
     call (krun_utask c L E i (unat x) s) (\<lambda>(z, s'). Leaves z s')"

text \<open>
  A function that goes through a trampoline returns from another stack frame than it was
  called in, so it does not restore the registers a callee saves.
\<close>

definition through_trampoline :: "func \<Rightarrow> bool" where
  "through_trampoline f \<longleftrightarrow> f = Fn_thread_entry \<or> f = Fn_run_task"

lemma position_Some:
  assumes "position P xs = Some n"
  shows "n < length xs" "P (xs ! n)"
  using assms by (induction xs arbitrary: n) (auto split: if_splits)

section \<open>Running to the next label\<close>

text \<open>At most \<open>n\<close> instructions; \<open>None\<close> where they do not suffice.\<close>

primrec run_block ::
  "nat \<Rightarrow> ('st \<Rightarrow> 'st outcome) \<Rightarrow> ('st \<Rightarrow> bool) \<Rightarrow> 'st \<Rightarrow> 'st outcome option" where
  "run_block 0 step at_label st = None"
| "run_block (Suc n) step at_label st =
     (case step st of
        Next st' \<Rightarrow> if at_label st' then Some (Next st') else run_block n step at_label st'
      | r \<Rightarrow> Some r)"

lemma run_block_numeral [simp]:
  "run_block (numeral k) step at_label st =
     (case step st of
        Next st' \<Rightarrow> if at_label st' then Some (Next st') else run_block (pred_numeral k) step at_label st'
      | r \<Rightarrow> Some r)"
  by (simp add: numeral_eq_Suc)

text \<open>A block does what is expected of it: it ends, and the outcomes are related.\<close>

definition block_does :: "('a \<Rightarrow> 'b \<Rightarrow> bool) \<Rightarrow> 'a outcome option \<Rightarrow> 'b outcome \<Rightarrow> bool" where
  "block_does R r q \<longleftrightarrow> (\<exists>x. r = Some x \<and> rel_outcome R x q)"

lemma block_does_simps [simp]:
  "block_does R (Some (Next x)) (Next y) \<longleftrightarrow> R x y"
  "block_does R (Some (Leaves z s)) (Leaves z s)"
  "block_does R (Some Illegal) Illegal"
  "block_does R (Some (Panics e)) (Panics e)"
  "block_does R (Some Diverges) Diverges"
  by (simp_all add: block_does_def)

text \<open>The runs of a program from label to label.\<close>

definition block_step :: "('m \<Rightarrow> 'm outcome option) \<Rightarrow> 'm \<Rightarrow> 'm outcome" where
  "block_step run st = (case run st of None \<Rightarrow> Illegal | Some r \<Rightarrow> r)"

abbreviation block_runs :: "('m \<Rightarrow> 'm outcome option) \<Rightarrow> 'm \<Rightarrow> 'm \<Rightarrow> bool" where
  "block_runs run \<equiv> runs (block_step run)"

text \<open>The cases of the instruction that calls a function.\<close>

lemma call_outcome [simp]:
  "call (Inl e) f = Panics e" "call (Inr x) f = f x"
  "call_loop None f = Diverges" "call_loop (Some r) f = call r f"
  by (simp_all add: call_def call_loop_def)

text \<open>
  The tasks a machine runs one after the other: between two labels where it chooses a task there
  is the one where the task is run.
\<close>

primrec serves ::
  "('a \<Rightarrow> 'a outcome) \<Rightarrow> ('a \<Rightarrow> task option) \<Rightarrow> task list \<Rightarrow> 'a \<Rightarrow> 'a \<Rightarrow> bool" where
  "serves step running [] st st' \<longleftrightarrow> st' = st"
| "serves step running (t # ts) st st' \<longleftrightarrow> (\<exists>st1 st2. step st = Next st1 \<and> running st1 = Some t \<and>
     step st1 = Next st2 \<and> serves step running ts st2 st')"

section \<open>The contract of a program with labels\<close>

text \<open>
  What a schedule loop of instructions owes the loop on the labels: \<open>run\<close> executes the block at a
  label, \<open>rel\<close> says when the two machines agree, and the block has the outcome of the step. Then
  the two machines run alike, in both directions.
\<close>

locale block_machine =
  fixes run :: "'m \<Rightarrow> 'm outcome option"
    and rel :: "'m \<Rightarrow> 'a \<Rightarrow> bool"
    and step :: "'a \<Rightarrow> 'a outcome"
  assumes block: "rel st ls \<Longrightarrow> block_does rel (run st) (step ls)"
    and legal: "step ls \<noteq> Illegal"
begin

lemma block_outcome:
  assumes "rel st ls"
  shows "\<exists>r. run st = Some r \<and> rel_outcome rel r (step ls) \<and> r \<noteq> Illegal"
proof -
  obtain r where "run st = Some r" "rel_outcome rel r (step ls)"
    using block [OF assms] unfolding block_does_def by blast
  then show ?thesis using legal [of ls] by (cases "step ls") auto
qed

lemma block_next:
  assumes "rel st ls" "step ls = Next ls'"
  obtains st' where "run st = Some (Next st')" "rel st' ls'"
proof -
  obtain r where "run st = Some r" "rel_outcome rel r (Next ls')"
    using block_outcome [OF assms(1)] unfolding assms(2) by metis
  then show thesis using that by (cases r) simp_all
qed

lemma block_leaves:
  assumes "rel st ls" "step ls = Leaves x s"
  shows "run st = Some (Leaves x s)"
proof -
  obtain r where "run st = Some r" "rel_outcome rel r (Leaves x s)"
    using block_outcome [OF assms(1)] unfolding assms(2) by metis
  then show ?thesis by (cases r) simp_all
qed

lemma runs_sound:
  assumes "block_runs run st st'" "rel st ls"
  shows "\<exists>ls'. rel st' ls' \<and> runs step ls ls'"
  using assms
proof (induction rule: runs.induct)
  case (here st)
  then show ?case by (auto intro: exI [of _ ls] runs.here)
next
  case (more st st' st'')
  then obtain ls' where ls: "rel st' ls'" "runs step ls ls'" by blast
  obtain r where "run st' = Some r" "rel_outcome rel r (step ls')" using block_outcome [OF ls(1)] by blast
  with more(2) have "rel_outcome rel (Next st'') (step ls')" by (simp add: block_step_def)
  then obtain ls'' where "step ls' = Next ls''" "rel st'' ls''" by (cases "step ls'") auto
  with runs.more [OF ls(2)] show ?case by blast
qed

lemma runs_complete:
  assumes "runs step ls ls'" "rel st ls"
  shows "\<exists>st'. block_runs run st st' \<and> rel st' ls'"
  using assms
proof (induction rule: runs.induct)
  case (here ls)
  then show ?case by (auto intro: exI [of _ st] runs.here)
next
  case (more ls ls' ls'')
  then obtain st' where st: "block_runs run st st'" "rel st' ls'" by blast
  obtain st'' where "run st' = Some (Next st'')" "rel st'' ls''" using block_next [OF st(2) more(2)] .
  moreover from this(1) have "block_step run st' = Next st''" by (simp add: block_step_def)
  ultimately show ?case using runs.more [OF st(1)] by blast
qed

lemma step_next:
  assumes "rel st ls" "step ls = Next ls'"
  obtains st' where "block_step run st = Next st'" "rel st' ls'"
proof -
  obtain st' where st': "run st = Some (Next st')" "rel st' ls'" using block_next [OF assms] .
  show thesis by (rule that [OF _ st'(2)]) (simp add: block_step_def st'(1))
qed

lemma serves_complete:
  assumes "serves step running ts ls ls'" "rel st ls"
    and "\<And>a b t. rel a b \<Longrightarrow> running b = Some t \<Longrightarrow> running' a = Some t"
  shows "\<exists>st'. serves (block_step run) running' ts st st' \<and> rel st' ls'"
  using assms(1,2)
proof (induction ts arbitrary: st ls)
  case Nil
  then show ?case by auto
next
  case (Cons t ts)
  then obtain ls1 ls2 where ls: "step ls = Next ls1" "running ls1 = Some t" "step ls1 = Next ls2"
    "serves step running ts ls2 ls'" by auto
  obtain st1 where st1: "block_step run st = Next st1" "rel st1 ls1" using step_next [OF Cons.prems(2) ls(1)] .
  obtain st2 where st2: "block_step run st1 = Next st2" "rel st2 ls2" using step_next [OF st1(2) ls(3)] .
  obtain st' where st': "serves (block_step run) running' ts st2 st'" "rel st' ls'"
    using Cons.IH [OF ls(4) st2(2)] by blast
  have "running' st1 = Some t" using assms(3) [OF st1(2) ls(2)] .
  with st1(1) st2(1) st'(1) have "serves (block_step run) running' (t # ts) st st'" by auto
  with st'(2) show ?case by blast
qed

end

end
