(* ===== verification/Riscv_Loop.thy ===== *)
theory Riscv_Loop
  imports Assembly
begin

text \<open>
  The schedule loop of \<^verbatim>\<open>src/arch/riscv.rs\<close>, instruction by instruction, and its execution. The
  registers a call may change hold anything afterwards (the parameter \<open>junk\<close>). A block, from
  one label to the next, does what \<open>loop_step\<close> says.
\<close>

section \<open>The program\<close>

datatype riscv_reg = A0 | A1 | S1 | S2

datatype riscv_line =
    At entry
  | Mv riscv_reg riscv_reg
  | Li riscv_reg u64
  | Andi riscv_reg riscv_reg u64
  | Srli riscv_reg riscv_reg nat
  | Beq riscv_reg riscv_reg entry
  | J entry
  | Call func
  | Word_0

definition riscv_schedule_loop :: "riscv_line list" where
  "riscv_schedule_loop = [
     At raw_trap_entry,
       Mv S1 A1,
       Call Fn_trap_entry,
       Li A1 1,
       Beq A0 A1 raw_kschedule,
       Li A1 2,
       Beq A0 A1 raw_uschedule,
       Li A1 3,
       Beq A0 A1 raw_utok_schedule,
       Word_0,
     At raw_thread_entry,
       Call Fn_thread_entry,
       Andi S1 A0 1,
       Srli S2 A0 1,
       Li A1 0,
       Beq S1 A1 raw_kschedule,
       Li A1 1,
       Beq S1 A1 raw_uschedule,
       Word_0,
     At raw_kschedule,
       Call Fn_kschedule,
       Li A1 0,
       Beq A0 A1 raw_run_task,
       Li A1 1,
       Beq A0 A1 raw_krun_utask,
       Word_0,
     At raw_uschedule,
       Mv A0 S2,
       Call Fn_uschedule,
       J raw_run_task,
       Word_0,
     At raw_utok_schedule,
       Call Fn_utok_schedule,
       Li A1 0,
       Beq A0 A1 raw_run_task,
       Li A1 1,
       Beq A0 A1 raw_krun_utask,
       Word_0,
     At raw_run_task,
       Mv A0 S1,
       Mv A1 S2,
       Call Fn_run_task,
       Mv S1 A0,
       Li S2 0,
       Li A1 0,
       Beq S1 A1 raw_kschedule,
       Li A1 1,
       Beq S1 A1 raw_uschedule,
       Word_0,
     At raw_krun_utask,
       Mv A0 S2,
       Call Fn_krun_utask,
       Word_0]"

section \<open>Its execution\<close>

record riscv =
  gpr :: "riscv_reg \<Rightarrow> u64"
  riscv_pc :: nat
  hart :: nat
  riscv_sys :: sys

definition next_line :: "riscv \<Rightarrow> riscv outcome" where
  "next_line st = Next (st\<lparr>riscv_pc := riscv_pc st + 1\<rparr>)"

definition put_reg :: "riscv_reg \<Rightarrow> u64 \<Rightarrow> riscv \<Rightarrow> riscv" where
  "put_reg d x st = st\<lparr>gpr := (gpr st)(d := x)\<rparr>"

definition jump_to :: "entry \<Rightarrow> riscv \<Rightarrow> riscv outcome" where
  "jump_to e st = (case position (\<lambda>l. l = At e) riscv_schedule_loop of
     None \<Rightarrow> Illegal
   | Some n \<Rightarrow> Next (st\<lparr>riscv_pc := n\<rparr>))"

text \<open>The registers after a call.\<close>

definition after_call ::
  "(func \<Rightarrow> riscv_reg \<Rightarrow> u64) \<Rightarrow> func \<Rightarrow> u64 option \<Rightarrow> (riscv_reg \<Rightarrow> u64) \<Rightarrow> riscv_reg \<Rightarrow> u64" where
  "after_call junk f res g r =
     (case (r, res) of
        (A0, Some x) \<Rightarrow> x
      | (S1, _) \<Rightarrow> if through_trampoline f then junk f S1 else g S1
      | (S2, _) \<Rightarrow> if through_trampoline f then junk f S2 else g S2
      | _ \<Rightarrow> junk f r)"

fun riscv_exec ::
  "config \<Rightarrow> lib \<Rightarrow> os \<Rightarrow> (func \<Rightarrow> riscv_reg \<Rightarrow> u64) \<Rightarrow> riscv_line \<Rightarrow> riscv \<Rightarrow> riscv outcome" where
  "riscv_exec c L E junk (At e) st = next_line st"
| "riscv_exec c L E junk (Mv d r) st = next_line (put_reg d (gpr st r) st)"
| "riscv_exec c L E junk (Li d x) st = next_line (put_reg d x st)"
| "riscv_exec c L E junk (Andi d r x) st = next_line (put_reg d (gpr st r AND x) st)"
| "riscv_exec c L E junk (Srli d r n) st = next_line (put_reg d (drop_bit n (gpr st r)) st)"
| "riscv_exec c L E junk (Beq a b e) st = (if gpr st a = gpr st b then jump_to e st else next_line st)"
| "riscv_exec c L E junk (J e) st = jump_to e st"
| "riscv_exec c L E junk (Call f) st =
     then_run (call_fn c L E f (gpr st A0) (gpr st A1) (hart st) (riscv_sys st)) (\<lambda>(res, i, s).
       next_line (st\<lparr>gpr := after_call junk f res (gpr st), hart := i, riscv_sys := s\<rparr>))"
| "riscv_exec c L E junk Word_0 st = Illegal"

definition riscv_step ::
  "config \<Rightarrow> lib \<Rightarrow> os \<Rightarrow> (func \<Rightarrow> riscv_reg \<Rightarrow> u64) \<Rightarrow> riscv \<Rightarrow> riscv outcome" where
  "riscv_step c L E junk st =
     (if riscv_pc st < length riscv_schedule_loop
      then riscv_exec c L E junk (riscv_schedule_loop ! riscv_pc st) st else Illegal)"

definition riscv_at :: "entry \<Rightarrow> riscv \<Rightarrow> bool" where
  "riscv_at e st \<longleftrightarrow> position (\<lambda>l. l = At e) riscv_schedule_loop = Some (riscv_pc st)"

definition riscv_at_label :: "riscv \<Rightarrow> bool" where
  "riscv_at_label st \<longleftrightarrow> riscv_pc st < length riscv_schedule_loop \<and>
     (case riscv_schedule_loop ! riscv_pc st of At e \<Rightarrow> True | _ \<Rightarrow> False)"

section \<open>The program does what the loop says\<close>

text \<open>At a label, the machine of the instructions and the machine of the labels agree.\<close>

definition riscv_rel :: "riscv \<Rightarrow> loop_state \<Rightarrow> bool" where
  "riscv_rel st ls \<longleftrightarrow> (\<exists>e. riscv_at e st \<and>
     ls = \<lparr>at = label_of e (gpr st A0) (gpr st A1), reg_s1 = gpr st S1, reg_s2 = gpr st S2,
       core = hart st, machine = riscv_sys st\<rparr>)"

lemma riscv_length: "length riscv_schedule_loop = 53"
  by (simp add: riscv_schedule_loop_def)

lemma riscv_labels:
  "position (\<lambda>l. l = At raw_trap_entry) riscv_schedule_loop = Some 0"
  "position (\<lambda>l. l = At raw_thread_entry) riscv_schedule_loop = Some 10"
  "position (\<lambda>l. l = At raw_kschedule) riscv_schedule_loop = Some 19"
  "position (\<lambda>l. l = At raw_uschedule) riscv_schedule_loop = Some 26"
  "position (\<lambda>l. l = At raw_utok_schedule) riscv_schedule_loop = Some 31"
  "position (\<lambda>l. l = At raw_run_task) riscv_schedule_loop = Some 38"
  "position (\<lambda>l. l = At raw_krun_utask) riscv_schedule_loop = Some 49"
  by (simp_all add: riscv_schedule_loop_def)

lemma riscv_fetch:
  "riscv_schedule_loop ! 0 = At raw_trap_entry"
  "riscv_schedule_loop ! 1 = Mv S1 A1"
  "riscv_schedule_loop ! 2 = Call Fn_trap_entry"
  "riscv_schedule_loop ! 3 = Li A1 1"
  "riscv_schedule_loop ! 4 = Beq A0 A1 raw_kschedule"
  "riscv_schedule_loop ! 5 = Li A1 2"
  "riscv_schedule_loop ! 6 = Beq A0 A1 raw_uschedule"
  "riscv_schedule_loop ! 7 = Li A1 3"
  "riscv_schedule_loop ! 8 = Beq A0 A1 raw_utok_schedule"
  "riscv_schedule_loop ! 9 = Word_0"
  "riscv_schedule_loop ! 10 = At raw_thread_entry"
  "riscv_schedule_loop ! 11 = Call Fn_thread_entry"
  "riscv_schedule_loop ! 12 = Andi S1 A0 1"
  "riscv_schedule_loop ! 13 = Srli S2 A0 1"
  "riscv_schedule_loop ! 14 = Li A1 0"
  "riscv_schedule_loop ! 15 = Beq S1 A1 raw_kschedule"
  "riscv_schedule_loop ! 16 = Li A1 1"
  "riscv_schedule_loop ! 17 = Beq S1 A1 raw_uschedule"
  "riscv_schedule_loop ! 18 = Word_0"
  "riscv_schedule_loop ! 19 = At raw_kschedule"
  "riscv_schedule_loop ! 20 = Call Fn_kschedule"
  "riscv_schedule_loop ! 21 = Li A1 0"
  "riscv_schedule_loop ! 22 = Beq A0 A1 raw_run_task"
  "riscv_schedule_loop ! 23 = Li A1 1"
  "riscv_schedule_loop ! 24 = Beq A0 A1 raw_krun_utask"
  "riscv_schedule_loop ! 25 = Word_0"
  "riscv_schedule_loop ! 26 = At raw_uschedule"
  "riscv_schedule_loop ! 27 = Mv A0 S2"
  "riscv_schedule_loop ! 28 = Call Fn_uschedule"
  "riscv_schedule_loop ! 29 = J raw_run_task"
  "riscv_schedule_loop ! 30 = Word_0"
  "riscv_schedule_loop ! 31 = At raw_utok_schedule"
  "riscv_schedule_loop ! 32 = Call Fn_utok_schedule"
  "riscv_schedule_loop ! 33 = Li A1 0"
  "riscv_schedule_loop ! 34 = Beq A0 A1 raw_run_task"
  "riscv_schedule_loop ! 35 = Li A1 1"
  "riscv_schedule_loop ! 36 = Beq A0 A1 raw_krun_utask"
  "riscv_schedule_loop ! 37 = Word_0"
  "riscv_schedule_loop ! 38 = At raw_run_task"
  "riscv_schedule_loop ! 39 = Mv A0 S1"
  "riscv_schedule_loop ! 40 = Mv A1 S2"
  "riscv_schedule_loop ! 41 = Call Fn_run_task"
  "riscv_schedule_loop ! 42 = Mv S1 A0"
  "riscv_schedule_loop ! 43 = Li S2 0"
  "riscv_schedule_loop ! 44 = Li A1 0"
  "riscv_schedule_loop ! 45 = Beq S1 A1 raw_kschedule"
  "riscv_schedule_loop ! 46 = Li A1 1"
  "riscv_schedule_loop ! 47 = Beq S1 A1 raw_uschedule"
  "riscv_schedule_loop ! 48 = Word_0"
  "riscv_schedule_loop ! 49 = At raw_krun_utask"
  "riscv_schedule_loop ! 50 = Mv A0 S2"
  "riscv_schedule_loop ! 51 = Call Fn_krun_utask"
  "riscv_schedule_loop ! 52 = Word_0"
  by (simp_all add: riscv_schedule_loop_def)

lemma riscv_relI:
  assumes "riscv_at e st"
  shows "riscv_rel st ls \<longleftrightarrow>
    ls = \<lparr>at = label_of e (gpr st A0) (gpr st A1), reg_s1 = gpr st S1, reg_s2 = gpr st S2,
      core = hart st, machine = riscv_sys st\<rparr>"
proof -
  have "e' = e" if "riscv_at e' st" for e'
    using position_Some(2) [OF that [unfolded riscv_at_def]] position_Some(2) [OF assms [unfolded riscv_at_def]]
    by simp
  then show ?thesis using assms unfolding riscv_rel_def by metis
qed

lemmas riscv_run = riscv_step_def riscv_length riscv_fetch riscv_labels riscv_at_label_def
  next_line_def put_reg_def jump_to_def after_call_def through_trampoline_def

lemma riscv_rel_simps:
  "riscv_pc st = 19 \<Longrightarrow> riscv_rel st ls \<longleftrightarrow> ls = \<lparr>at = Raw_kschedule, reg_s1 = gpr st S1, reg_s2 = gpr st S2,
      core = hart st, machine = riscv_sys st\<rparr>"
  "riscv_pc st = 26 \<Longrightarrow> riscv_rel st ls \<longleftrightarrow> ls = \<lparr>at = Raw_uschedule, reg_s1 = gpr st S1, reg_s2 = gpr st S2,
      core = hart st, machine = riscv_sys st\<rparr>"
  "riscv_pc st = 31 \<Longrightarrow> riscv_rel st ls \<longleftrightarrow> ls = \<lparr>at = Raw_utok_schedule, reg_s1 = gpr st S1, reg_s2 = gpr st S2,
      core = hart st, machine = riscv_sys st\<rparr>"
  "riscv_pc st = 38 \<Longrightarrow> riscv_rel st ls \<longleftrightarrow> ls = \<lparr>at = Raw_run_task, reg_s1 = gpr st S1, reg_s2 = gpr st S2,
      core = hart st, machine = riscv_sys st\<rparr>"
  "riscv_pc st = 49 \<Longrightarrow> riscv_rel st ls \<longleftrightarrow> ls = \<lparr>at = Raw_krun_utask, reg_s1 = gpr st S1, reg_s2 = gpr st S2,
      core = hart st, machine = riscv_sys st\<rparr>"
  using riscv_relI [of raw_kschedule st ls] riscv_relI [of raw_uschedule st ls] riscv_relI [of raw_utok_schedule st ls]
    riscv_relI [of raw_run_task st ls] riscv_relI [of raw_krun_utask st ls]
  by (simp_all add: riscv_at_def riscv_labels)

lemma riscv_trap_block:
  assumes "riscv_pc st = 0"
  shows "block_does riscv_rel (run_block 12 (riscv_step c L E junk) riscv_at_label st)
    (loop_step c L E \<lparr>at = Raw_trap_entry (gpr st A0) (gpr st A1), reg_s1 = gpr st S1, reg_s2 = gpr st S2,
      core = hart st, machine = riscv_sys st\<rparr>)"
  by (cases "trap_entry c L E (hart st) (unat (gpr st A0)) (unat (gpr st A1)) (riscv_sys st)")
    (auto simp: assms riscv_run loop_step_def branch_def riscv_rel_simps simp del: One_nat_def)

lemma riscv_thread_block:
  assumes "riscv_pc st = 10"
  shows "block_does riscv_rel (run_block 12 (riscv_step c L E junk) riscv_at_label st)
    (loop_step c L E \<lparr>at = Raw_thread_entry, reg_s1 = gpr st S1, reg_s2 = gpr st S2,
      core = hart st, machine = riscv_sys st\<rparr>)"
  by (cases "thread_entry c L E (hart st) (riscv_sys st)")
    (auto simp: assms riscv_run loop_step_def branch_def riscv_rel_simps simp del: One_nat_def)

lemma riscv_kschedule_block:
  assumes "riscv_pc st = 19"
  shows "block_does riscv_rel (run_block 12 (riscv_step c L E junk) riscv_at_label st)
    (loop_step c L E \<lparr>at = Raw_kschedule, reg_s1 = gpr st S1, reg_s2 = gpr st S2,
      core = hart st, machine = riscv_sys st\<rparr>)"
  by (auto simp: assms riscv_run loop_step_def branch_def riscv_rel_simps call_def call_loop_def
    simp del: One_nat_def split: option.splits sum.splits)

lemma riscv_uschedule_block:
  assumes "riscv_pc st = 26"
  shows "block_does riscv_rel (run_block 12 (riscv_step c L E junk) riscv_at_label st)
    (loop_step c L E \<lparr>at = Raw_uschedule, reg_s1 = gpr st S1, reg_s2 = gpr st S2,
      core = hart st, machine = riscv_sys st\<rparr>)"
  by (cases "uschedule c L E (hart st) (unat (gpr st S2)) (riscv_sys st)")
    (auto simp: assms riscv_run loop_step_def riscv_rel_simps simp del: One_nat_def split: sum.splits)

lemma riscv_utok_schedule_block:
  assumes "riscv_pc st = 31"
  shows "block_does riscv_rel (run_block 12 (riscv_step c L E junk) riscv_at_label st)
    (loop_step c L E \<lparr>at = Raw_utok_schedule, reg_s1 = gpr st S1, reg_s2 = gpr st S2,
      core = hart st, machine = riscv_sys st\<rparr>)"
  by (auto simp: assms riscv_run loop_step_def branch_def riscv_rel_simps call_def call_loop_def
    simp del: One_nat_def split: option.splits sum.splits)

lemma riscv_run_task_block:
  assumes "riscv_pc st = 38"
  shows "block_does riscv_rel (run_block 12 (riscv_step c L E junk) riscv_at_label st)
    (loop_step c L E \<lparr>at = Raw_run_task, reg_s1 = gpr st S1, reg_s2 = gpr st S2,
      core = hart st, machine = riscv_sys st\<rparr>)"
  by (cases "run_task c L E (hart st) (unat (gpr st S1)) (unat (gpr st S2)) (riscv_sys st)")
    (auto simp: assms riscv_run loop_step_def branch_def riscv_rel_simps simp del: One_nat_def
      split: sum.splits)

lemma riscv_krun_utask_block:
  assumes "riscv_pc st = 49"
  shows "block_does riscv_rel (run_block 12 (riscv_step c L E junk) riscv_at_label st)
    (loop_step c L E \<lparr>at = Raw_krun_utask, reg_s1 = gpr st S1, reg_s2 = gpr st S2,
      core = hart st, machine = riscv_sys st\<rparr>)"
  by (cases "krun_utask c L E (hart st) (unat (gpr st S2)) (riscv_sys st)")
    (auto simp: assms riscv_run loop_step_def simp del: One_nat_def)

lemmas riscv_blocks = riscv_trap_block riscv_thread_block riscv_kschedule_block
  riscv_uschedule_block riscv_utok_schedule_block riscv_run_task_block riscv_krun_utask_block

lemma riscv_block_correct:
  assumes "riscv_rel st ls"
  shows "block_does riscv_rel (run_block 12 (riscv_step c L E junk) riscv_at_label st) (loop_step c L E ls)"
proof -
  obtain e where "riscv_at e st"
    and "ls = \<lparr>at = label_of e (gpr st A0) (gpr st A1), reg_s1 = gpr st S1, reg_s2 = gpr st S2,
      core = hart st, machine = riscv_sys st\<rparr>"
    using assms unfolding riscv_rel_def by blast
  then show ?thesis
    by (cases e) (simp_all del: run_block_numeral add: riscv_at_def riscv_labels riscv_blocks)
qed

text \<open>The label of the loop is the label of the program.\<close>

lemma riscv_rel_runs_task:
  assumes "riscv_rel st ls"
  shows "at ls = Raw_run_task \<Longrightarrow> riscv_at raw_run_task st"
    "at ls = Raw_krun_utask \<Longrightarrow> riscv_at raw_krun_utask st"
    "at ls = Raw_kschedule \<Longrightarrow> riscv_at raw_kschedule st"
proof -
  obtain e where e: "riscv_at e st" "at ls = label_of e (gpr st A0) (gpr st A1)"
    using assms by (auto simp: riscv_rel_def)
  then show "at ls = Raw_run_task \<Longrightarrow> riscv_at raw_run_task st"
    "at ls = Raw_krun_utask \<Longrightarrow> riscv_at raw_krun_utask st"
    "at ls = Raw_kschedule \<Longrightarrow> riscv_at raw_kschedule st" by (cases e; simp)+
qed

section \<open>The program keeps the contract\<close>

definition riscv_block :: "config \<Rightarrow> lib \<Rightarrow> os \<Rightarrow> (func \<Rightarrow> riscv_reg \<Rightarrow> u64) \<Rightarrow> riscv \<Rightarrow> riscv outcome option" where
  "riscv_block c L E junk = run_block 12 (riscv_step c L E junk) riscv_at_label"

interpretation riscv_code: block_machine "riscv_block c L E junk" riscv_rel "loop_step c L E"
  for c L E junk
  by unfold_locales (simp_all only: riscv_block_def riscv_block_correct loop_step_not_Illegal not_False_eq_True)

abbreviation riscv_runs ::
  "config \<Rightarrow> lib \<Rightarrow> os \<Rightarrow> (func \<Rightarrow> riscv_reg \<Rightarrow> u64) \<Rightarrow> riscv \<Rightarrow> riscv \<Rightarrow> bool" where
  "riscv_runs c L E junk \<equiv> block_runs (riscv_block c L E junk)"

end
