(* ===== verification/X86_Loop.thy ===== *)
theory X86_Loop
  imports Assembly
begin

text \<open>
  The schedule loop of \<^verbatim>\<open>src/arch/x86.rs\<close> for 64 bits, instruction by instruction, with the
  macros that prepare a call, and its execution. The stack pointer is a register: a call needs
  it aligned to 16 bytes, and a function that goes through a trampoline returns on another
  stack. The source writes \<^verbatim>\<open>and\<close> and \<^verbatim>\<open>shr\<close> with three operands, which the processor does not
  have; they are given the meaning their comments state.
\<close>

section \<open>The program\<close>

datatype x86_reg = RAX | RBX | RDI | RSI | R12 | R13 | RSP

datatype x86_line =
    Place entry
  | Mov x86_reg x86_reg
  | Mov_imm x86_reg u64
  | Add x86_reg u64
  | Sub x86_reg u64
  | And x86_reg x86_reg u64
  | Shr x86_reg x86_reg nat
  | Cmp x86_reg u64
  | Je entry
  | Jmp entry
  | Call_fn func
  | Deadbeef

definition push_0_arg :: "x86_line list" where
  "push_0_arg = [Sub RSP 8]"

definition push_1_arg :: "x86_reg \<Rightarrow> x86_line list" where
  "push_1_arg arg1 = [Sub RSP 8, Mov RDI arg1]"

definition push_2_arg :: "x86_reg \<Rightarrow> x86_reg \<Rightarrow> x86_line list" where
  "push_2_arg arg1 arg2 = [Sub RSP 8, Mov RDI arg1, Mov RSI arg2]"

definition pop_0_arg :: "x86_line list" where
  "pop_0_arg = [Add RSP 8]"

definition pop_1_arg :: "x86_line list" where
  "pop_1_arg = [Add RSP 8]"

definition pop_2_arg :: "x86_line list" where
  "pop_2_arg = [Add RSP 8]"

lemmas x86_macros = push_0_arg_def push_1_arg_def push_2_arg_def pop_0_arg_def pop_1_arg_def
  pop_2_arg_def

definition x86_schedule_loop :: "x86_line list" where
  "x86_schedule_loop =
     [Place raw_trap_entry,
        Mov R12 RBX,
        Mov_imm R13 0] @
        push_2_arg RAX RBX @
       [Call_fn Fn_trap_entry] @
        pop_2_arg @
       [Cmp RAX 1,
        Je raw_kschedule,
        Cmp RAX 2,
        Je raw_uschedule,
        Cmp RAX 3,
        Je raw_utok_schedule,
        Deadbeef,
      Place raw_thread_entry] @
        push_0_arg @
       [Call_fn Fn_thread_entry] @
        pop_0_arg @
       [And R12 RAX 1,
        Shr R13 RAX 1,
        Cmp R12 0,
        Je raw_kschedule,
        Cmp R12 1,
        Je raw_uschedule,
        Deadbeef,
      Place raw_kschedule] @
        push_0_arg @
       [Call_fn Fn_kschedule] @
        pop_0_arg @
       [Cmp RAX 0,
        Je raw_run_task,
        Cmp RAX 1,
        Je raw_krun_utask,
        Deadbeef,
      Place raw_uschedule] @
        push_1_arg R13 @
       [Call_fn Fn_uschedule] @
        pop_1_arg @
       [Jmp raw_run_task,
        Deadbeef,
      Place raw_utok_schedule] @
        push_0_arg @
       [Call_fn Fn_utok_schedule] @
        pop_0_arg @
       [Cmp RAX 0,
        Je raw_run_task,
        Cmp RAX 1,
        Je raw_krun_utask,
        Deadbeef,
      Place raw_run_task] @
        push_2_arg R12 R13 @
       [Call_fn Fn_run_task] @
        pop_2_arg @
       [Mov R12 RAX,
        Mov_imm R13 0,
        Cmp R12 0,
        Je raw_kschedule,
        Cmp R12 1,
        Je raw_uschedule,
        Deadbeef,
      Place raw_krun_utask] @
        push_1_arg R13 @
       [Call_fn Fn_krun_utask,
        Deadbeef]"

section \<open>Its execution\<close>

record x86 =
  x86_regs :: "x86_reg \<Rightarrow> u64"
  zero_flag :: bool
  x86_pc :: nat
  x86_core :: nat
  x86_sys :: sys

definition x86_next :: "x86 \<Rightarrow> x86 outcome" where
  "x86_next st = Next (st\<lparr>x86_pc := x86_pc st + 1\<rparr>)"

definition x86_put :: "x86_reg \<Rightarrow> u64 \<Rightarrow> x86 \<Rightarrow> x86" where
  "x86_put d x st = st\<lparr>x86_regs := (x86_regs st)(d := x)\<rparr>"

definition x86_result :: "x86_reg \<Rightarrow> u64 \<Rightarrow> x86 \<Rightarrow> x86" where
  "x86_result d x st = x86_put d x st\<lparr>zero_flag := (x = 0)\<rparr>"

definition x86_jump :: "entry \<Rightarrow> x86 \<Rightarrow> x86 outcome" where
  "x86_jump e st = (case position (\<lambda>l. l = Place e) x86_schedule_loop of
     None \<Rightarrow> Illegal
   | Some n \<Rightarrow> Next (st\<lparr>x86_pc := n\<rparr>))"

text \<open>
  The registers after a call. Where a function went through a trampoline to the stack pointer
  \<open>sp\<close> (\<open>switched f = Some sp\<close>), its return pops the address that \<open>switch_sp_x86_64\<close> stored.
\<close>

definition x86_after_call ::
  "(func \<Rightarrow> x86_reg \<Rightarrow> u64) \<Rightarrow> (func \<Rightarrow> u64 option) \<Rightarrow> func \<Rightarrow> u64 option \<Rightarrow> (x86_reg \<Rightarrow> u64) \<Rightarrow> x86_reg \<Rightarrow> u64" where
  "x86_after_call junk switched f res g r =
     (case r of
        RAX \<Rightarrow> (case res of Some x \<Rightarrow> x | None \<Rightarrow> junk f RAX)
      | RDI \<Rightarrow> junk f RDI
      | RSI \<Rightarrow> junk f RSI
      | RSP \<Rightarrow> (case switched f of
            Some sp \<Rightarrow> if through_trampoline f then switch_sp_x86_64 sp + 8 else g RSP
          | None \<Rightarrow> g RSP)
      | _ \<Rightarrow> if through_trampoline f then junk f r else g r)"

fun x86_exec ::
  "config \<Rightarrow> lib \<Rightarrow> os \<Rightarrow> (func \<Rightarrow> x86_reg \<Rightarrow> u64) \<Rightarrow> (func \<Rightarrow> u64 option) \<Rightarrow> x86_line \<Rightarrow> x86 \<Rightarrow> x86 outcome" where
  "x86_exec c L E junk switched (Place e) st = x86_next st"
| "x86_exec c L E junk switched (Mov d r) st = x86_next (x86_put d (x86_regs st r) st)"
| "x86_exec c L E junk switched (Mov_imm d x) st = x86_next (x86_put d x st)"
| "x86_exec c L E junk switched (Add d x) st = x86_next (x86_result d (x86_regs st d + x) st)"
| "x86_exec c L E junk switched (Sub d x) st = x86_next (x86_result d (x86_regs st d - x) st)"
| "x86_exec c L E junk switched (And d r x) st = x86_next (x86_result d (x86_regs st r AND x) st)"
| "x86_exec c L E junk switched (Shr d r n) st = x86_next (x86_result d (drop_bit n (x86_regs st r)) st)"
| "x86_exec c L E junk switched (Cmp r x) st = x86_next (st\<lparr>zero_flag := (x86_regs st r = x)\<rparr>)"
| "x86_exec c L E junk switched (Je e) st = (if zero_flag st then x86_jump e st else x86_next st)"
| "x86_exec c L E junk switched (Jmp e) st = x86_jump e st"
| "x86_exec c L E junk switched (Call_fn f) st =
     (if take_bit 4 (x86_regs st RSP) \<noteq> 0 then Illegal
      else then_run (call_fn c L E f (x86_regs st RDI) (x86_regs st RSI) (x86_core st) (x86_sys st))
        (\<lambda>(res, i, s). x86_next
          (st\<lparr>x86_regs := x86_after_call junk switched f res (x86_regs st), x86_core := i, x86_sys := s\<rparr>)))"
| "x86_exec c L E junk switched Deadbeef st = Illegal"

definition x86_step ::
  "config \<Rightarrow> lib \<Rightarrow> os \<Rightarrow> (func \<Rightarrow> x86_reg \<Rightarrow> u64) \<Rightarrow> (func \<Rightarrow> u64 option) \<Rightarrow> x86 \<Rightarrow> x86 outcome" where
  "x86_step c L E junk switched st =
     (if x86_pc st < length x86_schedule_loop
      then x86_exec c L E junk switched (x86_schedule_loop ! x86_pc st) st else Illegal)"

definition x86_at :: "entry \<Rightarrow> x86 \<Rightarrow> bool" where
  "x86_at e st \<longleftrightarrow> position (\<lambda>l. l = Place e) x86_schedule_loop = Some (x86_pc st)"

definition x86_at_label :: "x86 \<Rightarrow> bool" where
  "x86_at_label st \<longleftrightarrow> x86_pc st < length x86_schedule_loop \<and>
     (case x86_schedule_loop ! x86_pc st of Place e \<Rightarrow> True | _ \<Rightarrow> False)"

section \<open>The stack pointer\<close>

text \<open>
  Between the calls the stack pointer is eight bytes above a multiple of sixteen, where a call
  into the loop leaves it; the macros align it for a call, and a trampoline returns aligned.
\<close>

lemma aligned_push:
  fixes sp :: u64
  assumes "take_bit 4 sp = 8"
  shows "take_bit 4 (sp - 8) = 0"
  using assms by transfer (simp add: take_bit_eq_mod, presburger)

lemma aligned_pop:
  fixes sp :: u64
  assumes "take_bit 4 sp = 0"
  shows "take_bit 4 (sp + 8) = 8"
  using assms by transfer (simp add: take_bit_eq_mod, presburger)

lemma switch_sp_x86_64_aligned: "take_bit 4 (switch_sp_x86_64 sp + 8) = 0"
proof -
  have "switch_sp_x86_64 sp + 8 = (sp + 8) AND NOT (mask 4)"
    by (simp add: switch_sp_x86_64_def mask_eq_exp_minus_1)
  then show ?thesis by (auto simp: bit_eq_iff bit_simps)
qed

section \<open>The program does what the loop says\<close>

text \<open>At a label, with the stack pointer where a call into the loop leaves it.\<close>

definition x86_rel :: "x86 \<Rightarrow> loop_state \<Rightarrow> bool" where
  "x86_rel st ls \<longleftrightarrow> take_bit 4 (x86_regs st RSP) = 8 \<and> (\<exists>e. x86_at e st \<and>
     ls = \<lparr>at = label_of e (x86_regs st RAX) (x86_regs st RBX),
       reg_s1 = x86_regs st R12, reg_s2 = x86_regs st R13, core = x86_core st, machine = x86_sys st\<rparr>)"

lemma x86_labels:
  "position (\<lambda>l. l = Place raw_trap_entry) x86_schedule_loop = Some 0"
  "position (\<lambda>l. l = Place raw_thread_entry) x86_schedule_loop = Some 15"
  "position (\<lambda>l. l = Place raw_kschedule) x86_schedule_loop = Some 26"
  "position (\<lambda>l. l = Place raw_uschedule) x86_schedule_loop = Some 35"
  "position (\<lambda>l. l = Place raw_utok_schedule) x86_schedule_loop = Some 42"
  "position (\<lambda>l. l = Place raw_run_task) x86_schedule_loop = Some 51"
  "position (\<lambda>l. l = Place raw_krun_utask) x86_schedule_loop = Some 64"
  by (simp_all add: x86_schedule_loop_def x86_macros)

lemma x86_length: "length x86_schedule_loop = 69"
  by (simp add: x86_schedule_loop_def x86_macros)

lemma x86_fetch:
  "x86_schedule_loop ! 0 = Place raw_trap_entry"
  "x86_schedule_loop ! 1 = Mov R12 RBX"
  "x86_schedule_loop ! 2 = Mov_imm R13 0"
  "x86_schedule_loop ! 3 = Sub RSP 8"
  "x86_schedule_loop ! 4 = Mov RDI RAX"
  "x86_schedule_loop ! 5 = Mov RSI RBX"
  "x86_schedule_loop ! 6 = Call_fn Fn_trap_entry"
  "x86_schedule_loop ! 7 = Add RSP 8"
  "x86_schedule_loop ! 8 = Cmp RAX 1"
  "x86_schedule_loop ! 9 = Je raw_kschedule"
  "x86_schedule_loop ! 10 = Cmp RAX 2"
  "x86_schedule_loop ! 11 = Je raw_uschedule"
  "x86_schedule_loop ! 12 = Cmp RAX 3"
  "x86_schedule_loop ! 13 = Je raw_utok_schedule"
  "x86_schedule_loop ! 14 = Deadbeef"
  "x86_schedule_loop ! 15 = Place raw_thread_entry"
  "x86_schedule_loop ! 16 = Sub RSP 8"
  "x86_schedule_loop ! 17 = Call_fn Fn_thread_entry"
  "x86_schedule_loop ! 18 = Add RSP 8"
  "x86_schedule_loop ! 19 = And R12 RAX 1"
  "x86_schedule_loop ! 20 = Shr R13 RAX 1"
  "x86_schedule_loop ! 21 = Cmp R12 0"
  "x86_schedule_loop ! 22 = Je raw_kschedule"
  "x86_schedule_loop ! 23 = Cmp R12 1"
  "x86_schedule_loop ! 24 = Je raw_uschedule"
  "x86_schedule_loop ! 25 = Deadbeef"
  "x86_schedule_loop ! 26 = Place raw_kschedule"
  "x86_schedule_loop ! 27 = Sub RSP 8"
  "x86_schedule_loop ! 28 = Call_fn Fn_kschedule"
  "x86_schedule_loop ! 29 = Add RSP 8"
  "x86_schedule_loop ! 30 = Cmp RAX 0"
  "x86_schedule_loop ! 31 = Je raw_run_task"
  "x86_schedule_loop ! 32 = Cmp RAX 1"
  "x86_schedule_loop ! 33 = Je raw_krun_utask"
  "x86_schedule_loop ! 34 = Deadbeef"
  "x86_schedule_loop ! 35 = Place raw_uschedule"
  "x86_schedule_loop ! 36 = Sub RSP 8"
  "x86_schedule_loop ! 37 = Mov RDI R13"
  "x86_schedule_loop ! 38 = Call_fn Fn_uschedule"
  "x86_schedule_loop ! 39 = Add RSP 8"
  "x86_schedule_loop ! 40 = Jmp raw_run_task"
  "x86_schedule_loop ! 41 = Deadbeef"
  "x86_schedule_loop ! 42 = Place raw_utok_schedule"
  "x86_schedule_loop ! 43 = Sub RSP 8"
  "x86_schedule_loop ! 44 = Call_fn Fn_utok_schedule"
  "x86_schedule_loop ! 45 = Add RSP 8"
  "x86_schedule_loop ! 46 = Cmp RAX 0"
  "x86_schedule_loop ! 47 = Je raw_run_task"
  "x86_schedule_loop ! 48 = Cmp RAX 1"
  "x86_schedule_loop ! 49 = Je raw_krun_utask"
  "x86_schedule_loop ! 50 = Deadbeef"
  "x86_schedule_loop ! 51 = Place raw_run_task"
  "x86_schedule_loop ! 52 = Sub RSP 8"
  "x86_schedule_loop ! 53 = Mov RDI R12"
  "x86_schedule_loop ! 54 = Mov RSI R13"
  "x86_schedule_loop ! 55 = Call_fn Fn_run_task"
  "x86_schedule_loop ! 56 = Add RSP 8"
  "x86_schedule_loop ! 57 = Mov R12 RAX"
  "x86_schedule_loop ! 58 = Mov_imm R13 0"
  "x86_schedule_loop ! 59 = Cmp R12 0"
  "x86_schedule_loop ! 60 = Je raw_kschedule"
  "x86_schedule_loop ! 61 = Cmp R12 1"
  "x86_schedule_loop ! 62 = Je raw_uschedule"
  "x86_schedule_loop ! 63 = Deadbeef"
  "x86_schedule_loop ! 64 = Place raw_krun_utask"
  "x86_schedule_loop ! 65 = Sub RSP 8"
  "x86_schedule_loop ! 66 = Mov RDI R13"
  "x86_schedule_loop ! 67 = Call_fn Fn_krun_utask"
  "x86_schedule_loop ! 68 = Deadbeef"
  by (simp_all add: x86_schedule_loop_def x86_macros)

lemma x86_relI:
  assumes "x86_at e st"
  shows "x86_rel st ls \<longleftrightarrow> take_bit 4 (x86_regs st RSP) = 8 \<and>
    ls = \<lparr>at = label_of e (x86_regs st RAX) (x86_regs st RBX),
      reg_s1 = x86_regs st R12, reg_s2 = x86_regs st R13, core = x86_core st, machine = x86_sys st\<rparr>"
proof -
  have "e' = e" if "x86_at e' st" for e'
    using position_Some(2) [OF that [unfolded x86_at_def]] position_Some(2) [OF assms [unfolded x86_at_def]]
    by simp
  then show ?thesis using assms unfolding x86_rel_def by metis
qed

lemma x86_rel_simps:
  "x86_pc st = 26 \<Longrightarrow> x86_rel st ls \<longleftrightarrow> take_bit 4 (x86_regs st RSP) = 8 \<and> ls = \<lparr>at = Raw_kschedule, reg_s1 = x86_regs st R12, reg_s2 = x86_regs st R13,
      core = x86_core st, machine = x86_sys st\<rparr>"
  "x86_pc st = 35 \<Longrightarrow> x86_rel st ls \<longleftrightarrow> take_bit 4 (x86_regs st RSP) = 8 \<and> ls = \<lparr>at = Raw_uschedule, reg_s1 = x86_regs st R12, reg_s2 = x86_regs st R13,
      core = x86_core st, machine = x86_sys st\<rparr>"
  "x86_pc st = 42 \<Longrightarrow> x86_rel st ls \<longleftrightarrow> take_bit 4 (x86_regs st RSP) = 8 \<and> ls = \<lparr>at = Raw_utok_schedule, reg_s1 = x86_regs st R12, reg_s2 = x86_regs st R13,
      core = x86_core st, machine = x86_sys st\<rparr>"
  "x86_pc st = 51 \<Longrightarrow> x86_rel st ls \<longleftrightarrow> take_bit 4 (x86_regs st RSP) = 8 \<and> ls = \<lparr>at = Raw_run_task, reg_s1 = x86_regs st R12, reg_s2 = x86_regs st R13,
      core = x86_core st, machine = x86_sys st\<rparr>"
  "x86_pc st = 64 \<Longrightarrow> x86_rel st ls \<longleftrightarrow> take_bit 4 (x86_regs st RSP) = 8 \<and> ls = \<lparr>at = Raw_krun_utask, reg_s1 = x86_regs st R12, reg_s2 = x86_regs st R13,
      core = x86_core st, machine = x86_sys st\<rparr>"
  using x86_relI [of raw_kschedule st ls] x86_relI [of raw_uschedule st ls] x86_relI [of raw_utok_schedule st ls]
    x86_relI [of raw_run_task st ls] x86_relI [of raw_krun_utask st ls]
  by (simp_all add: x86_at_def x86_labels)

lemmas x86_run = x86_step_def x86_length x86_fetch x86_labels x86_at_label_def x86_next_def x86_put_def
  x86_result_def x86_jump_def x86_after_call_def through_trampoline_def aligned_push aligned_pop
  switch_sp_x86_64_aligned

lemma x86_trap_block:
  assumes "x86_pc st = 0" "take_bit 4 (x86_regs st RSP) = 8"
  shows "block_does x86_rel (run_block 16 (x86_step c L E junk switched) x86_at_label st)
    (loop_step_x86 c L E \<lparr>at = Raw_trap_entry (x86_regs st RAX) (x86_regs st RBX), reg_s1 = x86_regs st R12, reg_s2 = x86_regs st R13,
      core = x86_core st, machine = x86_sys st\<rparr>)"
  by (cases "trap_entry c L E (x86_core st) (unat (x86_regs st RAX)) (unat (x86_regs st RBX)) (x86_sys st)")
    (auto simp: assms x86_run loop_step_x86_def loop_step_def branch_def x86_rel_simps simp del: One_nat_def split: option.splits)

lemma x86_thread_block:
  assumes "x86_pc st = 15" "take_bit 4 (x86_regs st RSP) = 8"
  shows "block_does x86_rel (run_block 16 (x86_step c L E junk switched) x86_at_label st)
    (loop_step_x86 c L E \<lparr>at = Raw_thread_entry, reg_s1 = x86_regs st R12, reg_s2 = x86_regs st R13,
      core = x86_core st, machine = x86_sys st\<rparr>)"
  by (cases "thread_entry c L E (x86_core st) (x86_sys st)")
    (auto simp: assms x86_run loop_step_x86_def loop_step_def branch_def x86_rel_simps Let_def simp del: One_nat_def split: option.splits)

lemma x86_kschedule_block:
  assumes "x86_pc st = 26" "take_bit 4 (x86_regs st RSP) = 8"
  shows "block_does x86_rel (run_block 16 (x86_step c L E junk switched) x86_at_label st)
    (loop_step_x86 c L E \<lparr>at = Raw_kschedule, reg_s1 = x86_regs st R12, reg_s2 = x86_regs st R13,
      core = x86_core st, machine = x86_sys st\<rparr>)"
  by (auto simp: assms x86_run loop_step_x86_def loop_step_def branch_def x86_rel_simps call_def call_loop_def
    simp del: One_nat_def split: option.splits sum.splits)

lemma x86_utok_schedule_block:
  assumes "x86_pc st = 42" "take_bit 4 (x86_regs st RSP) = 8"
  shows "block_does x86_rel (run_block 16 (x86_step c L E junk switched) x86_at_label st)
    (loop_step_x86 c L E \<lparr>at = Raw_utok_schedule, reg_s1 = x86_regs st R12, reg_s2 = x86_regs st R13,
      core = x86_core st, machine = x86_sys st\<rparr>)"
  by (auto simp: assms x86_run loop_step_x86_def loop_step_def branch_def x86_rel_simps call_def call_loop_def
    simp del: One_nat_def split: option.splits sum.splits)

lemma x86_uschedule_block:
  assumes "x86_pc st = 35" "take_bit 4 (x86_regs st RSP) = 8"
  shows "block_does x86_rel (run_block 16 (x86_step c L E junk switched) x86_at_label st)
    (loop_step_x86 c L E \<lparr>at = Raw_uschedule, reg_s1 = x86_regs st R12, reg_s2 = x86_regs st R13,
      core = x86_core st, machine = x86_sys st\<rparr>)"
  by (cases "uschedule c L E (x86_core st) (unat (x86_regs st R13)) (x86_sys st)")
    (auto simp: assms x86_run loop_step_x86_def loop_step_def x86_rel_simps simp del: One_nat_def split: sum.splits option.splits)

lemma x86_run_task_block:
  assumes "x86_pc st = 51" "take_bit 4 (x86_regs st RSP) = 8"
  shows "block_does x86_rel (run_block 16 (x86_step c L E junk switched) x86_at_label st)
    (loop_step_x86 c L E \<lparr>at = Raw_run_task, reg_s1 = x86_regs st R12, reg_s2 = x86_regs st R13,
      core = x86_core st, machine = x86_sys st\<rparr>)"
  by (cases "run_task c L E (x86_core st) (unat (x86_regs st R12)) (unat (x86_regs st R13)) (x86_sys st)")
    (auto simp: assms x86_run loop_step_x86_def loop_step_def branch_def x86_rel_simps simp del: One_nat_def
      split: sum.splits option.splits)

lemma x86_krun_utask_block:
  assumes "x86_pc st = 64" "take_bit 4 (x86_regs st RSP) = 8"
  shows "block_does x86_rel (run_block 16 (x86_step c L E junk switched) x86_at_label st)
    (loop_step_x86 c L E \<lparr>at = Raw_krun_utask, reg_s1 = x86_regs st R12, reg_s2 = x86_regs st R13,
      core = x86_core st, machine = x86_sys st\<rparr>)"
  by (cases "krun_utask c L E (x86_core st) (unat (x86_regs st R13)) (x86_sys st)")
    (auto simp: assms x86_run loop_step_x86_def loop_step_def simp del: One_nat_def)

lemmas x86_blocks = x86_trap_block x86_thread_block x86_kschedule_block x86_uschedule_block
  x86_utok_schedule_block x86_run_task_block x86_krun_utask_block

lemma x86_block_correct:
  assumes "x86_rel st ls"
  shows "block_does x86_rel (run_block 16 (x86_step c L E junk switched) x86_at_label st) (loop_step_x86 c L E ls)"
proof -
  obtain e where "x86_at e st" "take_bit 4 (x86_regs st RSP) = 8"
    and "ls = \<lparr>at = label_of e (x86_regs st RAX) (x86_regs st RBX), reg_s1 = x86_regs st R12,
      reg_s2 = x86_regs st R13, core = x86_core st, machine = x86_sys st\<rparr>"
    using assms unfolding x86_rel_def by blast
  then show ?thesis
    by (cases e) (simp_all del: run_block_numeral add: x86_at_def x86_labels x86_blocks)
qed

section \<open>The program keeps the contract\<close>

definition x86_block ::
  "config \<Rightarrow> lib \<Rightarrow> os \<Rightarrow> (func \<Rightarrow> x86_reg \<Rightarrow> u64) \<Rightarrow> (func \<Rightarrow> u64 option) \<Rightarrow> x86 \<Rightarrow> x86 outcome option" where
  "x86_block c L E junk switched = run_block 16 (x86_step c L E junk switched) x86_at_label"

interpretation x86_code: block_machine "x86_block c L E junk switched" x86_rel "loop_step_x86 c L E"
  for c L E junk switched
proof unfold_locales
  show "block_does x86_rel (x86_block c L E junk switched st) (loop_step_x86 c L E ls)" if "x86_rel st ls" for st ls
    unfolding x86_block_def using x86_block_correct [OF that] .
  show "loop_step_x86 c L E ls \<noteq> Illegal" for ls
    unfolding loop_step_x86_def by (rule loop_step_not_Illegal)
qed

end
