(* ===== verification/Trampoline.thy ===== *)
theory Trampoline
  imports Riscv_Loop X86_Loop
begin

text \<open>
  The code with which a function of the main loop changes its stack: the macro
  \<^verbatim>\<open>jump_to_trampoline\<close> at the end of the first function, and \<^verbatim>\<open>switch_sp_tratrampoline\<close>, the body of
  the naked functions of \<^verbatim>\<open>src/stack/trampoline.rs\<close>, which goes on in the second function. Both
  are given for words of 64 and of 32 bits. Memory consists of bytes, and words are stored with
  the lower byte first.
\<close>

section \<open>Words in memory\<close>

type_synonym 'i memory = "'i \<Rightarrow> 8 word"

definition load :: "'w::len word memory \<Rightarrow> 'w word \<Rightarrow> 'w word" where
  "load m a = horner_sum of_bool 2
     (map (\<lambda>n. bit (m (a + of_nat (n div 8))) (n mod 8)) [0..<LENGTH('w)])"

definition store :: "'w::len word \<Rightarrow> 'w word \<Rightarrow> 'w word memory \<Rightarrow> 'w word memory" where
  "store a v m x = (if unat (x - a) < LENGTH('w) div 8 then ucast (drop_bit (8 * unat (x - a)) v) else m x)"

lemma bit_load:
  "bit (load m a) n \<longleftrightarrow> n < LENGTH('w) \<and> bit (m (a + of_nat (n div 8))) (n mod 8)"
  for m :: "('w::len) word memory"
  by (auto simp: load_def bit_horner_sum_bit_word_iff)

lemma load_store:
  fixes v :: "('w::len) word"
  assumes "8 dvd LENGTH('w)"
  shows "load (store a v m) a = v"
proof (rule bit_word_eqI)
  fix n
  assume n: "n < LENGTH('w)"
  obtain k where k: "LENGTH('w) = 8 * k" using assms by blast
  have lt: "n div 8 < k" using n k by (simp add: div_less_iff_less_mult mult.commute)
  have "n div 8 < 2 ^ LENGTH('w)" using n by (meson div_le_dividend le_less_trans less_exp less_trans)
  then have u: "unat (of_nat (n div 8) :: 'w word) = n div 8" by (simp add: unsigned_of_nat take_bit_nat_eq_self)
  have "bit (store a v m (a + of_nat (n div 8))) (n mod 8) = bit v n"
    using lt k by (simp add: store_def u bit_ucast_iff bit_drop_bit_eq)
  then show "bit (load (store a v m) a) n = bit v n" using n by (simp add: bit_load)
qed

lemma store_elsewhere: "LENGTH('w) div 8 \<le> unat (x - a) \<Longrightarrow> store a v m x = m x"
  for a :: "('w::len) word"
  by (simp add: store_def)

section \<open>The instructions\<close>

text \<open>
  The registers the macros use: the stack pointer (\<^verbatim>\<open>sp\<close>, \<^verbatim>\<open>rsp\<close>), the frame pointer (\<^verbatim>\<open>fp\<close>, \<^verbatim>\<open>rbp\<close>),
  the one with the new stack pointer (\<^verbatim>\<open>a0\<close>, \<^verbatim>\<open>rdi\<close>) and the one with the return address (\<^verbatim>\<open>ra\<close>,
  \<^verbatim>\<open>rsi\<close>).
\<close>

datatype switch_reg = SP | FP | NEW | RET

datatype 'i switch_line =
    Load_to switch_reg switch_reg 'i
  | Store_at switch_reg switch_reg
  | Copy switch_reg switch_reg
  | Plus_imm switch_reg 'i
  | And_imm switch_reg 'i
  | Minus_imm switch_reg 'i
  | Jump_sym 'i

record 'i switch_cpu =
  sregs :: "switch_reg \<Rightarrow> 'i"
  smem :: "'i memory"
  spc :: 'i

fun switch_exec :: "'w::len word switch_line \<Rightarrow> 'w word switch_cpu \<Rightarrow> 'w word switch_cpu" where
  "switch_exec (Load_to d b n) s = s\<lparr>sregs := (sregs s)(d := load (smem s) (sregs s b + n))\<rparr>"
| "switch_exec (Store_at b r) s = s\<lparr>smem := store (sregs s b) (sregs s r) (smem s)\<rparr>"
| "switch_exec (Copy d r) s = s\<lparr>sregs := (sregs s)(d := sregs s r)\<rparr>"
| "switch_exec (Plus_imm d n) s = s\<lparr>sregs := (sregs s)(d := sregs s d + n)\<rparr>"
| "switch_exec (And_imm d n) s = s\<lparr>sregs := (sregs s)(d := sregs s d AND n)\<rparr>"
| "switch_exec (Minus_imm d n) s = s\<lparr>sregs := (sregs s)(d := sregs s d - n)\<rparr>"
| "switch_exec (Jump_sym f) s = s\<lparr>spc := f\<rparr>"

definition switch_run :: "'w::len word switch_line list \<Rightarrow> 'w word switch_cpu \<Rightarrow> 'w word switch_cpu" where
  "switch_run ls s = fold switch_exec ls s"

section \<open>The macros\<close>

definition jump_to_trampoline_riscv64 :: "64 word \<Rightarrow> 64 word switch_line list" where
  "jump_to_trampoline_riscv64 f = [Load_to RET FP (- 8), Jump_sym f]"

definition jump_to_trampoline_riscv32 :: "32 word \<Rightarrow> 32 word switch_line list" where
  "jump_to_trampoline_riscv32 f = [Load_to RET FP (- 4), Jump_sym f]"

definition switch_sp_trampoline_riscv :: "'w::len word \<Rightarrow> 'w word switch_line list" where
  "switch_sp_trampoline_riscv f = [Copy SP NEW, Jump_sym f]"

definition jump_to_trampoline_x86_64 :: "64 word \<Rightarrow> 64 word switch_line list" where
  "jump_to_trampoline_x86_64 f = [Load_to RET FP 8, Jump_sym f]"

definition jump_to_trampoline_x86 :: "32 word \<Rightarrow> 32 word switch_line list" where
  "jump_to_trampoline_x86 f = [Load_to RET FP 4, Jump_sym f]"

definition switch_sp_trampoline_x86_64 :: "64 word \<Rightarrow> 64 word switch_line list" where
  "switch_sp_trampoline_x86_64 f =
     [Plus_imm NEW 8, And_imm NEW (- 16), Minus_imm NEW 8, Store_at NEW RET, Copy SP NEW, Jump_sym f]"

definition switch_sp_trampoline_x86 :: "32 word \<Rightarrow> 32 word switch_line list" where
  "switch_sp_trampoline_x86 f =
     [Plus_imm NEW 4, And_imm NEW (- 16), Minus_imm NEW 4, Store_at NEW RET, Copy SP NEW, Jump_sym f]"

text \<open>
  The other macro of riscv leaves a function for another one on the same stack: it gives up the
  frame of the first.
\<close>

definition reset_stack_and_jump_riscv64 :: "64 word \<Rightarrow> 64 word switch_line list" where
  "reset_stack_and_jump_riscv64 f =
     [Copy SP FP, Load_to RET FP (- 8), Load_to FP FP (- 16), Jump_sym f]"

definition reset_stack_and_jump_riscv32 :: "32 word \<Rightarrow> 32 word switch_line list" where
  "reset_stack_and_jump_riscv32 f =
     [Copy SP FP, Load_to RET FP (- 4), Load_to FP FP (- 8), Jump_sym f]"

text \<open>What the second function's return does: riscv jumps to \<^verbatim>\<open>ra\<close>, x86 pops the address.\<close>

definition return_riscv :: "'w::len word switch_cpu \<Rightarrow> 'w word switch_cpu" where
  "return_riscv s = s\<lparr>spc := sregs s RET\<rparr>"

definition return_x86 :: "'w::len word switch_cpu \<Rightarrow> 'w word switch_cpu" where
  "return_x86 s = s\<lparr>spc := load (smem s) (sregs s SP),
     sregs := (sregs s)(SP := sregs s SP + of_nat (LENGTH('w) div 8))\<rparr>"

section \<open>Changing the stack\<close>

text \<open>
  The code of x86 for words of \<open>n\<close> bytes, of which the two variants are instances: the return
  address comes to lie where a call on an empty aligned stack would push it.
\<close>

lemma x86_switch:
  fixes s :: "('w::len) word switch_cpu" and n :: "'w word"
  assumes "8 dvd LENGTH('w)" "n = of_nat (LENGTH('w) div 8)"
    and "s' = switch_run ([Load_to RET FP n, Jump_sym tramp] @
      [Plus_imm NEW n, And_imm NEW (- 16), Minus_imm NEW n, Store_at NEW RET, Copy SP NEW, Jump_sym f]) s"
  shows "sregs s' SP = ((sregs s NEW + n) AND (- 16)) - n"
    and "load (smem s') (sregs s' SP) = load (smem s) (sregs s FP + n)"
    and "spc s' = f" "sregs s' FP = sregs s FP"
    and "LENGTH('w) div 8 \<le> unat (x - sregs s' SP) \<Longrightarrow> smem s' x = smem s x"
  using assms(3) by (simp_all add: switch_run_def load_store [OF assms(1)] store_elsewhere)

lemma return_x86_sel:
  "spc (return_x86 s) = load (smem s) (sregs s SP)"
  "sregs (return_x86 s) SP = sregs s SP + of_nat (LENGTH('w) div 8)" for s :: "('w::len) word switch_cpu"
  by (simp_all add: return_x86_def)

text \<open>
  C26: On x86-64 a function that ends in \<^verbatim>\<open>jump_to_trampoline\<close> hands its caller over to the second
  function: this one starts at its first instruction on the new stack, aligned as after a call and
  with all other memory as it was, and, if it gives back its frame and leaves its return address
  alone, its return goes to the place the first function was called from, with the stack pointer
  the schedule loop counts on.
\<close>

theorem x86_trampoline_returns:
  assumes "s' = switch_run (jump_to_trampoline_x86_64 tramp @ switch_sp_trampoline_x86_64 f) s"
    and "sregs s'' SP = sregs s' SP" "load (smem s'') (sregs s' SP) = load (smem s') (sregs s' SP)"
    and "switched fn = Some (sregs s NEW)" "through_trampoline fn"
  shows "spc s' = f \<and> take_bit 4 (sregs s' SP + 8) = 0 \<and>
    (\<forall>x. 8 \<le> unat (x - sregs s' SP) \<longrightarrow> smem s' x = smem s x) \<and>
    spc (return_x86 s'') = load (smem s) (sregs s FP + 8) \<and>
    sregs (return_x86 s'') SP = x86_after_call junk switched fn res g RSP"
proof -
  note X = x86_switch [where n = 8 and s = s and s' = s' and f = f and tramp = tramp]
  have run: "s' = switch_run ([Load_to RET FP 8, Jump_sym tramp] @
      [Plus_imm NEW 8, And_imm NEW (- 16), Minus_imm NEW 8, Store_at NEW RET, Copy SP NEW, Jump_sym f]) s"
    using assms(1) unfolding jump_to_trampoline_x86_64_def switch_sp_trampoline_x86_64_def .
  have sp: "sregs s' SP = switch_sp_x86_64 (sregs s NEW)"
    using X(1) [OF _ _ run] by (simp add: switch_sp_x86_64_def)
  have "load (smem s') (sregs s' SP) = load (smem s) (sregs s FP + 8)" "spc s' = f"
    using X(2,3) [OF _ _ run] by simp_all
  moreover have "\<forall>x. 8 \<le> unat (x - sregs s' SP) \<longrightarrow> smem s' x = smem s x"
    using X(5) [OF _ _ run] by simp
  ultimately show ?thesis
    using assms(2-5) sp switch_sp_x86_64_aligned by (simp add: return_x86_sel x86_after_call_def)
qed

text \<open>
  On riscv64 the second function starts on the new stack, memory unchanged, and its return
  goes to the place the first function was called from, if it keeps \<^verbatim>\<open>ra\<close> for its return.
\<close>

lemma riscv_trampoline_returns:
  assumes "s' = switch_run (jump_to_trampoline_riscv64 tramp @ switch_sp_trampoline_riscv f) s"
    and "sregs s'' RET = sregs s' RET" "sregs s'' SP = sregs s' SP"
  shows "spc s' = f \<and> smem s' = smem s \<and> sregs s' SP = switch_sp_riscv (sregs s NEW) \<and>
    spc (return_riscv s'') = load (smem s) (sregs s FP - 8) \<and>
    sregs (return_riscv s'') SP = switch_sp_riscv (sregs s NEW)"
  using assms
  by (simp add: switch_run_def jump_to_trampoline_riscv64_def switch_sp_trampoline_riscv_def
      return_riscv_def switch_sp_riscv_def)

lemma x86_trampoline_returns_witness:
  "\<exists>s s' :: 64 word switch_cpu.
     s' = switch_run (jump_to_trampoline_x86_64 256 @ switch_sp_trampoline_x86_64 512) s \<and>
     spc s' = 512 \<and> spc (return_x86 s') = 77 \<and> sregs (return_x86 s') SP = 8192"
proof -
  define s :: "64 word switch_cpu" where
    "s = \<lparr>sregs = (\<lambda>r. case r of SP \<Rightarrow> 4000 | FP \<Rightarrow> 4064 | NEW \<Rightarrow> 8192 | RET \<Rightarrow> 0),
      smem = store 4072 77 (\<lambda>_. 0), spc = 0\<rparr>"
  let ?s' = "switch_run (jump_to_trampoline_x86_64 256 @ switch_sp_trampoline_x86_64 512) s"
  have m: "load (smem s) (sregs s FP + 8) = 77" "sregs s NEW = 8192"
    by (simp_all add: s_def load_store)
  from x86_trampoline_returns [OF refl refl refl, of "\<lambda>_. Some 8192" Fn_run_task s 256 512 "\<lambda>_ _. 0" None "\<lambda>_. 0"] m
  have "spc ?s' = 512 \<and> spc (return_x86 ?s') = 77 \<and> sregs (return_x86 ?s') SP = 8192"
    by (simp add: through_trampoline_def x86_after_call_def switch_sp_x86_64_def)
  then show ?thesis by blast
qed

text \<open>The variants for 32 bits.\<close>

lemma x86_32_trampoline_returns:
  assumes "s' = switch_run (jump_to_trampoline_x86 tramp @ switch_sp_trampoline_x86 f) s"
    and "sregs s'' SP = sregs s' SP" "load (smem s'') (sregs s' SP) = load (smem s') (sregs s' SP)"
  shows "spc s' = f" "sregs s' SP = switch_sp_x86 (sregs s NEW)"
    "spc (return_x86 s'') = load (smem s) (sregs s FP + 4)"
    "sregs (return_x86 s'') SP = switch_sp_x86 (sregs s NEW) + 4"
proof -
  note X = x86_switch [where n = 4 and s = s and s' = s' and f = f and tramp = tramp]
  have run: "s' = switch_run ([Load_to RET FP 4, Jump_sym tramp] @
      [Plus_imm NEW 4, And_imm NEW (- 16), Minus_imm NEW 4, Store_at NEW RET, Copy SP NEW, Jump_sym f]) s"
    using assms(1) unfolding jump_to_trampoline_x86_def switch_sp_trampoline_x86_def .
  show "spc s' = f" using X(3) [OF _ _ run] by simp
  show sp: "sregs s' SP = switch_sp_x86 (sregs s NEW)" using X(1) [OF _ _ run] by (simp add: switch_sp_x86_def)
  have "load (smem s') (sregs s' SP) = load (smem s) (sregs s FP + 4)" using X(2) [OF _ _ run] by simp
  then show "spc (return_x86 s'') = load (smem s) (sregs s FP + 4)"
    "sregs (return_x86 s'') SP = switch_sp_x86 (sregs s NEW) + 4"
    using assms(2,3) sp by (simp_all add: return_x86_sel)
qed

lemma riscv32_trampoline_returns:
  assumes "s' = switch_run (jump_to_trampoline_riscv32 tramp @ switch_sp_trampoline_riscv f) s"
    and "sregs s'' RET = sregs s' RET" "sregs s'' SP = sregs s' SP"
  shows "spc s' = f" "smem s' = smem s" "spc (return_riscv s'') = load (smem s) (sregs s FP - 4)"
    "sregs (return_riscv s'') SP = sregs s NEW"
  using assms
  by (simp_all add: switch_run_def jump_to_trampoline_riscv32_def switch_sp_trampoline_riscv_def return_riscv_def)

text \<open>
  Leaving a function for another one is like returning from it and calling the other: in a frame
  with the return address and the caller's frame pointer below its start, the second function
  starts with the caller's registers.
\<close>

lemma reset_stack_and_jump_tail_call:
  "s' = switch_run (reset_stack_and_jump_riscv64 f) s \<Longrightarrow>
     spc s' = f \<and> smem s' = smem s \<and> sregs s' SP = sregs s FP \<and>
     sregs s' RET = load (smem s) (sregs s FP - 8) \<and> sregs s' FP = load (smem s) (sregs s FP - 16)"
  by (simp add: switch_run_def reset_stack_and_jump_riscv64_def)

lemma reset_stack_and_jump_tail_call_32:
  "s' = switch_run (reset_stack_and_jump_riscv32 f) s \<Longrightarrow>
     spc s' = f \<and> smem s' = smem s \<and> sregs s' SP = sregs s FP \<and>
     sregs s' RET = load (smem s) (sregs s FP - 4) \<and> sregs s' FP = load (smem s) (sregs s FP - 8)"
  by (simp add: switch_run_def reset_stack_and_jump_riscv32_def)

end
