(* ===== verification/X86_32_Loop.thy ===== *)
theory X86_32_Loop
  imports Trampoline
begin

text \<open>
  The schedule loop of \<^verbatim>\<open>src/arch/x86.rs\<close> for 32 bits, instruction by instruction: the arguments of
  a call are pushed on the stack, whose pointer must then be a multiple of 16. The source writes
  \<^verbatim>\<open>and\<close> and \<^verbatim>\<open>shr\<close> with three operands, and the second of them as \<^verbatim>\<open>rax\<close>, which only the
  64-bit processor has; they are given the meaning their comments state, on \<^verbatim>\<open>eax\<close>. The functions
  that are called are those of the model with addresses of 64 bits, their arguments and results
  taken over as numbers.
\<close>

section \<open>The program\<close>

datatype x86_32_reg = EAX | EBX | EDI | ESI | ESP

datatype x86_32_line =
    Label entry
  | Mov32 x86_32_reg x86_32_reg
  | Mov32_imm x86_32_reg "32 word"
  | Add32 x86_32_reg "32 word"
  | Sub32 x86_32_reg "32 word"
  | And32 x86_32_reg x86_32_reg "32 word"
  | Shr32 x86_32_reg x86_32_reg nat
  | Push x86_32_reg
  | Cmp32 x86_32_reg "32 word"
  | Je32 entry
  | Jmp32 entry
  | Call32 func
  | Long_deadbeef

definition push_0_arg_32 :: "x86_32_line list" where
  "push_0_arg_32 = [Sub32 ESP 12]"

definition push_1_arg_32 :: "x86_32_reg \<Rightarrow> x86_32_line list" where
  "push_1_arg_32 arg1 = [Sub32 ESP 8, Push arg1]"

definition push_2_arg_32 :: "x86_32_reg \<Rightarrow> x86_32_reg \<Rightarrow> x86_32_line list" where
  "push_2_arg_32 arg1 arg2 = [Sub32 ESP 4, Push arg2, Push arg1]"

definition pop_0_arg_32 :: "x86_32_line list" where
  "pop_0_arg_32 = [Add32 ESP 12]"

definition pop_1_arg_32 :: "x86_32_line list" where
  "pop_1_arg_32 = [Add32 ESP 12]"

definition pop_2_arg_32 :: "x86_32_line list" where
  "pop_2_arg_32 = [Add32 ESP 12]"

lemmas x86_32_macros = push_0_arg_32_def push_1_arg_32_def push_2_arg_32_def pop_0_arg_32_def
  pop_1_arg_32_def pop_2_arg_32_def

definition x86_32_schedule_loop :: "x86_32_line list" where
  "x86_32_schedule_loop =
     [Label raw_trap_entry,
        Mov32 EDI EBX,
        Mov32_imm ESI 0] @
        push_2_arg_32 EAX EBX @
       [Call32 Fn_trap_entry] @
        pop_2_arg_32 @
       [Cmp32 EAX 1,
        Je32 raw_kschedule,
        Cmp32 EAX 2,
        Je32 raw_uschedule,
        Cmp32 EAX 3,
        Je32 raw_utok_schedule,
        Long_deadbeef,
      Label raw_thread_entry] @
        push_0_arg_32 @
       [Call32 Fn_thread_entry] @
        pop_0_arg_32 @
       [And32 EDI EAX 1,
        Shr32 ESI EAX 1,
        Cmp32 EDI 0,
        Je32 raw_kschedule,
        Cmp32 EDI 1,
        Je32 raw_uschedule,
        Long_deadbeef,
      Label raw_kschedule] @
        push_0_arg_32 @
       [Call32 Fn_kschedule] @
        pop_0_arg_32 @
       [Cmp32 EAX 0,
        Je32 raw_run_task,
        Cmp32 EAX 1,
        Je32 raw_krun_utask,
        Long_deadbeef,
      Label raw_uschedule] @
        push_1_arg_32 ESI @
       [Call32 Fn_uschedule] @
        pop_1_arg_32 @
       [Jmp32 raw_run_task,
        Long_deadbeef,
      Label raw_utok_schedule] @
        push_0_arg_32 @
       [Call32 Fn_utok_schedule] @
        pop_0_arg_32 @
       [Cmp32 EAX 0,
        Je32 raw_run_task,
        Cmp32 EAX 1,
        Je32 raw_krun_utask,
        Long_deadbeef,
      Label raw_run_task] @
        push_2_arg_32 EDI ESI @
       [Call32 Fn_run_task] @
        pop_2_arg_32 @
       [Mov32 EDI EAX,
        Mov32_imm ESI 0,
        Cmp32 EDI 0,
        Je32 raw_kschedule,
        Cmp32 EDI 1,
        Je32 raw_uschedule,
        Long_deadbeef,
      Label raw_krun_utask] @
        push_1_arg_32 ESI @
       [Call32 Fn_krun_utask,
        Long_deadbeef]"

section \<open>Its execution\<close>

record x86_32 =
  regs32 :: "x86_32_reg \<Rightarrow> 32 word"
  mem32 :: "32 word memory"
  zero32 :: bool
  pc32 :: nat
  core32 :: nat
  sys32 :: sys

definition next32 :: "x86_32 \<Rightarrow> x86_32 outcome" where
  "next32 st = Next (st\<lparr>pc32 := pc32 st + 1\<rparr>)"

definition put32 :: "x86_32_reg \<Rightarrow> 32 word \<Rightarrow> x86_32 \<Rightarrow> x86_32" where
  "put32 d x st = st\<lparr>regs32 := (regs32 st)(d := x)\<rparr>"

definition result32 :: "x86_32_reg \<Rightarrow> 32 word \<Rightarrow> x86_32 \<Rightarrow> x86_32" where
  "result32 d x st = put32 d x st\<lparr>zero32 := (x = 0)\<rparr>"

definition push32 :: "32 word \<Rightarrow> x86_32 \<Rightarrow> x86_32" where
  "push32 x st = put32 ESP (regs32 st ESP - 4) st\<lparr>mem32 := store (regs32 st ESP - 4) x (mem32 st)\<rparr>"

definition jump32 :: "entry \<Rightarrow> x86_32 \<Rightarrow> x86_32 outcome" where
  "jump32 e st = (case position (\<lambda>l. l = Label e) x86_32_schedule_loop of
     None \<Rightarrow> Illegal
   | Some n \<Rightarrow> Next (st\<lparr>pc32 := n\<rparr>))"

text \<open>
  The registers after a call; the memory may hold anything then. A function that went through a
  trampoline returns where \<open>switch_sp_x86\<close> put the return address.
\<close>

definition after_call32 ::
  "(func \<Rightarrow> x86_32_reg \<Rightarrow> 32 word) \<Rightarrow> (func \<Rightarrow> 32 word option) \<Rightarrow> func \<Rightarrow> u64 option \<Rightarrow>
   (x86_32_reg \<Rightarrow> 32 word) \<Rightarrow> x86_32_reg \<Rightarrow> 32 word" where
  "after_call32 junk switched f res g r =
     (case r of
        EAX \<Rightarrow> (case res of Some x \<Rightarrow> ucast x | None \<Rightarrow> junk f EAX)
      | ESP \<Rightarrow> (case switched f of
            Some sp \<Rightarrow> if through_trampoline f then switch_sp_x86 sp + 4 else g ESP
          | None \<Rightarrow> g ESP)
      | _ \<Rightarrow> if through_trampoline f then junk f r else g r)"

text \<open>A function finds its arguments on the stack, the first one on top.\<close>

fun exec32 ::
  "config \<Rightarrow> lib \<Rightarrow> os \<Rightarrow> (func \<Rightarrow> x86_32_reg \<Rightarrow> 32 word) \<Rightarrow> (func \<Rightarrow> 32 word memory) \<Rightarrow>
   (func \<Rightarrow> 32 word option) \<Rightarrow> x86_32_line \<Rightarrow> x86_32 \<Rightarrow> x86_32 outcome" where
  "exec32 c L E junk jm switched (Label e) st = next32 st"
| "exec32 c L E junk jm switched (Mov32 d r) st = next32 (put32 d (regs32 st r) st)"
| "exec32 c L E junk jm switched (Mov32_imm d x) st = next32 (put32 d x st)"
| "exec32 c L E junk jm switched (Add32 d x) st = next32 (result32 d (regs32 st d + x) st)"
| "exec32 c L E junk jm switched (Sub32 d x) st = next32 (result32 d (regs32 st d - x) st)"
| "exec32 c L E junk jm switched (And32 d r x) st = next32 (result32 d (regs32 st r AND x) st)"
| "exec32 c L E junk jm switched (Shr32 d r n) st = next32 (result32 d (drop_bit n (regs32 st r)) st)"
| "exec32 c L E junk jm switched (Push r) st = next32 (push32 (regs32 st r) st)"
| "exec32 c L E junk jm switched (Cmp32 r x) st = next32 (st\<lparr>zero32 := (regs32 st r = x)\<rparr>)"
| "exec32 c L E junk jm switched (Je32 e) st = (if zero32 st then jump32 e st else next32 st)"
| "exec32 c L E junk jm switched (Jmp32 e) st = jump32 e st"
| "exec32 c L E junk jm switched (Call32 f) st =
     (if take_bit 4 (regs32 st ESP) \<noteq> 0 then Illegal
      else then_run (call_fn c L E f (ucast (load (mem32 st) (regs32 st ESP)))
          (ucast (load (mem32 st) (regs32 st ESP + 4))) (core32 st) (sys32 st))
        (\<lambda>(res, i, s). next32
          (st\<lparr>regs32 := after_call32 junk switched f res (regs32 st), mem32 := jm f, core32 := i, sys32 := s\<rparr>)))"
| "exec32 c L E junk jm switched Long_deadbeef st = Illegal"

definition x86_32_step ::
  "config \<Rightarrow> lib \<Rightarrow> os \<Rightarrow> (func \<Rightarrow> x86_32_reg \<Rightarrow> 32 word) \<Rightarrow> (func \<Rightarrow> 32 word memory) \<Rightarrow>
   (func \<Rightarrow> 32 word option) \<Rightarrow> x86_32 \<Rightarrow> x86_32 outcome" where
  "x86_32_step c L E junk jm switched st =
     (if pc32 st < length x86_32_schedule_loop
      then exec32 c L E junk jm switched (x86_32_schedule_loop ! pc32 st) st else Illegal)"

definition x86_32_at :: "entry \<Rightarrow> x86_32 \<Rightarrow> bool" where
  "x86_32_at e st \<longleftrightarrow> position (\<lambda>l. l = Label e) x86_32_schedule_loop = Some (pc32 st)"

definition x86_32_at_label :: "x86_32 \<Rightarrow> bool" where
  "x86_32_at_label st \<longleftrightarrow> pc32 st < length x86_32_schedule_loop \<and>
     (case x86_32_schedule_loop ! pc32 st of Label e \<Rightarrow> True | _ \<Rightarrow> False)"

section \<open>The stack\<close>

text \<open>
  Between the calls the stack pointer is four bytes below a multiple of sixteen. Two words that
  are pushed one after the other are both found.
\<close>

lemma aligned_32:
  fixes sp :: "32 word"
  shows "take_bit 4 sp = 12 \<Longrightarrow> take_bit 4 (sp - 12) = 0" "take_bit 4 sp = 0 \<Longrightarrow> take_bit 4 (sp + 12) = 12"
  by (transfer, simp add: take_bit_eq_mod, presburger)+

lemma switch_sp_x86_aligned: "take_bit 4 (switch_sp_x86 sp + 4) = 0"
proof -
  have "switch_sp_x86 sp + 4 = (sp + 4) AND NOT (mask 4)"
    by (simp add: switch_sp_x86_def mask_eq_exp_minus_1)
  then show ?thesis by (auto simp: bit_eq_iff bit_simps)
qed

lemma load_below:
  fixes a :: "32 word"
  shows "load (store a x (store (a + 4) y m)) (a + 4) = y"
proof -
  have "store a x m' (a + 4 + of_nat n) = m' (a + 4 + of_nat n)" if "n < 4" for m' n
  proof (rule store_elsewhere)
    have "unat (4 + of_nat n :: 32 word) = 4 + n" using that by (simp add: unat_word_ariths unsigned_of_nat take_bit_nat_eq_self)
    then show "LENGTH(32) div 8 \<le> unat (a + 4 + of_nat n - a)" by (simp add: add.assoc)
  qed
  then have "load (store a x m') (a + 4) = load m' (a + 4)" for m'
    by (auto simp: bit_eq_iff bit_load)
  then show ?thesis by (simp add: load_store)
qed

section \<open>The program does what the loop says\<close>

text \<open>At a label, with the stack pointer where a call into the loop leaves it.\<close>

definition x86_32_rel :: "x86_32 \<Rightarrow> loop_state \<Rightarrow> bool" where
  "x86_32_rel st ls \<longleftrightarrow> take_bit 4 (regs32 st ESP) = 12 \<and> (\<exists>e. x86_32_at e st \<and>
     ls = \<lparr>at = label_of e (ucast (regs32 st EAX)) (ucast (regs32 st EBX)),
       reg_s1 = ucast (regs32 st EDI), reg_s2 = ucast (regs32 st ESI), core = core32 st, machine = sys32 st\<rparr>)"

lemma x86_32_labels:
  "position (\<lambda>l. l = Label raw_trap_entry) x86_32_schedule_loop = Some 0"
  "position (\<lambda>l. l = Label raw_thread_entry) x86_32_schedule_loop = Some 15"
  "position (\<lambda>l. l = Label raw_kschedule) x86_32_schedule_loop = Some 26"
  "position (\<lambda>l. l = Label raw_uschedule) x86_32_schedule_loop = Some 35"
  "position (\<lambda>l. l = Label raw_utok_schedule) x86_32_schedule_loop = Some 42"
  "position (\<lambda>l. l = Label raw_run_task) x86_32_schedule_loop = Some 51"
  "position (\<lambda>l. l = Label raw_krun_utask) x86_32_schedule_loop = Some 64"
  by (simp_all add: x86_32_schedule_loop_def x86_32_macros)

lemma x86_32_length: "length x86_32_schedule_loop = 69"
  by (simp add: x86_32_schedule_loop_def x86_32_macros)

lemma x86_32_fetch:
  "x86_32_schedule_loop ! 0 = Label raw_trap_entry"
  "x86_32_schedule_loop ! 1 = Mov32 EDI EBX"
  "x86_32_schedule_loop ! 2 = Mov32_imm ESI 0"
  "x86_32_schedule_loop ! 3 = Sub32 ESP 4"
  "x86_32_schedule_loop ! 4 = Push EBX"
  "x86_32_schedule_loop ! 5 = Push EAX"
  "x86_32_schedule_loop ! 6 = Call32 Fn_trap_entry"
  "x86_32_schedule_loop ! 7 = Add32 ESP 12"
  "x86_32_schedule_loop ! 8 = Cmp32 EAX 1"
  "x86_32_schedule_loop ! 9 = Je32 raw_kschedule"
  "x86_32_schedule_loop ! 10 = Cmp32 EAX 2"
  "x86_32_schedule_loop ! 11 = Je32 raw_uschedule"
  "x86_32_schedule_loop ! 12 = Cmp32 EAX 3"
  "x86_32_schedule_loop ! 13 = Je32 raw_utok_schedule"
  "x86_32_schedule_loop ! 14 = Long_deadbeef"
  "x86_32_schedule_loop ! 15 = Label raw_thread_entry"
  "x86_32_schedule_loop ! 16 = Sub32 ESP 12"
  "x86_32_schedule_loop ! 17 = Call32 Fn_thread_entry"
  "x86_32_schedule_loop ! 18 = Add32 ESP 12"
  "x86_32_schedule_loop ! 19 = And32 EDI EAX 1"
  "x86_32_schedule_loop ! 20 = Shr32 ESI EAX 1"
  "x86_32_schedule_loop ! 21 = Cmp32 EDI 0"
  "x86_32_schedule_loop ! 22 = Je32 raw_kschedule"
  "x86_32_schedule_loop ! 23 = Cmp32 EDI 1"
  "x86_32_schedule_loop ! 24 = Je32 raw_uschedule"
  "x86_32_schedule_loop ! 25 = Long_deadbeef"
  "x86_32_schedule_loop ! 26 = Label raw_kschedule"
  "x86_32_schedule_loop ! 27 = Sub32 ESP 12"
  "x86_32_schedule_loop ! 28 = Call32 Fn_kschedule"
  "x86_32_schedule_loop ! 29 = Add32 ESP 12"
  "x86_32_schedule_loop ! 30 = Cmp32 EAX 0"
  "x86_32_schedule_loop ! 31 = Je32 raw_run_task"
  "x86_32_schedule_loop ! 32 = Cmp32 EAX 1"
  "x86_32_schedule_loop ! 33 = Je32 raw_krun_utask"
  "x86_32_schedule_loop ! 34 = Long_deadbeef"
  "x86_32_schedule_loop ! 35 = Label raw_uschedule"
  "x86_32_schedule_loop ! 36 = Sub32 ESP 8"
  "x86_32_schedule_loop ! 37 = Push ESI"
  "x86_32_schedule_loop ! 38 = Call32 Fn_uschedule"
  "x86_32_schedule_loop ! 39 = Add32 ESP 12"
  "x86_32_schedule_loop ! 40 = Jmp32 raw_run_task"
  "x86_32_schedule_loop ! 41 = Long_deadbeef"
  "x86_32_schedule_loop ! 42 = Label raw_utok_schedule"
  "x86_32_schedule_loop ! 43 = Sub32 ESP 12"
  "x86_32_schedule_loop ! 44 = Call32 Fn_utok_schedule"
  "x86_32_schedule_loop ! 45 = Add32 ESP 12"
  "x86_32_schedule_loop ! 46 = Cmp32 EAX 0"
  "x86_32_schedule_loop ! 47 = Je32 raw_run_task"
  "x86_32_schedule_loop ! 48 = Cmp32 EAX 1"
  "x86_32_schedule_loop ! 49 = Je32 raw_krun_utask"
  "x86_32_schedule_loop ! 50 = Long_deadbeef"
  "x86_32_schedule_loop ! 51 = Label raw_run_task"
  "x86_32_schedule_loop ! 52 = Sub32 ESP 4"
  "x86_32_schedule_loop ! 53 = Push ESI"
  "x86_32_schedule_loop ! 54 = Push EDI"
  "x86_32_schedule_loop ! 55 = Call32 Fn_run_task"
  "x86_32_schedule_loop ! 56 = Add32 ESP 12"
  "x86_32_schedule_loop ! 57 = Mov32 EDI EAX"
  "x86_32_schedule_loop ! 58 = Mov32_imm ESI 0"
  "x86_32_schedule_loop ! 59 = Cmp32 EDI 0"
  "x86_32_schedule_loop ! 60 = Je32 raw_kschedule"
  "x86_32_schedule_loop ! 61 = Cmp32 EDI 1"
  "x86_32_schedule_loop ! 62 = Je32 raw_uschedule"
  "x86_32_schedule_loop ! 63 = Long_deadbeef"
  "x86_32_schedule_loop ! 64 = Label raw_krun_utask"
  "x86_32_schedule_loop ! 65 = Sub32 ESP 8"
  "x86_32_schedule_loop ! 66 = Push ESI"
  "x86_32_schedule_loop ! 67 = Call32 Fn_krun_utask"
  "x86_32_schedule_loop ! 68 = Long_deadbeef"
  by (simp_all add: x86_32_schedule_loop_def x86_32_macros)

lemma x86_32_relI:
  assumes "x86_32_at e st"
  shows "x86_32_rel st ls \<longleftrightarrow> take_bit 4 (regs32 st ESP) = 12 \<and>
    ls = \<lparr>at = label_of e (ucast (regs32 st EAX)) (ucast (regs32 st EBX)),
      reg_s1 = ucast (regs32 st EDI), reg_s2 = ucast (regs32 st ESI), core = core32 st, machine = sys32 st\<rparr>"
proof -
  have "e' = e" if "x86_32_at e' st" for e'
    using position_Some(2) [OF that [unfolded x86_32_at_def]] position_Some(2) [OF assms [unfolded x86_32_at_def]]
    by simp
  then show ?thesis using assms unfolding x86_32_rel_def by metis
qed

text \<open>The state of the loop that a state of the program stands for, at the label \<open>l\<close>.\<close>

definition state32 :: "label \<Rightarrow> x86_32 \<Rightarrow> loop_state" where
  "state32 l st = \<lparr>at = l, reg_s1 = ucast (regs32 st EDI), reg_s2 = ucast (regs32 st ESI),
     core = core32 st, machine = sys32 st\<rparr>"

lemma x86_32_rel_simps:
  "pc32 st = 26 \<Longrightarrow> x86_32_rel st ls \<longleftrightarrow> take_bit 4 (regs32 st ESP) = 12 \<and> ls = state32 Raw_kschedule st"
  "pc32 st = 35 \<Longrightarrow> x86_32_rel st ls \<longleftrightarrow> take_bit 4 (regs32 st ESP) = 12 \<and> ls = state32 Raw_uschedule st"
  "pc32 st = 42 \<Longrightarrow> x86_32_rel st ls \<longleftrightarrow> take_bit 4 (regs32 st ESP) = 12 \<and> ls = state32 Raw_utok_schedule st"
  "pc32 st = 51 \<Longrightarrow> x86_32_rel st ls \<longleftrightarrow> take_bit 4 (regs32 st ESP) = 12 \<and> ls = state32 Raw_run_task st"
  "pc32 st = 64 \<Longrightarrow> x86_32_rel st ls \<longleftrightarrow> take_bit 4 (regs32 st ESP) = 12 \<and> ls = state32 Raw_krun_utask st"
  using x86_32_relI [of raw_kschedule st ls] x86_32_relI [of raw_uschedule st ls] x86_32_relI [of raw_utok_schedule st ls]
    x86_32_relI [of raw_run_task st ls] x86_32_relI [of raw_krun_utask st ls]
  by (simp_all add: x86_32_at_def x86_32_labels state32_def)

lemma pushed_args:
  fixes sp :: "32 word"
  shows "load (store (sp - 12) x m) (sp - 12) = x"
    "load (store (sp - 12) x (store (sp - 8) y m)) (sp - 8) = y"
  using load_below [of "sp - 12" x y m] by (simp_all add: load_store)

lemmas x86_32_run = x86_32_step_def x86_32_length x86_32_fetch x86_32_labels x86_32_at_label_def next32_def
  put32_def result32_def push32_def jump32_def after_call32_def through_trampoline_def aligned_32
  switch_sp_x86_aligned pushed_args state32_def

lemma x86_32_trap_block:
  assumes "pc32 st = 0" "take_bit 4 (regs32 st ESP) = 12"
  shows "block_does x86_32_rel (run_block 16 (x86_32_step c L E junk jm switched) x86_32_at_label st)
    (loop_step_x86 c L E (state32 (Raw_trap_entry (ucast (regs32 st EAX)) (ucast (regs32 st EBX))) st))"
  by (cases "trap_entry c L E (core32 st) (unat (ucast (regs32 st EAX) :: u64)) (unat (ucast (regs32 st EBX) :: u64)) (sys32 st)")
    (auto simp: assms x86_32_run loop_step_x86_def loop_step_def branch_def x86_32_rel_simps simp del: One_nat_def
      split: option.splits dest!: trap_entry_result)

lemma x86_32_kschedule_block:
  assumes "pc32 st = 26" "take_bit 4 (regs32 st ESP) = 12"
  shows "block_does x86_32_rel (run_block 16 (x86_32_step c L E junk jm switched) x86_32_at_label st)
    (loop_step_x86 c L E (state32 Raw_kschedule st))"
  by (auto simp: assms x86_32_run loop_step_x86_def loop_step_def branch_def x86_32_rel_simps call_def call_loop_def
    simp del: One_nat_def split: option.splits sum.splits dest!: kschedule_result)

lemma x86_32_utok_schedule_block:
  assumes "pc32 st = 42" "take_bit 4 (regs32 st ESP) = 12"
  shows "block_does x86_32_rel (run_block 16 (x86_32_step c L E junk jm switched) x86_32_at_label st)
    (loop_step_x86 c L E (state32 Raw_utok_schedule st))"
  by (auto simp: assms x86_32_run loop_step_x86_def loop_step_def branch_def x86_32_rel_simps call_def call_loop_def
    simp del: One_nat_def split: option.splits sum.splits dest!: utok_schedule_result)

lemma shift_bits:
  "drop_bit 1 (2 :: u64) = 1" "drop_bit 1 (3 :: u64) = 1" "drop_bit 1 (2 :: 32 word) = 1" "drop_bit 1 (3 :: 32 word) = 1"
  by (simp_all add: drop_bit_Suc)

lemma thread_entry_bits:
  assumes "thread_entry c L E cpu s = Inr (r, s')"
  obtains "r = 0" | "r = 1" | "r = 2" | "r = 3"
  using thread_entry_result [OF assms] by (auto split: if_splits)

lemma x86_32_thread_block:
  assumes "pc32 st = 15" "take_bit 4 (regs32 st ESP) = 12"
  shows "block_does x86_32_rel (run_block 16 (x86_32_step c L E junk jm switched) x86_32_at_label st)
    (loop_step_x86 c L E (state32 Raw_thread_entry st))"
proof (cases "thread_entry c L E (core32 st) (sys32 st)")
  case (Inl e)
  then show ?thesis by (simp add: assms x86_32_run loop_step_x86_def loop_step_def)
next
  case (Inr b)
  obtain r s where t: "thread_entry c L E (core32 st) (sys32 st) = Inr (r, s)" using Inr by (cases b) simp
  show ?thesis
    by (rule thread_entry_bits [OF t])
      (simp_all add: t assms x86_32_run loop_step_x86_def loop_step_def branch_def x86_32_rel_simps Let_def shift_bits
        del: One_nat_def split: option.splits)
qed

lemma x86_32_uschedule_block:
  assumes "pc32 st = 35" "take_bit 4 (regs32 st ESP) = 12"
  shows "block_does x86_32_rel (run_block 16 (x86_32_step c L E junk jm switched) x86_32_at_label st)
    (loop_step_x86 c L E (state32 Raw_uschedule st))"
  by (cases "uschedule c L E (core32 st) (unat (ucast (regs32 st ESI) :: u64)) (sys32 st)")
    (auto simp: assms x86_32_run loop_step_x86_def loop_step_def x86_32_rel_simps simp del: One_nat_def
      split: sum.splits option.splits)

lemma x86_32_run_task_block:
  assumes "pc32 st = 51" "take_bit 4 (regs32 st ESP) = 12"
  shows "block_does x86_32_rel (run_block 16 (x86_32_step c L E junk jm switched) x86_32_at_label st)
    (loop_step_x86 c L E (state32 Raw_run_task st))"
  by (cases "run_task c L E (core32 st) (unat (ucast (regs32 st EDI) :: u64)) (unat (ucast (regs32 st ESI) :: u64)) (sys32 st)")
    (auto simp: assms x86_32_run loop_step_x86_def loop_step_def branch_def x86_32_rel_simps simp del: One_nat_def
      split: sum.splits option.splits dest!: run_task_result)

lemma x86_32_krun_utask_block:
  assumes "pc32 st = 64" "take_bit 4 (regs32 st ESP) = 12"
  shows "block_does x86_32_rel (run_block 16 (x86_32_step c L E junk jm switched) x86_32_at_label st)
    (loop_step_x86 c L E (state32 Raw_krun_utask st))"
  by (cases "krun_utask c L E (core32 st) (unat (ucast (regs32 st ESI) :: u64)) (sys32 st)")
    (auto simp: assms x86_32_run loop_step_x86_def loop_step_def simp del: One_nat_def)

lemmas x86_32_blocks = x86_32_trap_block x86_32_thread_block x86_32_kschedule_block x86_32_uschedule_block
  x86_32_utok_schedule_block x86_32_run_task_block x86_32_krun_utask_block

lemma x86_32_block_correct:
  assumes "x86_32_rel st ls"
  shows "block_does x86_32_rel (run_block 16 (x86_32_step c L E junk jm switched) x86_32_at_label st) (loop_step_x86 c L E ls)"
proof -
  obtain e where "x86_32_at e st" "take_bit 4 (regs32 st ESP) = 12"
    and "ls = state32 (label_of e (ucast (regs32 st EAX)) (ucast (regs32 st EBX))) st"
    using assms unfolding x86_32_rel_def state32_def by blast
  then show ?thesis
    by (cases e) (simp_all del: run_block_numeral add: x86_32_at_def x86_32_labels x86_32_blocks)
qed

section \<open>The program keeps the contract\<close>

definition x86_32_block ::
  "config \<Rightarrow> lib \<Rightarrow> os \<Rightarrow> (func \<Rightarrow> x86_32_reg \<Rightarrow> 32 word) \<Rightarrow> (func \<Rightarrow> 32 word memory) \<Rightarrow>
   (func \<Rightarrow> 32 word option) \<Rightarrow> x86_32 \<Rightarrow> x86_32 outcome option" where
  "x86_32_block c L E junk jm switched = run_block 16 (x86_32_step c L E junk jm switched) x86_32_at_label"

interpretation x86_32_code: block_machine "x86_32_block c L E junk jm switched" x86_32_rel "loop_step_x86 c L E"
  for c L E junk jm switched
proof unfold_locales
  show "block_does x86_32_rel (x86_32_block c L E junk jm switched st) (loop_step_x86 c L E ls)"
    if "x86_32_rel st ls" for st ls
    unfolding x86_32_block_def using x86_32_block_correct [OF that] .
  show "loop_step_x86 c L E ls \<noteq> Illegal" for ls
    unfolding loop_step_x86_def by (rule loop_step_not_Illegal)
qed

end
