(* ===== verification/Arch_Properties.thy ===== *)
theory Arch_Properties
  imports Example Riscv_Loop X86_32_Loop
begin

text \<open>
  The properties of the assembly: the results it branches on are all there are, each block of the
  three schedule loops does what the loop of \<open>Arch\<close> says, whatever a call leaves in the other registers, and the registers that carry
  the privilege level are true.
\<close>

section \<open>Results\<close>

text \<open>
  C35: The functions the assembly calls return only values it branches on: the trap entry chooses
  the kernel's loop or the way from a user's scheduler (never the user's loop, the third target of
  the assembly), the thread entry packs two bits, the kernel's schedulers choose between the two
  ways to run a task, and a coroutine ends with a privilege level.
\<close>

theorem main_loop_results:
  "(\<forall>a b r s'. trap_entry c L E cpu a b s = Inr (r, s') \<longrightarrow> r \<in> {1, 3}) \<and>
   (\<forall>r s'. thread_entry c L E cpu s = Inr (r, s') \<longrightarrow> r \<in> (if CPU_NUM c = 1 then {2, 3} else {0, 1})) \<and>
   (\<forall>r s'. kschedule c L E cpu s = Some (Inr (Inr r, s')) \<longrightarrow> r \<in> {0, 1}) \<and>
   (\<forall>r s'. utok_schedule c L E cpu s = Some (Inr (Inr r, s')) \<longrightarrow> r \<in> {0, 1}) \<and>
   (\<forall>a b r j s'. run_task c L E cpu a b s = Inr (Inr (r, j), s') \<longrightarrow> r \<in> {0, 1})"
proof (intro conjI allI impI)
  show "r \<in> {1, 3}" if "trap_entry c L E cpu a b s = Inr (r, s')" for a b r s'
    using trap_entry_result [OF that] by simp
  show "r \<in> (if CPU_NUM c = 1 then {2, 3} else {0, 1})" if "thread_entry c L E cpu s = Inr (r, s')" for r s'
    using thread_entry_result [OF that] by simp
  show "r \<in> {0, 1}" if "kschedule c L E cpu s = Some (Inr (Inr r, s'))" for r s'
    using kschedule_result [OF that] by simp
  show "r \<in> {0, 1}" if "utok_schedule c L E cpu s = Some (Inr (Inr r, s'))" for r s'
    using utok_schedule_result [OF that] by simp
  show "r \<in> {0, 1}" if "run_task c L E cpu a b s = Inr (Inr (r, j), s')" for a b r j s'
    using run_task_result [OF that] by simp
qed

lemma main_loop_results_witness:
  "\<exists>r s'. trap_entry two_cores (list_lib two_cores) example_os 0 2 0
      (example_sys (one_queue [41]) (one_queue []) (\<lambda>_. []) 1 16) = Inr (r, s') \<and> r \<in> {1, 3}"
proof -
  let ?s = "example_sys (one_queue [41]) (one_queue []) (\<lambda>_. []) 1 16"
  have "trap_entry two_cores (list_lib two_cores) example_os 0 2 0 ?s =
      Inr (3, ?s\<lparr>IN_KERNEL := (IN_KERNEL ?s)(0 := True)\<rparr>)"
    by (simp add: trap_entry_def assert_disable_irq_def example_sys_def)
  with main_loop_results [of two_cores "list_lib two_cores" example_os 0 ?s] show ?thesis by blast
qed

section \<open>The loops as instructions\<close>

text \<open>
  C23: From each label, the riscv instructions reach the next label, or the way out, that the
  schedule loop names, with the privilege level and the stack status in \<^verbatim>\<open>s1\<close> and \<^verbatim>\<open>s2\<close>,
  whatever the calls leave in the registers they may change; the words behind the branches are
  never executed, and twelve instructions are enough.
\<close>

theorem riscv_loop_simulates:
  assumes "riscv_rel st ls"
  shows "\<exists>r. run_block 12 (riscv_step c L E junk) riscv_at_label st = Some r \<and>
    rel_outcome riscv_rel r (loop_step c L E ls) \<and> r \<noteq> Illegal"
  using riscv_code.block_outcome [OF assms] unfolding riscv_block_def .

definition riscv_from_user :: riscv where
  "riscv_from_user = \<lparr>gpr = (\<lambda>r. if r = A0 then 2 else 0), riscv_pc = 0, hart = 0,
     riscv_sys = example_sys (one_queue [41]) (one_queue []) (\<lambda>_. []) 1 16\<rparr>"

lemma riscv_from_user_rel:
  "riscv_rel riscv_from_user \<lparr>at = Raw_trap_entry 2 0, reg_s1 = 0, reg_s2 = 0, core = 0,
     machine = riscv_sys riscv_from_user\<rparr>"
  using riscv_relI [of raw_trap_entry riscv_from_user]
  by (simp add: riscv_at_def riscv_labels riscv_from_user_def)

lemma riscv_loop_simulates_witness:
  "\<exists>r. run_block 12 (riscv_step two_cores (list_lib two_cores) example_os (\<lambda>_ _. 7)) riscv_at_label
       riscv_from_user = Some r \<and>
     rel_outcome riscv_rel r (loop_step two_cores (list_lib two_cores) example_os
       \<lparr>at = Raw_trap_entry 2 0, reg_s1 = 0, reg_s2 = 0, core = 0, machine = riscv_sys riscv_from_user\<rparr>) \<and>
     r \<noteq> Illegal"
  by (rule riscv_loop_simulates [OF riscv_from_user_rel])

text \<open>
  C27: At every label the riscv instructions reach, \<^verbatim>\<open>s1\<close> holds the privilege level the core is
  in, and the parts of the kernel run in the kernel only, the user's scheduler outside it only;
  the traps must say their level truly.
\<close>

theorem riscv_level_register:
  assumes "level_laws E" "riscv_runs c L E junk st st'" "riscv_rel st ls" "level_ok ls"
  shows "(riscv_at raw_uschedule st' \<longrightarrow> gpr st' S1 = 1 \<and> \<not> IN_KERNEL (riscv_sys st') (hart st')) \<and>
    (riscv_at raw_run_task st' \<longrightarrow> gpr st' S1 = (if IN_KERNEL (riscv_sys st') (hart st') then 0 else 1)) \<and>
    (\<forall>e \<in> {raw_kschedule, raw_utok_schedule, raw_krun_utask}. riscv_at e st' \<longrightarrow>
      gpr st' S1 = 0 \<and> IN_KERNEL (riscv_sys st') (hart st'))"
proof -
  obtain ls' where r: "riscv_rel st' ls'" "loop_runs c L E ls ls'"
    using riscv_code.runs_sound [OF assms(2,3)] by blast
  then have "level_ok ls'" using loop_runs_level assms(1,4) by blast
  with r(1) show ?thesis using riscv_relI by (auto simp: level_ok_def Let_def)
qed

lemma example_level_laws: "level_laws example_os"
  by (auto simp: level_laws_def example_os_def)

lemma riscv_from_user_run:
  "\<exists>st. riscv_runs two_cores (list_lib two_cores) example_os (\<lambda>_ _. 7) riscv_from_user st \<and>
    riscv_at raw_utok_schedule st"
proof -
  have "run_block 12 (riscv_step two_cores (list_lib two_cores) example_os (\<lambda>_ _. 7)) riscv_at_label
      riscv_from_user = Some (Next (riscv_from_user\<lparr>gpr := (\<lambda>r. if r = A0 \<or> r = A1 then 3 else 0),
        riscv_pc := 31, riscv_sys := (riscv_sys riscv_from_user)
        \<lparr>IN_KERNEL := (IN_KERNEL (riscv_sys riscv_from_user))(0 := True)\<rparr>\<rparr>))"
    by (simp add: riscv_run riscv_from_user_def trap_entry_def assert_disable_irq_def assert_that_def
        example_sys_def fun_eq_iff del: One_nat_def split: riscv_reg.splits)
  then show ?thesis
    by (intro exI conjI, intro runs.more [OF runs.here]) (simp add: block_step_def riscv_block_def, simp add: riscv_at_def riscv_labels)
qed

lemma riscv_level_register_witness:
  "\<exists>st. riscv_runs two_cores (list_lib two_cores) example_os (\<lambda>_ _. 7) riscv_from_user st \<and>
    riscv_at raw_utok_schedule st \<and> gpr st S1 = 0 \<and> IN_KERNEL (riscv_sys st) (hart st)"
proof -
  obtain st where st: "riscv_runs two_cores (list_lib two_cores) example_os (\<lambda>_ _. 7) riscv_from_user st"
    "riscv_at raw_utok_schedule st" using riscv_from_user_run by blast
  have "level_ok \<lparr>at = Raw_trap_entry 2 0, reg_s1 = 0, reg_s2 = 0, core = 0, machine = riscv_sys riscv_from_user\<rparr>"
    by (simp add: level_ok_def entry_args_ok_def)
  from riscv_level_register [OF example_level_laws st(1) riscv_from_user_rel this] st show ?thesis by blast
qed







text \<open>
  C36: The result of \<^verbatim>\<open>thread_entry\<close> packs two bits, which \<^verbatim>\<open>raw_thread_entry\<close> takes apart again: the
  lower one is the privilege level of the core, the rest the status of the stack, which is
  \<open>1\<close> exactly on a build for one core.
\<close>

theorem thread_entry_unpacks:
  assumes "thread_entry c L E cpu s = Inr (r, s')"
  shows "(of_nat r :: u64) AND 1 = (if IN_KERNEL s' cpu then 0 else 1) \<and>
    drop_bit 1 (of_nat r :: u64) = (if CPU_NUM c = 1 then 1 else 0)"
proof -
  let ?l = "if IN_KERNEL s' cpu then 0 else 1 :: nat" and ?t = "if CPU_NUM c = 1 then 1 else 0 :: nat"
  have "r = 2 * ?t + ?l" using thread_entry_result [OF assms] by simp
  then show ?thesis using phase2_bits [of ?l ?t] by (auto split: if_splits)
qed

definition coroutine_sys :: sys where
  "coroutine_sys = (example_sys (one_queue []) (one_queue []) (\<lambda>_. []) 16 16)
     \<lparr>TCBS := (\<lambda>t. (example_tcb Running)\<lparr>t_is_coroutine := True\<rparr>)\<rparr>"

lemma thread_entry_unpacks_witness:
  "\<exists>r s'. thread_entry default_config (list_lib default_config) example_os 0 coroutine_sys = Inr (r, s') \<and>
     (of_nat r :: u64) AND 1 = 0 \<and> drop_bit 1 (of_nat r :: u64) = 1"
proof -
  obtain r s' where t: "thread_entry default_config (list_lib default_config) example_os 0 coroutine_sys = Inr (r, s')"
    "IN_KERNEL s' 0"
    by (simp add: thread_entry_def thread_entry_phase2_def yield_task_def push_prev_task_def
        assert_disable_irq_def assert_that_def get_current_task_def deref_def match_set_state_def
        coroutine_sys_def example_sys_def example_tcb_def default_config_def)
  from thread_entry_unpacks [OF t(1)] t show ?thesis by (auto simp: default_config_def)
qed

section \<open>The return address of a trampoline\<close>

lemma unat_numeral_8: "unat (8 :: u64) = 8"
  by simp

lemma unat_round_down: "unat (x AND NOT (mask 4) :: u64) = unat x div 16 * 16"
proof -
  have "x AND NOT (mask 4) = push_bit 4 (drop_bit 4 x)" by (auto simp: bit_eq_iff bit_simps)
  moreover have "unat x < 2 ^ LENGTH(64)" by (rule unsigned_less)
  then have "unat x div 16 * 16 < 2 ^ 64" using div_times_less_eq_dividend [of "unat x" 16] by simp
  then have "unat (push_bit 4 (drop_bit 4 x)) = unat x div 16 * 16"
    unfolding unsigned_push_bit_eq unsigned_drop_bit_eq
    by (simp add: drop_bit_eq_div push_bit_eq_mult take_bit_eq_mod)
  ultimately show ?thesis by (simp only:)
qed

text \<open>
  The x86-64 trampoline to a stack that ends at \<open>sp\<close> puts the return address where a call
  would put it, less than sixteen bytes below \<open>sp\<close>; the eight bytes lie within the stack
  exactly where \<open>sp\<close> is at most seven bytes above a multiple of sixteen, and reach beyond its
  end otherwise.
\<close>

lemma trampoline_return_address:
  assumes "8 \<le> unat sp" "unat sp + 8 < 2 ^ 64"
  shows "unat (switch_sp_x86_64 sp) mod 16 = 8 \<and> unat sp < unat (switch_sp_x86_64 sp) + 16 \<and>
    (unat (switch_sp_x86_64 sp) + 8 \<le> unat sp \<longleftrightarrow> unat sp mod 16 < 8)"
proof -
  have e: "switch_sp_x86_64 sp = ((sp + 8) AND NOT (mask 4)) - 8"
    by (simp add: switch_sp_x86_64_def mask_eq_exp_minus_1)
  have "unat (sp + 8) = unat sp + 8" using assms(2) by (simp add: unat_word_ariths)
  then have r: "unat ((sp + 8) AND NOT (mask 4)) = (unat sp + 8) div 16 * 16" by (simp only: unat_round_down)
  have "8 \<le> (unat sp + 8) div 16 * 16" using assms(1) by presburger
  then have "(8 :: u64) \<le> (sp + 8) AND NOT (mask 4)" unfolding word_le_nat_alt r unat_numeral_8 .
  from unat_sub [OF this] have "unat (switch_sp_x86_64 sp) = (unat sp + 8) div 16 * 16 - 8"
    unfolding e r unat_numeral_8 .
  moreover obtain m q where sp: "unat sp = 16 * q + m" "m < 16"
    using that [of "unat sp div 16" "unat sp mod 16"] by simp
  moreover have "(16 * q + m + 8) div 16 = (if m < 8 then q else q + 1)"
    using sp(2) by (cases "m < 8") (auto intro!: div_nat_eqI)
  moreover have "(q * 16 - 8) mod 16 = 8" if "0 < q" using that by (cases q) auto
  ultimately show ?thesis using assms(1) by (cases "m < 8") auto
qed

lemma trampoline_return_address_witness:
  "unat (switch_sp_x86_64 8192) + 8 \<le> 8192 \<and> \<not> unat (switch_sp_x86_64 8204) + 8 \<le> 8204"
  using trampoline_return_address [of 8192] trampoline_return_address [of 8204] by simp

end
