(* ===== verification/Trap_Path.thy ===== *)
theory Trap_Path
  imports Arch_Properties
begin

text \<open>
  Two whole ways through the kernel, from the first instruction of the entry to the context the
  core leaves for: of a trap, to the handler that will serve it, and of a switch to another
  process, to the thread that runs there. Each stretch is a lemma of the component it runs in; the
  contract of the assembly (\<open>block_machine\<close>) turns the run of the loop on the labels into a run of
  the instructions.
\<close>

section \<open>On the labels\<close>

lemma trap_entry_step:
  assumes "trap_entry c L E cpu 0 0 s = Inr (1, s')"
  shows "loop_step c L E \<lparr>at = Raw_trap_entry 0 0, reg_s1 = x, reg_s2 = y, core = cpu, machine = s\<rparr> =
    Next \<lparr>at = Raw_kschedule, reg_s1 = 0, reg_s2 = y, core = cpu, machine = s'\<rparr>"
  using assms by (simp add: loop_step_def call_def branch_def)

lemma kschedule_step:
  assumes "kschedule c L E cpu s = Some (Inr (Inr 0, s'))"
  shows "loop_step c L E \<lparr>at = Raw_kschedule, reg_s1 = x, reg_s2 = y, core = cpu, machine = s\<rparr> =
    Next \<lparr>at = Raw_run_task, reg_s1 = x, reg_s2 = y, core = cpu, machine = s'\<rparr>"
  using assms by (simp add: loop_step_def call_def branch_def)

lemma run_task_leaves:
  assumes "run_task c L E cpu 0 (unat y) s = Inr (Inl z, s')"
  shows "loop_step c L E \<lparr>at = Raw_run_task, reg_s1 = 0, reg_s2 = y, core = cpu, machine = s\<rparr> = Leaves z s'"
  using assms by (simp add: loop_step_def call_def)




text \<open>
  The first trap of a core: with nothing published ahead of the highest priority, the handler at
  the head of the pool runs next.
\<close>

lemma kschedule_trap:
  assumes "kernel_ok c L E cpu s" "tw_queues (twq_of s 0) cpu = [(info, Some t)]"
    and "idle_handlers (twq_of s 0) = h # hs" "t_state (TCBS s h) = Blocked" "t_pid (TCBS s t) < PROCESS_NUM c"
    and "pt_prio (PROCESS_INFO_TABLE s) 0 cpu = HIGHEST_PRIORITY c"
    and "\<And>j. pt_valid_at (PROCESS_INFO_TABLE s) j \<Longrightarrow> HIGHEST_PRIORITY c \<le> pt_prio (PROCESS_INFO_TABLE s) j cpu"
  obtains s' where "kschedule c L E cpu s = Some (Inr (Inr 0, s'))"
    "CURRENT_TASK s' cpu = Some h" "CURRENT_VSPACE s' cpu = t_pid (TCBS s t)"
    "TCBS s' = (TCBS s)(h := (TCBS s h)\<lparr>t_state := Ready, t_pid := t_pid (TCBS s t)\<rparr>)"
    "twq_of s' 0 = (twq_of s 0)\<lparr>idle_handlers := hs\<rparr>" "rq_of s' 0 = rq_of s 0"
    "KERNEL_STACKS s' = KERNEL_STACKS s" "WORLD s' = WORLD s" "\<not> IRQ_ENABLED s' cpu"
proof -
  note K = kernel_okD [OF assms(1)]
  have "best_pid s cpu 0"
    using assms(6,7) pt_invD(2) [OF sched_okD(7) [OF K(1)]] by (simp add: best_pid_def)
  then have q: "process_schedule c L s 0 cpu = Inr 0" using process_schedule_kernel [OF assms(1)] by metis
  have pid: "trap_pid (TCBS s) (Some t) = t_pid (TCBS s t)" by (simp add: trap_pid_def)
  obtain s' where k: "ktask_schedule c L E cpu 0 s = Inr (0, s')"
    "CURRENT_TASK s' cpu = Some h" "CURRENT_VSPACE s' cpu = t_pid (TCBS s t)"
    "TCBS s' = (TCBS s)(h := (TCBS s h)\<lparr>t_state := Ready, t_pid := t_pid (TCBS s t)\<rparr>)"
    "twq_of s' 0 = (twq_of s 0)\<lparr>idle_handlers := hs\<rparr>" "rq_of s' 0 = rq_of s 0"
    "KERNEL_STACKS s' = KERNEL_STACKS s" "WORLD s' = WORLD s" "IRQ_ENABLED s' = IRQ_ENABLED s"
    using ktask_schedule_trap [OF assms(1-4)] assms(5) unfolding pid by metis
  have "kschedule c L E cpu s = Some (Inr (Inr 0, s'))"
    using kschedule_loop_once [OF q k(1)] by (simp add: kschedule_unfold [OF assms(1)])
  then show thesis by (rule that) (use k(2-) K(4) in simp_all)
qed

text \<open>The three stretches together.\<close>

lemma trap_path:
  assumes "kernel_ok c L E cpu s" "memory_laws c L E live" "from_task_laws E live"
    and "own_inv c live (KERNEL_STACKS s, WORLD s)" "\<not> IS_SLEEPING s cpu"
    and "trap_stack (KERNEL_STACKS s) cpu = Some ts" "current_stack (KERNEL_STACKS s) cpu = None"
    and "CURRENT_TASK s cpu = Some t" "t_state (TCBS s t) = Running" "t_pid (TCBS s t) < PROCESS_NUM c"
    and "tw_queues (twq_of s 0) cpu = []" "idle_handlers (twq_of s 0) = h # hs"
    and "t_state (TCBS s h) = Blocked" "\<not> t_is_coroutine (TCBS s h)"
    and "loose c live (KERNEL_STACKS s, WORLD s) (t_thread_stack (TCBS s h))"
    and "\<And>j. pt_valid_at (PROCESS_INFO_TABLE s) j \<Longrightarrow> HIGHEST_PRIORITY c \<le> pt_prio (PROCESS_INFO_TABLE s) j cpu"
  obtains info s1 s' where
    "loop_runs c L E \<lparr>at = Raw_trap_entry 0 0, reg_s1 = x, reg_s2 = y, core = cpu, machine = s\<rparr>
      \<lparr>at = Raw_run_task, reg_s1 = 0, reg_s2 = y, core = cpu, machine = s1\<rparr>"
    "loop_step c L E \<lparr>at = Raw_run_task, reg_s1 = 0, reg_s2 = y, core = cpu, machine = s1\<rparr> =
      Leaves (Restore_context h) s'"
    "TCBS s' = (TCBS s)(t := (TCBS s t)\<lparr>t_state := Blocked\<rparr>,
      h := (TCBS s h)\<lparr>t_state := Running, t_pid := t_pid (TCBS s t)\<rparr>)"
    "CURRENT_TASK s' cpu = Some h" "CURRENT_VSPACE s' cpu = t_pid (TCBS s t)" "rq_of s' 0 = rq_of s 0"
    "tw_queues (twq_of s' 0) = (tw_queues (twq_of s 0))(cpu := [(info, Some t)])"
    "idle_handlers (twq_of s' 0) = hs" "stacks_ok c L E live s'"
    "current_stack (KERNEL_STACKS s') cpu = Some (t_thread_stack (TCBS s h))" "trap_stack (KERNEL_STACKS s') cpu \<noteq> None"
proof -
  note D = sched_okD [OF kernel_okD(1) [OF assms(1)]]
  have ht: "h \<noteq> t" using assms(9,13) by auto
  have room: "length (tw_queues (twq_of s 0) cpu) < TRAP_WAIT_QUEUE_SIZE c"
    using assms(11,12) D(6) by (auto elim!: twq_okE simp: idle_inv_def)
  obtain info ns s1 where e: "trap_entry c L E cpu 0 0 s = Inr (1, s1)" "kernel_ok c L E cpu s1"
    "TCBS s1 = (TCBS s)(t := (TCBS s t)\<lparr>t_state := Blocked\<rparr>)" "rq_of s1 0 = rq_of s 0"
    "tw_queues (twq_of s1 0) = (tw_queues (twq_of s 0))(cpu := tw_queues (twq_of s 0) cpu @ [(info, Some t)])"
    "idle_handlers (twq_of s1 0) = idle_handlers (twq_of s 0)"
    "\<And>j. pt_valid_at (PROCESS_INFO_TABLE s1) j = pt_valid_at (PROCESS_INFO_TABLE s) j"
    "\<And>j i. pt_prio (PROCESS_INFO_TABLE s1) j i =
      (if j = 0 \<and> i = cpu then HIGHEST_PRIORITY c else pt_prio (PROCESS_INFO_TABLE s) j i)"
    "stacks_ok c L E live s1" "trap_stack (KERNEL_STACKS s1) cpu = Some ns"
    "\<And>x. loose c live (KERNEL_STACKS s, WORLD s) x \<Longrightarrow> loose c live (KERNEL_STACKS s1, WORLD s1) x"
    by (rule sync_trap_spec [OF assms(1-9) room]) blast
  have pid: "t_pid (TCBS s1 t) = t_pid (TCBS s t)" using e(3) by simp
  obtain s2 where k: "kschedule c L E cpu s1 = Some (Inr (Inr 0, s2))"
    "CURRENT_TASK s2 cpu = Some h" "CURRENT_VSPACE s2 cpu = t_pid (TCBS s1 t)"
    "TCBS s2 = (TCBS s1)(h := (TCBS s1 h)\<lparr>t_state := Ready, t_pid := t_pid (TCBS s1 t)\<rparr>)"
    "twq_of s2 0 = (twq_of s1 0)\<lparr>idle_handlers := hs\<rparr>" "rq_of s2 0 = rq_of s1 0"
    "KERNEL_STACKS s2 = KERNEL_STACKS s1" "WORLD s2 = WORLD s1" "\<not> IRQ_ENABLED s2 cpu"
    by (rule kschedule_trap [OF e(2), of info t h hs]) (use assms(10-13,16) e(3,5-8) ht in auto)
  have st: "handler_ok c (stacks_map L) live (os_stack E)" "own_inv c live (KERNEL_STACKS s2, WORLD s2)"
    using e(9) k(7,8) by (simp_all add: stacks_ok_def)
  have h: "TCBS s2 h = (TCBS s h)\<lparr>t_state := Ready, t_pid := t_pid (TCBS s t)\<rparr>" using k(4) e(3) ht pid by simp
  let ?s' = "\<lambda>sh w. s2\<lparr>KERNEL_STACKS := sh, WORLD := w, TCBS := (TCBS s2)(h := (TCBS s2 h)\<lparr>t_state := Running\<rparr>)\<rparr>"
  obtain sh w where r: "run_task c L E cpu 0 (unat y) s2 = Inr (Inl (Restore_context h), ?s' sh w)"
    "own_inv c live (sh, w)" "trap_stack sh = trap_stack (KERNEL_STACKS s2)"
    "current_stack sh = (current_stack (KERNEL_STACKS s2))(cpu := Some (t_thread_stack (TCBS s2 h)))"
    by (rule run_task_thread [OF st D(4) k(2), of "unat y"]) (use assms(14) e(11) [OF assms(15)] h k(7-9) in auto)
  have run: "loop_runs c L E \<lparr>at = Raw_trap_entry 0 0, reg_s1 = x, reg_s2 = y, core = cpu, machine = s\<rparr>
      \<lparr>at = Raw_run_task, reg_s1 = 0, reg_s2 = y, core = cpu, machine = s2\<rparr>"
    by (rule runs_two, rule trap_entry_step [OF e(1)], rule kschedule_step [OF k(1)])
  show thesis
    by (rule that [OF run run_task_leaves [OF r(1)]])
      (use assms(11) e k r(2-4) st(1) h pid in \<open>auto simp: stacks_ok_def twq_of_def rq_of_def sched_of_def\<close>)
qed





section \<open>On the instructions\<close>

text \<open>
  C21: A synchronous trap of a kernel task, from the first instruction of \<^verbatim>\<open>raw_trap_entry\<close> on: with
  no trap waiting and a blocked thread at the head of the pool of handlers, the riscv
  instructions run to \<^verbatim>\<open>raw_run_task\<close> and from there leave the scheduler into the context of that
  handler, which is running, on its own stack and in the process of the trapped task. The trapped
  task is blocked and queued with its trap, no other task has changed, no stack is held twice, and
  another stack waits for the next trap.
\<close>

theorem sync_trap_handled:
  assumes "riscv_at raw_trap_entry st" "gpr st A0 = 0" "gpr st A1 = 0" "hart st = cpu" "riscv_sys st = s"
    and "kernel_ok c L E cpu s" "memory_laws c L E live" "from_task_laws E live"
    and "own_inv c live (KERNEL_STACKS s, WORLD s)" "\<not> IS_SLEEPING s cpu"
    and "trap_stack (KERNEL_STACKS s) cpu = Some ts" "current_stack (KERNEL_STACKS s) cpu = None"
    and "CURRENT_TASK s cpu = Some t" "t_state (TCBS s t) = Running" "t_pid (TCBS s t) < PROCESS_NUM c"
    and "tw_queues (twq_of s 0) cpu = []" "idle_handlers (twq_of s 0) = h # hs"
    and "t_state (TCBS s h) = Blocked" "\<not> t_is_coroutine (TCBS s h)"
    and "loose c live (KERNEL_STACKS s, WORLD s) (t_thread_stack (TCBS s h))"
    and "\<forall>j. pt_valid_at (PROCESS_INFO_TABLE s) j \<longrightarrow> HIGHEST_PRIORITY c \<le> pt_prio (PROCESS_INFO_TABLE s) j cpu"
  shows "\<exists>st' info s'. riscv_runs c L E junk st st' \<and> riscv_at raw_run_task st' \<and>
    riscv_block c L E junk st' = Some (Leaves (Restore_context h) s') \<and>
    TCBS s' = (TCBS s)(t := (TCBS s t)\<lparr>t_state := Blocked\<rparr>,
      h := (TCBS s h)\<lparr>t_state := Running, t_pid := t_pid (TCBS s t)\<rparr>) \<and>
    CURRENT_TASK s' cpu = Some h \<and> CURRENT_VSPACE s' cpu = t_pid (TCBS s t) \<and> rq_of s' 0 = rq_of s 0 \<and>
    tw_queues (twq_of s' 0) = (tw_queues (twq_of s 0))(cpu := [(info, Some t)]) \<and>
    idle_handlers (twq_of s' 0) = hs \<and> stacks_ok c L E live s' \<and>
    current_stack (KERNEL_STACKS s') cpu = Some (t_thread_stack (TCBS s h)) \<and>
    trap_stack (KERNEL_STACKS s') cpu \<noteq> None"
proof -
  obtain info s1 s' where p:
    "loop_runs c L E \<lparr>at = Raw_trap_entry 0 0, reg_s1 = gpr st S1, reg_s2 = gpr st S2, core = cpu, machine = s\<rparr>
      \<lparr>at = Raw_run_task, reg_s1 = 0, reg_s2 = gpr st S2, core = cpu, machine = s1\<rparr>"
    "loop_step c L E \<lparr>at = Raw_run_task, reg_s1 = 0, reg_s2 = gpr st S2, core = cpu, machine = s1\<rparr> =
      Leaves (Restore_context h) s'"
    "TCBS s' = (TCBS s)(t := (TCBS s t)\<lparr>t_state := Blocked\<rparr>,
      h := (TCBS s h)\<lparr>t_state := Running, t_pid := t_pid (TCBS s t)\<rparr>)"
    "CURRENT_TASK s' cpu = Some h" "CURRENT_VSPACE s' cpu = t_pid (TCBS s t)" "rq_of s' 0 = rq_of s 0"
    "tw_queues (twq_of s' 0) = (tw_queues (twq_of s 0))(cpu := [(info, Some t)])"
    "idle_handlers (twq_of s' 0) = hs" "stacks_ok c L E live s'"
    "current_stack (KERNEL_STACKS s') cpu = Some (t_thread_stack (TCBS s h))" "trap_stack (KERNEL_STACKS s') cpu \<noteq> None"
    by (rule trap_path [OF assms(6-20)]) (use assms(21) in blast)+
  have rel: "riscv_rel st \<lparr>at = Raw_trap_entry 0 0, reg_s1 = gpr st S1, reg_s2 = gpr st S2, core = cpu, machine = s\<rparr>"
    using riscv_relI [OF assms(1)] assms(2-5) by simp
  obtain st' where st': "riscv_runs c L E junk st st'"
    "riscv_rel st' \<lparr>at = Raw_run_task, reg_s1 = 0, reg_s2 = gpr st S2, core = cpu, machine = s1\<rparr>"
    using riscv_code.runs_complete [OF p(1) rel] by blast
  have "riscv_at raw_run_task st'" by (rule riscv_rel_runs_task(1) [OF st'(2)]) simp
  moreover have "riscv_block c L E junk st' = Some (Leaves (Restore_context h) s')"
    by (rule riscv_code.block_leaves [OF st'(2) p(2)])
  ultimately show ?thesis using st'(1) p(3-) by blast
qed

definition riscv_sync_trap :: riscv where
  "riscv_sync_trap = \<lparr>gpr = (\<lambda>_. 0), riscv_pc = 0, hart = 0,
     riscv_sys = example_sys (one_queue [41]) (one_queue []) (\<lambda>_. []) 16 16\<rparr>"

lemma sync_trap_handled_witness:
  "\<exists>st' s'. riscv_runs two_cores (list_lib two_cores) example_os (\<lambda>_ _. 7) riscv_sync_trap st' \<and>
     riscv_block two_cores (list_lib two_cores) example_os (\<lambda>_ _. 7) st' = Some (Leaves (Restore_context 20) s') \<and>
     t_state (TCBS s' 30) = Blocked \<and> t_state (TCBS s' 20) = Running"
proof -
  let ?s = "example_sys (one_queue [41]) (one_queue []) (\<lambda>_. []) 16 16"
  have r: "riscv_at raw_trap_entry riscv_sync_trap" "gpr riscv_sync_trap A0 = 0" "gpr riscv_sync_trap A1 = 0"
    "hart riscv_sync_trap = 0" "riscv_sys riscv_sync_trap = ?s"
    by (simp_all add: riscv_sync_trap_def riscv_at_def riscv_labels)
  have k: "kernel_ok two_cores (list_lib two_cores) example_os 0 ?s"
    by (rule example_kernel_ok) (simp_all add: one_queue_def isize_MAX_def)
  have t: "\<not> IS_SLEEPING ?s 0" "trap_stack (KERNEL_STACKS ?s) 0 = Some 3"
    "current_stack (KERNEL_STACKS ?s) 0 = None" "CURRENT_TASK ?s 0 = Some 30" "t_state (TCBS ?s 30) = Running"
    "t_pid (TCBS ?s 30) < PROCESS_NUM two_cores"
    by (simp_all add: example_sys_def example_tasks_def example_tcb_def)
  have h: "tw_queues (twq_of ?s 0) 0 = []" "idle_handlers (twq_of ?s 0) = 20 # [21]"
    "t_state (TCBS ?s 20) = Blocked" "\<not> t_is_coroutine (TCBS ?s 20)"
    "loose two_cores stack_live (KERNEL_STACKS ?s, WORLD ?s) (t_thread_stack (TCBS ?s 20))"
    using example_loose [of "one_queue [41]" "one_queue []" "\<lambda>_. []" 16 16]
    by (simp_all add: twq_of_def example_sys_def example_scheduler_def example_tasks_def example_tcb_def)
  have "\<forall>j. pt_valid_at (PROCESS_INFO_TABLE ?s) j \<longrightarrow>
      HIGHEST_PRIORITY two_cores \<le> pt_prio (PROCESS_INFO_TABLE ?s) j 0"
    by (auto simp: example_sys_def)
  from sync_trap_handled [OF r k example_memory_laws example_from_task_laws example_own t h this,
      of "\<lambda>_ _. 7"] t(5) show ?thesis by fastforce
qed




end
