(* ===== verification/Task_Places.thy ===== *)
theory Task_Places
  imports Main_Loop
begin

text \<open>
  Where a task is: in a ready queue, with its trap in a trap queue, in a pool of idle handlers, on a
  core, or in the hands of a handler. The invariant \<open>world\<close> says that every task is in one place at
  most; this theory has what it gives, and the moves that keep it. \<open>Task_Ownership\<close> composes them
  into the kernel's functions.
\<close>

section \<open>Cores and places\<close>

text \<open>
  What a core is doing: it runs its current task; it is in the scheduler, with no task of its own; it
  has chosen the task to run next; it sleeps; it runs a handler that has put itself back into its
  pool and still has to give up the core; it left for a user's task. The tasks whose traps are being
  handled are in the hands of handlers.
\<close>

datatype core_phase = On_task | In_scheduler | Has_chosen | Asleep | Parking | In_user

record cores =
  phases :: "nat \<Rightarrow> core_phase"
  in_hands :: "task multiset"

primrec trap_tasks :: "trap_item list \<Rightarrow> task multiset" where
  "trap_tasks [] = {#}"
| "trap_tasks (it # items) = opt_mset (snd it) + trap_tasks items"

definition parked :: "config \<Rightarrow> scheduler \<Rightarrow> task multiset" where
  "parked c sc =
     mset (concat (queues (s_ready_queue sc))) +
     (\<Sum>i<CPU_NUM c. trap_tasks (tw_queues (s_trap_wait_queue sc) i)) +
     mset (idle_handlers (s_trap_wait_queue sc))"

definition has_task :: "core_phase \<Rightarrow> bool" where
  "has_task ph \<longleftrightarrow> ph = On_task \<or> ph = Has_chosen \<or> ph = In_user"

definition on_core :: "core_phase \<Rightarrow> task option \<Rightarrow> task multiset" where
  "on_core ph t = (if has_task ph then opt_mset t else {#})"

definition owned :: "config \<Rightarrow> cores \<Rightarrow> (nat \<Rightarrow> scheduler option) \<Rightarrow> (nat \<Rightarrow> task option) \<Rightarrow> task multiset" where
  "owned c g U C =
     (\<Sum>k\<in>dom U. parked c (the (U k))) +
     (\<Sum>i<CPU_NUM c. on_core (phases g i) (C i)) + in_hands g"

abbreviation tasks_of :: "config \<Rightarrow> cores \<Rightarrow> sys \<Rightarrow> task multiset" where
  "tasks_of c g s \<equiv> owned c g (USER_SCHEDULER s) (CURRENT_TASK s)"

text \<open>A handler of some scheduler's pool.\<close>

definition pooled :: "sys \<Rightarrow> task \<Rightarrow> bool" where
  "pooled s h \<longleftrightarrow> (\<exists>k sc. USER_SCHEDULER s k = Some sc \<and> h \<in> set (idle_handlers (s_trap_wait_queue sc)))"

section \<open>The invariant\<close>

text \<open>A scheduler as the kernel uses it, whatever the address space.\<close>

definition sc_fit :: "config \<Rightarrow> nat \<Rightarrow> scheduler \<Rightarrow> bool" where
  "sc_fit c k sc \<longleftrightarrow> rq_inv c (s_ready_queue sc) \<and> global_index sc < PROCESS_NUM c \<and>
     length (idle_handlers (s_trap_wait_queue sc)) \<le> TRAP_WAIT_QUEUE_SIZE c \<and>
     (\<exists>e1 e2. sources sc = [e1, e2] \<and>
        entry_for k True 0 TRAP_WAIT_QUEUE True e1 \<and> entry_for k True 0 READY_QUEUE False e2)"

definition machine_ok :: "config \<Rightarrow> sys \<Rightarrow> bool" where
  "machine_ok c s \<longleftrightarrow>
     finite (dom (USER_SCHEDULER s)) \<and> KERNEL_SCHEDULER s = Some 0 \<and> pt_inv c (PROCESS_INFO_TABLE s) \<and>
     (\<exists>sc. USER_SCHEDULER s 0 = Some sc \<and> global_index sc = 0) \<and>
     (\<forall>k sc. USER_SCHEDULER s k = Some sc \<longrightarrow> sc_fit c k sc) \<and>
     (\<forall>t. in_range c (t_priority (TCBS s t)))"

definition placed :: "config \<Rightarrow> os \<Rightarrow> cores \<Rightarrow> sys \<Rightarrow> bool" where
  "placed c E g s \<longleftrightarrow> (\<forall>t. count (tasks_of c g s) t \<le> 1) \<and>
     (\<forall>t \<in># tasks_of c g s. os_task_live E (WORLD s) t)"

definition pools_ok :: "sys \<Rightarrow> bool" where
  "pools_ok s \<longleftrightarrow> (\<forall>h. pooled s h \<longrightarrow> t_state (TCBS s h) = Blocked \<or> t_state (TCBS s h) = Blocking)"

definition parks :: "sys \<Rightarrow> nat \<Rightarrow> task \<Rightarrow> bool" where
  "parks s i h \<longleftrightarrow> CURRENT_TASK s i = Some h \<and> pooled s h \<and> t_state (TCBS s h) = Blocking"

definition phases_ok :: "config \<Rightarrow> cores \<Rightarrow> sys \<Rightarrow> bool" where
  "phases_ok c g s \<longleftrightarrow>
     (\<forall>i < CPU_NUM c. phases g i = Asleep \<longrightarrow> IS_SLEEPING s i) \<and>
     (\<forall>i < CPU_NUM c. phases g i \<noteq> In_user \<longrightarrow> IN_KERNEL s i) \<and>
     (\<forall>i < CPU_NUM c. phases g i = Parking \<longrightarrow> (\<exists>h. parks s i h \<and>
        (\<forall>j < CPU_NUM c. j \<noteq> i \<longrightarrow> phases g j = Parking \<longrightarrow> CURRENT_TASK s j \<noteq> Some h)))"

definition world :: "config \<Rightarrow> os \<Rightarrow> cores \<Rightarrow> sys \<Rightarrow> bool" where
  "world c E g s \<longleftrightarrow> machine_ok c s \<and> placed c E g s \<and> pools_ok s \<and> phases_ok c g s"

text \<open>
  The system's part. Creating handlers, saving traps and managing stacks frees no task, and a new
  handler has a priority of the range. As a step is one call, nothing else happens in it: a busy-wait
  sees the state the task has, a wait for an interrupt that ends without one has changed nothing, and
  the poll of a coroutine changes at most its state.
\<close>

definition task_laws :: "config \<Rightarrow> lib \<Rightarrow> os \<Rightarrow> bool" where
  "task_laws c L E \<longleftrightarrow>
     config_ok c \<and> lib_laws c L \<and> handler_laws E \<and> CPU_NUM c < 2 ^ 62 \<and>
     (\<forall>p s h s'. os_new_handler E p s = (h, s') \<longrightarrow> in_range c (t_priority (TCBS s' h))) \<and>
     from_task_laws E (\<lambda>_ _. True) \<and>
     (\<forall>h s st. st \<in> set (os_observed E h s) \<longrightarrow> st = t_state (TCBS s h)) \<and>
     (\<forall>i s s'. os_wfi E i s = Some s' \<longrightarrow> (\<exists>q. s' = s\<lparr>IRQ_ENABLED := q\<rparr>)) \<and>
     (\<forall>t i s r j s'. os_poll E t i s = (r, j, s') \<longrightarrow> j = i \<and>
        (\<exists>st. s' = s\<lparr>TCBS := (TCBS s)(t := (TCBS s t)\<lparr>t_state := st\<rparr>)\<rparr>)) \<and>
     (\<forall>x. alloc_keeps (os_stack E) (\<lambda>w. os_task_live E w x)) \<and>
     (\<forall>w y x. os_task_live E w x \<longrightarrow> os_task_live E (stk_dealloc (os_stack E) y w) x)"

lemma task_lawsD:
  assumes "task_laws c L E"
  shows "config_ok c" "lib_laws c L" "handler_laws E" "CPU_NUM c < 2 ^ 62"
    "os_new_handler E p s = (h, s') \<Longrightarrow> in_range c (t_priority (TCBS s' h))"
    "from_task_laws E (\<lambda>_ _. True)"
    "st \<in> set (os_observed E h s) \<Longrightarrow> st = t_state (TCBS s h)"
    "os_wfi E i s = Some s' \<Longrightarrow> \<exists>q. s' = s\<lparr>IRQ_ENABLED := q\<rparr>"
    "os_poll E t i s = (r, j, s') \<Longrightarrow> j = i \<and>
       (\<exists>st. s' = s\<lparr>TCBS := (TCBS s)(t := (TCBS s t)\<lparr>t_state := st\<rparr>)\<rparr>)"
    "alloc_keeps (os_stack E) (\<lambda>w. os_task_live E w x)"
    "os_task_live E w x \<Longrightarrow> os_task_live E (stk_dealloc (os_stack E) y w) x"
  using assms unfolding task_laws_def by blast+

lemma worldD:
  assumes "world c E g s"
  shows "machine_ok c s" "placed c E g s" "pools_ok s" "phases_ok c g s"
  using assms by (simp_all add: world_def)

section \<open>Counting\<close>

lemma trap_tasks_append [simp]: "trap_tasks (xs @ ys) = trap_tasks xs + trap_tasks ys"
  by (induction xs) simp_all

lemma mset_concat_update:
  assumes "n < length qs"
  shows "mset (concat (qs[n := q])) + mset (qs ! n) = mset (concat qs) + mset q"
proof -
  have "qs = take n qs @ (qs ! n) # drop (Suc n) qs" using assms by (rule id_take_nth_drop)
  then have "mset (concat qs) = mset (concat (take n qs)) + mset (qs ! n) + mset (concat (drop (Suc n) qs))"
    by (metis concat.simps(2) concat_append mset_append add.assoc)
  moreover have "mset (concat (qs[n := q])) = mset (concat (take n qs)) + mset q + mset (concat (drop (Suc n) qs))"
    using assms by (simp add: upd_conv_take_nth_drop)
  ultimately show ?thesis by simp
qed

text \<open>One scheduler changes.\<close>

lemma owned_scheduler:
  assumes "finite (dom U)" "U k = Some sc"
  shows "owned c g (U(k := Some sc')) C + parked c sc = owned c g U C + parked c sc'"
proof -
  have d: "dom (U(k := Some sc')) = dom U" "k \<in> dom U" using assms(2) by auto
  have "(\<Sum>j\<in>dom U - {k}. parked c (the ((U(k := Some sc')) j))) = (\<Sum>j\<in>dom U - {k}. parked c (the (U j)))"
    by (rule sum.cong) auto
  then have "(\<Sum>j\<in>dom U. parked c (the ((U(k := Some sc')) j))) + parked c sc =
      (\<Sum>j\<in>dom U. parked c (the (U j))) + parked c sc'"
    using assms d(2) by (simp add: sum.remove [OF assms(1) d(2)] ac_simps)
  then show ?thesis unfolding owned_def d(1) by (simp add: ac_simps)
qed

text \<open>One core changes.\<close>

lemma owned_core:
  assumes "i < CPU_NUM c"
  shows "owned c (g\<lparr>phases := (phases g)(i := ph)\<rparr>) U (C(i := t)) + on_core (phases g i) (C i) =
    owned c g U C + on_core ph t"
proof -
  let ?f = "\<lambda>j. on_core (phases g j) (C j)"
  have "(\<Sum>j<CPU_NUM c. on_core (((phases g)(i := ph)) j) ((C(i := t)) j)) =
      (\<Sum>j<CPU_NUM c. (?f(i := on_core ph t)) j)"
    by (rule sum.cong) (simp_all add: fun_upd_apply)
  moreover have "(\<Sum>j<CPU_NUM c. (?f(i := on_core ph t)) j) + ?f i = (\<Sum>j<CPU_NUM c. ?f j) + on_core ph t"
    using assms by (simp add: sum.remove [of "{..<CPU_NUM c}" i] ac_simps)
  ultimately show ?thesis by (simp add: owned_def ac_simps del: fun_upd_apply)
qed

lemma on_core_owned:
  assumes "i < CPU_NUM c"
  shows "on_core (phases g i) (C i) \<subseteq># owned c g U C"
  using part_le_sum [OF assms, of "\<lambda>i. on_core (phases g i) (C i)"]
  by (auto simp: owned_def intro: subset_mset.order_trans mset_subset_eq_add_left mset_subset_eq_add_right)

lemma parked_owned:
  assumes "finite (dom U)" "U k = Some sc"
  shows "parked c sc \<subseteq># owned c g U C"
proof -
  have "(\<Sum>j\<in>dom U. parked c (the (U j))) = parked c sc + (\<Sum>j\<in>dom U - {k}. parked c (the (U j)))"
    using assms by (subst sum.remove [of _ k]) auto
  then show ?thesis by (simp add: owned_def)
qed

section \<open>What the invariant gives\<close>

lemma sc_fit_sched_ok:
  assumes "sched_ok c L E k i s" "in_kernel (sched_of s k) s i"
  shows "sc_fit c k (sched_of s k)"
proof -
  note D = sched_okD [OF assms(1)]
  have l: "length (idle_handlers (s_trap_wait_queue (sched_of s k))) \<le> TRAP_WAIT_QUEUE_SIZE c"
    using D(6,11) by (auto simp: idle_inv_def elim!: twq_okE)
  obtain e1 e2 where e: "sources (sched_of s k) = [e1, e2]"
    "entry_for k True (ACTIVE_VSPACE s i) TRAP_WAIT_QUEUE True e1" "entry_for k True (ACTIVE_VSPACE s i) READY_QUEUE False e2"
    by (rule sched_okE [OF assms(1)]) (use assms(2) in auto)
  show ?thesis
    using D(8,9) l e(1) e(2,3) [unfolded entry_for_kernel [of k "ACTIVE_VSPACE s i" _ _ _ 0]]
    by (simp add: sc_fit_def rq_of_def)
qed

lemma world_scheduler:
  assumes "world c E g s" "USER_SCHEDULER s k = Some sc"
  shows "sc_fit c k sc" "parked c sc \<subseteq># tasks_of c g s" "sched_of s k = sc"
  using assms parked_owned [of "USER_SCHEDULER s" k sc c g "CURRENT_TASK s"]
  by (simp_all add: world_def machine_ok_def sched_of_def)

lemma world_count:
  assumes "world c E g s" "A \<subseteq># tasks_of c g s"
  shows "count A t \<le> 1" "t \<in># A \<Longrightarrow> os_task_live E (WORLD s) t"
  using assms mset_subset_eq_count [OF assms(2), of t] mset_subset_eqD [OF assms(2)]
  by (auto simp: world_def placed_def intro: order_trans)

lemma pooled_owned:
  assumes "world c E g s" "pooled s h"
  shows "{#h#} \<subseteq># (\<Sum>k\<in>dom (USER_SCHEDULER s). parked c (the (USER_SCHEDULER s k)))"
proof -
  obtain k sc where k: "USER_SCHEDULER s k = Some sc" "h \<in> set (idle_handlers (s_trap_wait_queue sc))"
    using assms(2) by (auto simp: pooled_def)
  have "(\<Sum>j\<in>dom (USER_SCHEDULER s). parked c (the (USER_SCHEDULER s j))) = parked c sc +
      (\<Sum>j\<in>dom (USER_SCHEDULER s) - {k}. parked c (the (USER_SCHEDULER s j)))"
    using k assms(1) by (subst sum.remove [of _ k]) (auto simp: world_def machine_ok_def)
  then show ?thesis using k(2) by (simp add: parked_def)
qed

text \<open>A task on a core, or in the hands of a handler, is in no pool, and nowhere else.\<close>

lemma on_core_not_pooled:
  assumes "world c E g s" "i < CPU_NUM c" "has_task (phases g i)" "CURRENT_TASK s i = Some t"
  shows "\<not> pooled s t"
proof
  assume "pooled s t"
  have "{#t#} \<subseteq># (\<Sum>i<CPU_NUM c. on_core (phases g i) (CURRENT_TASK s i))"
    using part_le_sum [OF assms(2), of "\<lambda>i. on_core (phases g i) (CURRENT_TASK s i)"] assms(3,4)
    by (simp add: on_core_def)
  from subset_mset.add_mono [OF pooled_owned [OF assms(1) \<open>pooled s t\<close>] this]
  have "{#t#} + {#t#} \<subseteq># tasks_of c g s"
    unfolding owned_def by (rule subset_mset.order_trans [OF _ mset_subset_eq_add_left])
  then show False using world_count(1) [OF assms(1), of _ t] by fastforce
qed

lemma in_hands_not_pooled:
  assumes "world c E g s" "t \<in># in_hands g"
  shows "\<not> pooled s t"
proof
  assume "pooled s t"
  have "{#t#} \<subseteq># in_hands g" using assms(2) by simp
  then have "{#t#} + {#t#} \<subseteq># tasks_of c g s"
    using subset_mset.add_mono [OF pooled_owned [OF assms(1) \<open>pooled s t\<close>], of "{#t#}" "in_hands g"]
    by (auto simp: owned_def ac_simps intro: subset_mset.order_trans mset_subset_eq_add_left)
  then show False using world_count(1) [OF assms(1), of _ t] by fastforce
qed

lemma world_sched_ok:
  assumes "task_laws c L E" "world c E g s" "i < CPU_NUM c" "IN_KERNEL s i" "USER_SCHEDULER s k = Some sc"
  shows "sched_ok c L E k i s"
proof -
  note T = task_lawsD [OF assms(1)] and S = world_scheduler [OF assms(2,5)]
  have "mset (idle_handlers (s_trap_wait_queue sc)) \<subseteq># tasks_of c g s"
    using S(2) by (auto simp: parked_def intro: subset_mset.order_trans [OF mset_subset_eq_add_right])
  note C = world_count [OF assms(2) this]
  have "distinct (idle_handlers (s_trap_wait_queue sc))"
    using C(1) unfolding distinct_count_atmost_1
    by (metis count_eq_zero_iff count_greater_eq_one_iff le_antisym set_mset_mset)
  moreover have "pooled s h" if "h \<in> set (idle_handlers (s_trap_wait_queue sc))" for h
    using that assms(5) by (auto simp: pooled_def)
  ultimately have "idle_inv c E (WORLD s) (TCBS s) (idle_handlers (s_trap_wait_queue sc))"
    using C(2) S(1) worldD(3) [OF assms(2)] by (auto simp: idle_inv_def sc_fit_def pools_ok_def)
  moreover obtain e1 e2 where "sources sc = [e1, e2]"
    "entry_for k True (ACTIVE_VSPACE s i) TRAP_WAIT_QUEUE True e1" "entry_for k True (ACTIVE_VSPACE s i) READY_QUEUE False e2"
    using S(1) unfolding sc_fit_def entry_for_kernel [of k 0 _ _ _ "ACTIVE_VSPACE s i"] by blast
  ultimately show ?thesis
    using T(1-4) S(1) assms(3-5) worldD(1) [OF assms(2)]
    by (simp add: sched_ok_def twq_ok_def sc_fit_def machine_ok_def in_kernel_def)
qed

lemma world_kernel_ok:
  assumes "task_laws c L E" "world c E g s" "i < CPU_NUM c" "IN_KERNEL s i" "\<not> IRQ_ENABLED s i"
  shows "kernel_ok c L E i s"
  using world_sched_ok [OF assms(1-4), of 0] worldD(1) [OF assms(2)] assms(5)
  by (auto simp: kernel_ok_def machine_ok_def sched_of_def)

section \<open>Moves\<close>

text \<open>
  The kernel's functions are sequences of a few moves, each of which keeps the invariant: changes
  that do not concern tasks, the state of a task outside the pools, a core that gives up its task,
  a core that takes a task no one has, and the operations of a scheduler.
\<close>

definition set_phase :: "nat \<Rightarrow> core_phase \<Rightarrow> cores \<Rightarrow> cores" where
  "set_phase i ph g = g\<lparr>phases := (phases g)(i := ph)\<rparr>"

lemma set_phase_sel [simp]:
  "phases (set_phase i ph g) = (phases g)(i := ph)" "in_hands (set_phase i ph g) = in_hands g"
  "set_phase i ph (set_phase i ph' g) = set_phase i ph g"
  by (simp_all add: set_phase_def)

lemma set_phase_same: "phases g i = ph \<Longrightarrow> set_phase i ph g = g"
  by (cases g) (auto simp: set_phase_def)

text \<open>A task that no core, queue, pool or handler has.\<close>

definition unowned :: "config \<Rightarrow> os \<Rightarrow> cores \<Rightarrow> sys \<Rightarrow> task \<Rightarrow> bool" where
  "unowned c E g s t \<longleftrightarrow> t \<notin># tasks_of c g s \<and> os_task_live E (WORLD s) t"

lemma world_move:
  assumes "world c E g s" "machine_ok c s'" "tasks_of c g' s' \<subseteq># tasks_of c g s + opt_mset x"
    and "\<And>t. x = Some t \<Longrightarrow> t \<notin># tasks_of c g s \<and> os_task_live E (WORLD s') t"
    and "\<And>t. os_task_live E (WORLD s) t \<Longrightarrow> os_task_live E (WORLD s') t"
    and "pools_ok s'" "phases_ok c g' s'"
  shows "world c E g' s'"
proof -
  have "count (tasks_of c g s + opt_mset x) t \<le> 1" for t
  proof (cases "x = Some t")
    case True
    then show ?thesis using assms(4) by (simp add: not_in_iff)
  next
    case False
    then show ?thesis using assms(1) by (cases x) (auto simp: world_def placed_def)
  qed
  then have "count (tasks_of c g' s') t \<le> 1" for t
    using mset_subset_eq_count [OF assms(3), of t] by (rule order_trans [rotated])
  moreover have "os_task_live E (WORLD s') t" if "t \<in># tasks_of c g' s'" for t
    using mset_subset_eqD [OF assms(3) that] assms(1,4,5) by (cases x) (auto simp: world_def placed_def)
  ultimately show ?thesis using assms(2,6,7) by (simp add: world_def placed_def)
qed

text \<open>What tasks are not concerned with.\<close>

definition tame :: "config \<Rightarrow> os \<Rightarrow> sys \<Rightarrow> sys \<Rightarrow> bool" where
  "tame c E s s' \<longleftrightarrow> TCBS s' = TCBS s \<and> USER_SCHEDULER s' = USER_SCHEDULER s \<and>
     KERNEL_SCHEDULER s' = KERNEL_SCHEDULER s \<and> CURRENT_TASK s' = CURRENT_TASK s \<and>
     IS_SLEEPING s' = IS_SLEEPING s \<and> IN_KERNEL s' = IN_KERNEL s \<and>
     (pt_inv c (PROCESS_INFO_TABLE s) \<longrightarrow> pt_inv c (PROCESS_INFO_TABLE s')) \<and>
     (\<forall>t. os_task_live E (WORLD s) t \<longrightarrow> os_task_live E (WORLD s') t)"

lemma tame_refl [simp]: "tame c E s s"
  by (simp add: tame_def)

lemma tame_trans: "tame c E s s1 \<Longrightarrow> tame c E s1 s2 \<Longrightarrow> tame c E s s2"
  by (simp add: tame_def)

lemma tame_publish: "p \<le> isize_MAX \<Longrightarrow> tame c E s (publish pid cpus p s)"
  using publish_inv by (auto simp: tame_def publish_def)

lemma tame_world:
  assumes "tame c E s s'"
  shows "world c E g s \<Longrightarrow> world c E g s'" "unowned c E g s t \<Longrightarrow> unowned c E g s' t"
    "tasks_of c g s' = tasks_of c g s"
proof -
  show "world c E g s'" if "world c E g s"
    using that assms
    by (intro world_move [OF that, where x = None])
      (simp_all add: tame_def world_def machine_ok_def pools_ok_def phases_ok_def parks_def pooled_def)
qed (use assms in \<open>simp_all add: tame_def unowned_def\<close>)

text \<open>Other cores keep parking.\<close>

lemma phases_okI:
  assumes "phases_ok c g s"
    and "\<And>i. i < CPU_NUM c \<Longrightarrow> phases g' i = Asleep \<Longrightarrow> IS_SLEEPING s' i"
    and "\<And>i. i < CPU_NUM c \<Longrightarrow> phases g' i \<noteq> In_user \<Longrightarrow> IN_KERNEL s' i"
    and "\<And>i. i < CPU_NUM c \<Longrightarrow> phases g' i = Parking \<Longrightarrow> phases g i = Parking \<and> CURRENT_TASK s' i = CURRENT_TASK s i"
    and "\<And>i h. phases g' i = Parking \<Longrightarrow> i < CPU_NUM c \<Longrightarrow> parks s i h \<Longrightarrow> pooled s' h \<and> t_state (TCBS s' h) = Blocking"
  shows "phases_ok c g' s'"
  unfolding phases_ok_def
proof (intro conjI allI impI)
  fix i
  assume i: "i < CPU_NUM c" "phases g' i = Parking"
  with assms(1,4) obtain h where "parks s i h"
    "\<forall>j < CPU_NUM c. j \<noteq> i \<longrightarrow> phases g j = Parking \<longrightarrow> CURRENT_TASK s j \<noteq> Some h"
    unfolding phases_ok_def by blast
  moreover from this(1) assms(5) [OF i(2,1) this(1)] assms(4) [OF i] have "parks s' i h"
    by (simp add: parks_def)
  ultimately show "\<exists>h. parks s' i h \<and>
      (\<forall>j < CPU_NUM c. j \<noteq> i \<longrightarrow> phases g' j = Parking \<longrightarrow> CURRENT_TASK s' j \<noteq> Some h)"
    using assms(4) by metis
qed (use assms(2,3) in blast)+

lemma world_tcb:
  assumes "world c E g s" "\<not> pooled s t" "in_range c (t_priority tcb)"
  shows "world c E g (s\<lparr>TCBS := (TCBS s)(t := tcb)\<rparr>)"
proof (rule world_move [OF assms(1), where x = None])
  show "phases_ok c g (s\<lparr>TCBS := (TCBS s)(t := tcb)\<rparr>)"
    by (rule phases_okI [OF worldD(4) [OF assms(1)]])
      (use worldD(4) [OF assms(1)] assms(2) in \<open>auto simp: phases_ok_def parks_def pooled_def\<close>)
qed (use assms in \<open>auto simp: world_def machine_ok_def pools_ok_def pooled_def\<close>)

text \<open>A core gives up what it did, and its task.\<close>

lemma owned_release:
  assumes "i < CPU_NUM c"
  shows "owned c (set_phase i In_scheduler g) U C + on_core (phases g i) (C i) = owned c g U C"
  using owned_core [OF assms, of g In_scheduler U C "C i"] by (simp add: set_phase_def on_core_def has_task_def)

lemma world_release:
  assumes "world c E g s" "i < CPU_NUM c" "IN_KERNEL s i"
  shows "world c E (set_phase i In_scheduler g) s"
proof (rule world_move [OF assms(1), where x = None])
  show "tasks_of c (set_phase i In_scheduler g) s \<subseteq># tasks_of c g s + opt_mset None"
    unfolding owned_release [OF assms(2), of g, symmetric] by simp
  show "phases_ok c (set_phase i In_scheduler g) s"
    by (rule phases_okI [OF worldD(4) [OF assms(1)]])
      (use worldD(4) [OF assms(1)] assms(3) in \<open>auto simp: phases_ok_def parks_def split: if_splits\<close>)
qed (use worldD [OF assms(1)] in simp_all)

lemma unowned_rest:
  assumes "world c E g s" "tasks_of c g' s' + {#t#} \<subseteq># tasks_of c g s" "os_task_live E (WORLD s) t \<Longrightarrow> os_task_live E (WORLD s') t"
  shows "unowned c E g' s' t"
proof -
  have "count (tasks_of c g' s' + {#t#}) t \<le> 1" by (rule world_count [OF assms(1,2)])
  then show ?thesis using assms(3) world_count(2) [OF assms(1,2), of t] by (simp add: unowned_def not_in_iff)
qed

lemma released_unowned:
  assumes "world c E g s" "i < CPU_NUM c" "has_task (phases g i)" "CURRENT_TASK s i = Some t"
  shows "unowned c E (set_phase i In_scheduler g) s t"
  using owned_release [OF assms(2), of g "USER_SCHEDULER s" "CURRENT_TASK s"] assms(3,4)
  by (intro unowned_rest [OF assms(1)]) (simp_all add: on_core_def)

text \<open>A core in the scheduler may name any task as its current one.\<close>

lemma idle_current:
  assumes "i < CPU_NUM c" "phases g i = In_scheduler"
  shows "tasks_of c g (s\<lparr>CURRENT_TASK := (CURRENT_TASK s)(i := x)\<rparr>) = tasks_of c g s"
    "world c E g s \<Longrightarrow> world c E g (s\<lparr>CURRENT_TASK := (CURRENT_TASK s)(i := x)\<rparr>)"
proof -
  show eq: "tasks_of c g (s\<lparr>CURRENT_TASK := (CURRENT_TASK s)(i := x)\<rparr>) = tasks_of c g s"
    using owned_core [OF assms(1), of g In_scheduler "USER_SCHEDULER s" "CURRENT_TASK s" x] assms(2)
    by (simp add: set_phase_same [unfolded set_phase_def] on_core_def has_task_def)
  show "world c E g (s\<lparr>CURRENT_TASK := (CURRENT_TASK s)(i := x)\<rparr>)" if w: "world c E g s"
  proof (rule world_move [OF w, where x = None])
    show "phases_ok c g (s\<lparr>CURRENT_TASK := (CURRENT_TASK s)(i := x)\<rparr>)"
      by (rule phases_okI [OF worldD(4) [OF w]])
        (use worldD(4) [OF w] assms(2) in \<open>auto simp: phases_ok_def parks_def pooled_def\<close>)
  qed (use eq worldD [OF w] in \<open>auto simp: machine_ok_def pools_ok_def pooled_def\<close>)
qed

text \<open>It takes a task.\<close>

lemma world_take:
  assumes "world c E g s" "i < CPU_NUM c" "phases g i = In_scheduler" "unowned c E g s t" "has_task ph"
  shows "world c E (set_phase i ph g) (s\<lparr>CURRENT_TASK := (CURRENT_TASK s)(i := Some t)\<rparr>)"
proof (rule world_move [OF assms(1), where x = "Some t"])
  show "tasks_of c (set_phase i ph g) (s\<lparr>CURRENT_TASK := (CURRENT_TASK s)(i := Some t)\<rparr>)
      \<subseteq># tasks_of c g s + opt_mset (Some t)"
    using owned_core [OF assms(2), of g ph "USER_SCHEDULER s" "CURRENT_TASK s" "Some t"] assms(3,5)
    by (simp add: set_phase_def on_core_def has_task_def)
  show "phases_ok c (set_phase i ph g) (s\<lparr>CURRENT_TASK := (CURRENT_TASK s)(i := Some t)\<rparr>)"
    by (rule phases_okI [OF worldD(4) [OF assms(1)]])
      (use worldD(4) [OF assms(1)] assms(2,3,5) in
        \<open>auto simp: phases_ok_def parks_def pooled_def has_task_def split: if_splits\<close>)
qed (use assms(4) worldD [OF assms(1)] in \<open>auto simp: machine_ok_def pools_ok_def pooled_def unowned_def\<close>)

lemma world_phase:
  assumes "world c E g s" "i < CPU_NUM c" "has_task (phases g i)" "phases g i \<noteq> In_user" "has_task ph"
    and "b \<or> ph = In_user"
  shows "world c E (set_phase i ph g) (s\<lparr>IN_KERNEL := (IN_KERNEL s)(i := b)\<rparr>)"
proof (rule world_move [OF assms(1), where x = None])
  show "tasks_of c (set_phase i ph g) (s\<lparr>IN_KERNEL := (IN_KERNEL s)(i := b)\<rparr>) \<subseteq># tasks_of c g s + opt_mset None"
    using owned_core [OF assms(2), of g ph "USER_SCHEDULER s" "CURRENT_TASK s" "CURRENT_TASK s i"] assms(3,5)
    by (simp add: set_phase_def on_core_def)
  show "phases_ok c (set_phase i ph g) (s\<lparr>IN_KERNEL := (IN_KERNEL s)(i := b)\<rparr>)"
    by (rule phases_okI [OF worldD(4) [OF assms(1)]])
      (use worldD(4) [OF assms(1)] assms(3-6) in
        \<open>auto simp: phases_ok_def parks_def pooled_def has_task_def split: if_splits\<close>)
qed (use worldD [OF assms(1)] in \<open>auto simp: machine_ok_def pools_ok_def pooled_def\<close>)

text \<open>A core sets its sleeping flag.\<close>

lemma world_sleeping:
  assumes "world c E g s" "b \<or> phases g i \<noteq> Asleep"
  shows "world c E g (s\<lparr>IS_SLEEPING := (IS_SLEEPING s)(i := b)\<rparr>)"
proof (rule world_move [OF assms(1), where x = None])
  show "phases_ok c g (s\<lparr>IS_SLEEPING := (IS_SLEEPING s)(i := b)\<rparr>)"
    by (rule phases_okI [OF worldD(4) [OF assms(1)]])
      (use worldD(4) [OF assms(1)] assms(2) in \<open>auto simp: phases_ok_def parks_def pooled_def\<close>)
qed (use worldD [OF assms(1)] in \<open>auto simp: machine_ok_def pools_ok_def pooled_def\<close>)

text \<open>One scheduler changes: a task that no one has may come in; handlers that wait for their core stay.\<close>

lemma world_sched_move:
  assumes "world c E g s" "USER_SCHEDULER s k = Some sc" "sc_fit c k sc'" "global_index sc' = global_index sc"
    and "parked c sc' \<subseteq># parked c sc + opt_mset x" "\<And>t. x = Some t \<Longrightarrow> unowned c E g s t"
    and "\<And>h. h \<in> set (idle_handlers (s_trap_wait_queue sc')) \<Longrightarrow> h \<in> set (idle_handlers (s_trap_wait_queue sc))"
    and "\<And>h. h \<in> set (idle_handlers (s_trap_wait_queue sc)) \<Longrightarrow> t_state (TCBS s h) = Blocking \<Longrightarrow>
      h \<in> set (idle_handlers (s_trap_wait_queue sc'))"
  shows "world c E g (set_scheduler k sc' s)"
proof (rule world_move [OF assms(1), where x = x])
  have U: "finite (dom (USER_SCHEDULER s))" using worldD(1) [OF assms(1)] by (simp add: machine_ok_def)
  have "tasks_of c g (set_scheduler k sc' s) + parked c sc \<subseteq># tasks_of c g s + (parked c sc + opt_mset x)"
    using owned_scheduler [OF U assms(2), of c g sc' "CURRENT_TASK s"] assms(5)
    by (simp add: set_scheduler_def del: fun_upd_apply)
  then show "tasks_of c g (set_scheduler k sc' s) \<subseteq># tasks_of c g s + opt_mset x"
    by (simp add: ac_simps subset_mset.add_le_cancel_left)
  have p: "pooled s h" if "pooled (set_scheduler k sc' s) h" for h
    using that assms(2,7) by (auto simp: pooled_def split: if_splits)
  then show "pools_ok (set_scheduler k sc' s)" using worldD(3) [OF assms(1)] by (auto simp: pools_ok_def)
  have "pooled (set_scheduler k sc' s) h" if "pooled s h" "t_state (TCBS s h) = Blocking" for h
  proof -
    from that(1) obtain j sc0 where "USER_SCHEDULER s j = Some sc0" "h \<in> set (idle_handlers (s_trap_wait_queue sc0))"
      unfolding pooled_def by blast
    then show ?thesis using assms(2) assms(8) [OF _ that(2)] unfolding pooled_def
      by (intro exI [of _ j] exI [of _ "if j = k then sc' else sc0"]) auto
  qed
  then show "phases_ok c g (set_scheduler k sc' s)"
    by (intro phases_okI [OF worldD(4) [OF assms(1)]])
      (use worldD(4) [OF assms(1)] in \<open>auto simp: phases_ok_def parks_def set_scheduler_def\<close>)
qed (use worldD [OF assms(1)] assms(2,3,4,6) in
    \<open>auto simp: machine_ok_def unowned_def set_scheduler_def split: if_splits\<close>)

end
