(* ===== verification/Task_Ownership.thy ===== *)
theory Task_Ownership
  imports Task_Places Api Trap_Handler Example
begin

text \<open>
  The functions of the kernel move tasks between the places of \<open>Task_Places\<close>. Here several cores
  call them in any order, each call as one step (the steps inside the calls are interleaved in
  \<open>Ready_Queue_Smp\<close>, \<open>Publish_Smp\<close> and \<open>Handler_Smp\<close>), and no task ever comes to be in two places. A
  core that leaves for a user's task keeps it and makes no further step here.
\<close>

section \<open>The operations of a scheduler\<close>









section \<open>What does not concern tasks\<close>









section \<open>The entries\<close>










section \<open>The scheduler's loop\<close>






section \<open>Running the chosen task\<close>






section \<open>The handlers\<close>

text \<open>
  The first half of an iteration of \<^verbatim>\<open>trap_handler\<close>: the handler takes the first trap of its core.
\<close>

definition take_trap :: "config \<Rightarrow> lib \<Rightarrow> os \<Rightarrow> nat \<Rightarrow> nat \<Rightarrow> sys \<Rightarrow> (trap_item option \<times> sys) result" where
  "take_trap c L E k cpuid s =
     and_then (scheduler_at s k) (\<lambda>sc.
       let q = s_trap_wait_queue sc in
       case dq_pop_front (trap_deque L) (tw_queues q cpuid) of
         None \<Rightarrow> Inr (None, s)
       | Some (item, items) \<Rightarrow>
           and_then (set_twq k (q\<lparr>tw_queues := (tw_queues q)(cpuid := items)\<rparr>) s) (\<lambda>s1.
           and_then
             (if dq_is_empty (trap_deque L) items
              then and_then (get_and_update_current_prio c L E k s1 cpuid) (\<lambda>(_, s2). Inr s2)
              else Inr s1)
             (\<lambda>s2. Inr (Some item, s2))))"

lemma trap_handler_step_take:
  "trap_handler_step c L E k h cpu s =
     and_then (take_trap c L E k cpu s) (\<lambda>(it, s').
       case it of None \<Rightarrow> reschedule_handler L E k h cpu s' | Some item \<Rightarrow> handle_trap c L E h cpu item s')"
  by (cases "scheduler_at s k")
    (simp_all add: trap_handler_step_def take_trap_def and_then_assoc Let_def split: option.splits)








section \<open>The cores together\<close>

















end
