(* ===== verification/Ready_Run.thy ===== *)
theory Ready_Run
  imports Trap_Path
begin

text \<open>
  The kernel's loop on a core whose ready tasks are coroutines and whose process table names no
  other process with work: it runs every ready task once, in the order of the ready queue, and
  then sleeps. One turn of the loop is a lemma over the lemmas of its components; the turns are
  composed by induction on the order of the queue, and the contract of the assembly turns them
  into a run of the riscv instructions.
\<close>

section \<open>The order of the ready tasks\<close>

text \<open>The tasks of a queue of lists in the order in which they are taken.\<close>

definition fifo_order :: "config \<Rightarrow> prio_fifo \<Rightarrow> task list" where
  "fifo_order c A = concat (map A [HIGHEST_PRIORITY c..LOWEST_PRIORITY c])"

definition ready_order :: "config \<Rightarrow> sys \<Rightarrow> task list" where
  "ready_order c s = fifo_order c (rq_abs c (rq_of s 0))"

lemma concat_first:
  assumes "find (\<lambda>p. A p \<noteq> []) ps = Some p" "distinct ps"
  shows "concat (map A ps) = hd (A p) # concat (map (A(p := tl (A p))) ps)"
  using assms
proof (induction ps)
  case (Cons q ps)
  show ?case
  proof (cases "A q")
    case Nil
    with Cons show ?thesis by auto
  next
    case (Cons t list)
    with Cons.prems have "q = p" "p \<notin> set ps" by auto
    with Cons show ?thesis by (simp del: fun_upd_apply add: fun_upd_same)
  qed
qed simp

lemma fifo_take_order:
  assumes "fifo_take c A = (r, B)"
  shows "fifo_order c A = (case r of None \<Rightarrow> [] | Some t \<Rightarrow> t # fifo_order c B)"
proof (cases "fifo_top c A")
  case None
  then have "fifo_order c A = []" by (auto simp: fifo_order_def fifo_top_def find_None_iff)
  with None assms show ?thesis by (auto simp: fifo_take_def)
next
  case (Some p)
  with assms concat_first [of A "[HIGHEST_PRIORITY c..LOWEST_PRIORITY c]" p] show ?thesis
    by (auto simp: fifo_take_def fifo_order_def fifo_top_def)
qed

lemma ready_order_take:
  assumes "sched_ok c L E 0 cpu s" "ready_order c s = t # ts"
  obtains p rq' where "take_ref c (rq_of s 0) = ((Some t, p), rq')" "fifo_order c (rq_abs c rq') = ts"
    "p \<le> LOWEST_PRIORITY c"
proof -
  obtain r p rq' where r: "take_ref c (rq_of s 0) = ((r, p), rq')"
    "fifo_take c (rq_abs c (rq_of s 0)) = (r, rq_abs c rq')"
    "p = (case fifo_top c (rq_abs c (rq_of s 0)) of None \<Rightarrow> LOWEST_PRIORITY c + 1 | Some q \<Rightarrow> q)"
    by (rule sched_take_ref [OF assms(1)])
  have o: "r = Some t" "fifo_order c (rq_abs c rq') = ts"
    using fifo_take_order [OF r(2)] assms(2) by (auto simp: ready_order_def split: option.splits)
  then have "fifo_top c (rq_abs c (rq_of s 0)) = Some p"
    using r(2,3) by (auto simp: fifo_take_def split: option.splits)
  then have "p \<le> LOWEST_PRIORITY c" by (auto simp: fifo_top_def find_Some_iff dest!: nth_mem)
  with r(1) o that show thesis by blast
qed

lemma ready_order_empty:
  assumes "sched_ok c L E 0 cpu s" "ready_order c s = []"
  shows "\<not> rq_pending (rq_of s 0) cpu"
proof
  note D = sched_okD [OF assms(1)]
  assume "rq_pending (rq_of s 0) cpu"
  then have "fifo_top c (rq_abs c (rq_of s 0)) \<noteq> None"
    by (simp add: fifo_top_abs [OF D(1,8)] rq_pending_top)
  then obtain t B where "fifo_take c (rq_abs c (rq_of s 0)) = (Some t, B)" by (auto simp: fifo_take_def)
  from fifo_take_order [OF this] assms(2) show False by (simp add: ready_order_def)
qed

section \<open>One turn of the loop\<close>

text \<open>
  A coroutine whose poll comes back on the same core, with a value or without one, and changes
  nothing but the system's memory, where no task and no stack is freed.
\<close>

definition poll_ends :: "os \<Rightarrow> (nat \<Rightarrow> nat \<Rightarrow> bool) \<Rightarrow> nat \<Rightarrow> task \<Rightarrow> int option \<Rightarrow> bool" where
  "poll_ends E live cpu t r \<longleftrightarrow> (\<forall>u. \<exists>w. os_poll E t cpu u = (r, cpu, u\<lparr>WORLD := w\<rparr>) \<and>
     (\<forall>x. os_task_live E (WORLD u) x \<longrightarrow> os_task_live E w x) \<and> (\<forall>x. live (WORLD u) x \<longrightarrow> live w x))"

definition after_poll :: "int option \<Rightarrow> tcb \<Rightarrow> tcb" where
  "after_poll r x = (case r of
     Some v \<Rightarrow> x\<lparr>t_return_value := Some v, t_state := Exited, t_dealloced := True\<rparr>
   | None \<Rightarrow> x\<lparr>t_state := Blocked\<rparr>)"

lemma run_coroutine_ends:
  assumes "CURRENT_TASK s cpu = Some t" "t_state (TCBS s t) = Ready" "\<not> IRQ_ENABLED s cpu" "IN_KERNEL s cpu"
    and "poll_ends E live cpu t r"
  obtains w where "run_coroutine c L E cpu s =
      Inr ((0, cpu), s\<lparr>WORLD := w, TCBS := (TCBS s)(t := after_poll r (TCBS s t))\<rparr>)"
    "\<And>x. os_task_live E (WORLD s) x \<Longrightarrow> os_task_live E w x" "\<And>x. live (WORLD s) x \<Longrightarrow> live w x"
proof -
  let ?u = "s\<lparr>TCBS := (TCBS s)(t := (TCBS s t)\<lparr>t_state := Running\<rparr>)\<rparr>"
  obtain w where w: "os_poll E t cpu ?u = (r, cpu, ?u\<lparr>WORLD := w\<rparr>)"
    "\<And>x. os_task_live E (WORLD s) x \<Longrightarrow> os_task_live E w x" "\<And>x. live (WORLD s) x \<Longrightarrow> live w x"
    using spec [OF assms(5) [unfolded poll_ends_def], of ?u] by auto
  show thesis
  proof (rule that [OF _ w(2,3)])
    show "run_coroutine c L E cpu s =
        Inr ((0, cpu), s\<lparr>WORLD := w, TCBS := (TCBS s)(t := after_poll r (TCBS s t))\<rparr>)"
      using assms(1-4) w(1)
      by (cases r) (simp_all add: run_coroutine_def start_current_def get_current_task_def set_state_def
        set_return_value_def assert_disable_irq_def Let_def push_prev_task_def dealloc_task_def
        after_poll_def yield_task_waits)
  qed
qed

text \<open>
  What a turn needs of the machine and keeps: the kernel may use its scheduler on the core, no
  trap waits there, and no process but the kernel publishes work.
\<close>

definition turn_ok :: "config \<Rightarrow> lib \<Rightarrow> os \<Rightarrow> (nat \<Rightarrow> nat \<Rightarrow> bool) \<Rightarrow> nat \<Rightarrow> task \<Rightarrow> sys \<Rightarrow> bool" where
  "turn_ok c L E live cpu wt s \<longleftrightarrow> kernel_ok c L E cpu s \<and> stacks_ok c L E live s \<and> IN_KERNEL s cpu \<and>
     SCHEDULER_WAIT_CONTEXT s cpu = Some wt \<and> \<not> twq_pending 0 s cpu \<and> best_pid s cpu 0 \<and>
     (\<forall>j. pt_valid_at (PROCESS_INFO_TABLE s) j \<longrightarrow> j \<noteq> 0 \<longrightarrow>
        LOWEST_PRIORITY c < pt_prio (PROCESS_INFO_TABLE s) j cpu)"

lemma turn_okD:
  assumes "turn_ok c L E live cpu wt s"
  shows "kernel_ok c L E cpu s" "stacks_ok c L E live s" "IN_KERNEL s cpu"
    "SCHEDULER_WAIT_CONTEXT s cpu = Some wt" "\<not> twq_pending 0 s cpu" "best_pid s cpu 0"
    "pt_valid_at (PROCESS_INFO_TABLE s) j \<Longrightarrow> j \<noteq> 0 \<Longrightarrow>
       LOWEST_PRIORITY c < pt_prio (PROCESS_INFO_TABLE s) j cpu"
  using assms unfolding turn_ok_def by blast+

definition runnable :: "config \<Rightarrow> os \<Rightarrow> (nat \<Rightarrow> nat \<Rightarrow> bool) \<Rightarrow> nat \<Rightarrow> tcb \<Rightarrow> task \<Rightarrow> int option \<Rightarrow> bool" where
  "runnable c E live cpu x t r \<longleftrightarrow> t_state x = Ready \<and> t_is_coroutine x \<and> t_pid x < PROCESS_NUM c \<and>
     poll_ends E live cpu t r"

text \<open>The choice of the first ready task.\<close>

lemma kschedule_turn:
  assumes "turn_ok c L E live cpu wt s" "ready_order c s = t # ts" "t_pid (TCBS s t) < PROCESS_NUM c"
  obtains s' where "kschedule c L E cpu s = Some (Inr (Inr 0, s'))" "turn_ok c L E live cpu wt s'"
    "CURRENT_TASK s' cpu = Some t" "ready_order c s' = ts" "TCBS s' = TCBS s"
proof -
  note T = turn_okD [OF assms(1)] note K = kernel_okD [OF T(1)] note D = sched_okD [OF K(1)]
  obtain p rq' where r: "take_ref c (rq_of s 0) = ((Some t, p), rq')" "fifo_order c (rq_abs c rq') = ts"
    "p \<le> LOWEST_PRIORITY c"
    by (rule ready_order_take [OF K(1) assms(2)])
  obtain v a s' where s': "ktask_schedule c L E cpu 0 s = Inr (0, s')" "kernel_ok c L E cpu s'"
    "s' = (publish 0 (\<lambda>i. i < CPU_NUM c) p (set_rq 0 rq' s))
      \<lparr>CURRENT_VSPACE := v, ACTIVE_VSPACE := a, CURRENT_TASK := (CURRENT_TASK s)(cpu := Some t)\<rparr>"
    by (rule ktask_schedule_takes [OF T(1,5) r(1) assms(3)])
  have z: "0 < length (pt_table (PROCESS_INFO_TABLE s))" using pt_invD(1,3) [OF D(7)] by simp
  have f: "stacks_ok c L E live s'" "IN_KERNEL s' cpu" "SCHEDULER_WAIT_CONTEXT s' cpu = Some wt"
    "CURRENT_TASK s' cpu = Some t" "TCBS s' = TCBS s" "rq_of s' 0 = rq'"
    "PROCESS_INFO_TABLE s' = PROCESS_INFO_TABLE (publish 0 (\<lambda>i. i < CPU_NUM c) p s)"
    using T(2-4) by (simp_all add: s'(3) stacks_ok_def publish_def set_rq_def set_scheduler_def rq_of_def sched_of_def)
  have "twq_pending 0 s' cpu = twq_pending 0 (set_rq 0 rq' s) cpu"
    by (simp add: s'(3) twq_pending_def twq_of_def publish_def)
  then have q: "\<not> twq_pending 0 s' cpu" using set_rq_twq [OF D(10)] T(5) by simp
  have prio: "pt_prio (PROCESS_INFO_TABLE s') j cpu = (if j = 0 then p else pt_prio (PROCESS_INFO_TABLE s) j cpu)"
    "pt_valid_at (PROCESS_INFO_TABLE s') j = pt_valid_at (PROCESS_INFO_TABLE s) j" for j
    using D(4) by (simp add: f(7) publish_prio [OF z], simp add: f(7) publish_def pt_update_valid_at)
  have "best_pid s' cpu 0" unfolding best_pid_def prio using T(6) order_trans [OF r(3) less_imp_le [OF T(7)]] by (auto simp: best_pid_def)
  then have "turn_ok c L E live cpu wt s'"
    unfolding turn_ok_def prio using s'(2) f(1-3) q T(7) by auto
  moreover have "kschedule c L E cpu s = Some (Inr (Inr 0, s'))"
  proof -
    obtain i where "process_schedule c L s 0 cpu = Inr i" "best_pid s cpu 0 \<Longrightarrow> i = 0"
      using process_schedule_kernel [OF T(1)] by metis
    then show ?thesis
      using kschedule_loop_once [of c L s cpu 0 E 0 s'] T(6) s'(1) by (simp add: kschedule_unfold [OF T(1)])
  qed
  ultimately show thesis using that f(4-6) r(2) by (simp add: ready_order_def)
qed

text \<open>Its run.\<close>

lemma run_task_turn:
  assumes "turn_ok c L E live cpu wt s" "memory_laws c L E live" "CURRENT_TASK s cpu = Some t"
    and "runnable c E live cpu (TCBS s t) t r"
  obtains s' where "run_task c L E cpu 0 k s = Inr (Inr (0, cpu), s')" "turn_ok c L E live cpu wt s'"
    "ready_order c s' = ready_order c s" "TCBS s' = (TCBS s)(t := after_poll r (TCBS s t))"
proof -
  note T = turn_okD [OF assms(1)] note K = kernel_okD [OF T(1)] note D = sched_okD [OF K(1)]
  note R = assms(4) [unfolded runnable_def]
  have st: "handler_ok c (stacks_map L) live (os_stack E)" "own_inv c live (KERNEL_STACKS s, WORLD s)"
    using T(2) by (simp_all add: stacks_ok_def)
  have keeps: "alloc_keeps (os_stack E) (\<lambda>w. os_task_live E w x)" for x
    using assms(2) by (simp add: memory_laws_def)
  obtain b sh w where e: "get_empty_stack c (stacks_map L) (os_stack E) cpu (KERNEL_STACKS s, WORLD s) k = Inr (b, sh, w)"
    "own_inv c live (sh, w)"
    using get_empty_stack_spec [OF st D(4)] by metis
  let ?s1 = "s\<lparr>KERNEL_STACKS := sh, WORLD := w\<rparr>"
  obtain w' where w': "run_coroutine c L E cpu ?s1 = Inr ((0, cpu), ?s1\<lparr>WORLD := w',
      TCBS := (TCBS ?s1)(t := after_poll r (TCBS ?s1 t))\<rparr>)"
    "\<And>x. os_task_live E w x \<Longrightarrow> os_task_live E w' x" "\<And>x. live w x \<Longrightarrow> live w' x"
    by (rule run_coroutine_ends [of ?s1 cpu t E live r c L]) (use assms(3) R K(4) T(3) in auto)
  let ?s2 = "s\<lparr>KERNEL_STACKS := sh, WORLD := w'\<rparr>"
  let ?s' = "?s2\<lparr>TCBS := (TCBS s)(t := after_poll r (TCBS s t))\<rparr>"
  have k2: "kernel_ok c L E cpu ?s2"
    by (rule kernel_ok_cong [OF T(1)]) (use w'(2) get_empty_stack_world [OF keeps e(1)] in simp_all)
  have k': "kernel_ok c L E cpu ?s'" using kernel_ok_awake(1) [OF k2, of t] R by simp
  have o: "own_inv c live (sh, w')" using e(2) w'(3) by (auto simp: own_inv_def)
  have "turn_ok c L E live cpu wt ?s'"
    using T k' st(1) o by (simp add: turn_ok_def stacks_ok_def twq_pending_def twq_of_def best_pid_def)
  moreover have "run_task c L E cpu 0 k s = Inr (Inr (0, cpu), ?s')"
    using assms(3) R e(1) w'(1) by (simp add: run_task_def get_current_task_def on_stacks_def on_kernel_stacks_def)
  moreover have "ready_order c ?s' = ready_order c s" by (simp add: ready_order_def rq_of_def sched_of_def)
  ultimately show thesis using that by simp
qed

section \<open>All turns\<close>

definition loop_running :: "loop_state \<Rightarrow> task option" where
  "loop_running st = (if at st = Raw_run_task then CURRENT_TASK (machine st) (core st) else None)"

lemma run_task_goes_on:
  assumes "run_task c L E cpu 0 (unat y) s = Inr (Inr (0, cpu), s')"
  shows "loop_step c L E \<lparr>at = Raw_run_task, reg_s1 = 0, reg_s2 = y, core = cpu, machine = s\<rparr> =
    Next \<lparr>at = Raw_kschedule, reg_s1 = 0, reg_s2 = 0, core = cpu, machine = s'\<rparr>"
  using assms by (simp add: loop_step_def call_def branch_def)

lemma loop_serves:
  assumes "turn_ok c L E live cpu wt s" "memory_laws c L E live" "ready_order c s = ts" "distinct ts"
    and "\<And>t. t \<in> set ts \<Longrightarrow> runnable c E live cpu (TCBS s t) t (P t)"
  obtains y' s' where "serves (loop_step c L E) loop_running ts
      \<lparr>at = Raw_kschedule, reg_s1 = 0, reg_s2 = y, core = cpu, machine = s\<rparr>
      \<lparr>at = Raw_kschedule, reg_s1 = 0, reg_s2 = y', core = cpu, machine = s'\<rparr>"
    "turn_ok c L E live cpu wt s'" "ready_order c s' = []"
    "TCBS s' = (\<lambda>t. if t \<in> set ts then after_poll (P t) (TCBS s t) else TCBS s t)"
  using assms
proof (induction ts arbitrary: s y thesis)
  case Nil
  from Nil(1) [OF _ Nil(2,4)] show ?case by simp
next
  case (Cons t ts)
  have r: "runnable c E live cpu (TCBS s t) t (P t)" using Cons.prems(6) by simp
  then have pid: "t_pid (TCBS s t) < PROCESS_NUM c" by (simp add: runnable_def)
  obtain s1 where s1: "kschedule c L E cpu s = Some (Inr (Inr 0, s1))" "turn_ok c L E live cpu wt s1"
    "CURRENT_TASK s1 cpu = Some t" "ready_order c s1 = ts" "TCBS s1 = TCBS s"
    by (rule kschedule_turn [OF Cons.prems(2,4) pid])
  obtain s2 where s2: "run_task c L E cpu 0 (unat y) s1 = Inr (Inr (0, cpu), s2)" "turn_ok c L E live cpu wt s2"
    "ready_order c s2 = ready_order c s1" "TCBS s2 = (TCBS s1)(t := after_poll (P t) (TCBS s1 t))"
    using run_task_turn [OF s1(2) Cons.prems(3) s1(3)] r s1(5) by metis
  have o: "ready_order c s2 = ts" "distinct ts" "t \<notin> set ts" using s2(3) s1(4) Cons.prems(5) by simp_all
  have rest: "runnable c E live cpu (TCBS s2 x) x (P x)" if "x \<in> set ts" for x
    using Cons.prems(6) [of x] that o(3) s2(4) s1(5) by auto
  obtain y' s' where g: "serves (loop_step c L E) loop_running ts
      \<lparr>at = Raw_kschedule, reg_s1 = 0, reg_s2 = 0, core = cpu, machine = s2\<rparr>
      \<lparr>at = Raw_kschedule, reg_s1 = 0, reg_s2 = y', core = cpu, machine = s'\<rparr>"
    "turn_ok c L E live cpu wt s'" "ready_order c s' = []"
    "TCBS s' = (\<lambda>t. if t \<in> set ts then after_poll (P t) (TCBS s2 t) else TCBS s2 t)"
    by (rule Cons.IH [of 0 s2]) (use s2(2) Cons.prems(3) o(1,2) rest in blast)+
  have "serves (loop_step c L E) loop_running (t # ts)
      \<lparr>at = Raw_kschedule, reg_s1 = 0, reg_s2 = y, core = cpu, machine = s\<rparr>
      \<lparr>at = Raw_kschedule, reg_s1 = 0, reg_s2 = y', core = cpu, machine = s'\<rparr>"
    using kschedule_step [OF s1(1)] run_task_goes_on [OF s2(1)] g(1) s1(3) by (auto simp: loop_running_def)
  moreover have "TCBS s' = (\<lambda>x. if x \<in> set (t # ts) then after_poll (P x) (TCBS s x) else TCBS s x)"
    using g(4) s2(4) s1(5) o(3) by (auto simp: fun_eq_iff)
  ultimately show ?case using Cons.prems(1) g(2,3) by blast
qed

text \<open>With nothing left the loop sleeps.\<close>

lemma loop_sleeps:
  assumes "turn_ok c L E live cpu wt s" "ready_order c s = []" "\<And>u. os_wfi E cpu u = None"
  obtains s' where "loop_step c L E \<lparr>at = Raw_kschedule, reg_s1 = x, reg_s2 = y, core = cpu, machine = s\<rparr> =
      Leaves Interrupted s'"
    "IS_SLEEPING s' cpu" "CURRENT_TASK s' cpu = Some wt" "TCBS s' = TCBS s" "ready_order c s' = []"
    "pt_prio (PROCESS_INFO_TABLE s') 0 cpu = LOWEST_PRIORITY c + 1"
proof -
  note T = turn_okD [OF assms(1)]
  obtain s' where s': "kschedule c L E cpu s = Some (Inr (Inl Interrupted, s'))" "IS_SLEEPING s' cpu"
    "CURRENT_TASK s' cpu = Some wt" "pt_prio (PROCESS_INFO_TABLE s') 0 cpu = LOWEST_PRIORITY c + 1"
    "TCBS s' = TCBS s" "USER_SCHEDULER s' = USER_SCHEDULER s"
    using kschedule_asleep [OF T(1,6,4,5) ready_order_empty [OF kernel_okD(1) [OF T(1)] assms(2)] T(7) assms(3)]
    by blast
  show thesis
    by (rule that [of s']) (use s' assms(2) in \<open>simp_all add: loop_step_def ready_order_def rq_of_def sched_of_def\<close>)
qed

section \<open>On the instructions\<close>

definition riscv_running :: "riscv \<Rightarrow> task option" where
  "riscv_running st = (if riscv_at raw_run_task st then CURRENT_TASK (riscv_sys st) (hart st) else None)"

lemma riscv_rel_running:
  assumes "riscv_rel st ls" "loop_running ls = Some t"
  shows "riscv_running st = Some t"
proof -
  have "at ls = Raw_run_task" using assms(2) by (simp add: loop_running_def split: if_splits)
  with riscv_rel_runs_task(1) [OF assms(1)] assms show ?thesis
    by (auto simp: loop_running_def riscv_running_def riscv_rel_def)
qed

text \<open>
  C3: Every ready task runs, in the riscv instructions from \<^verbatim>\<open>raw_kschedule\<close> on: a core in the kernel
  without pending traps, whose ready tasks are coroutines that end or wait when they are polled,
  while no process publishes work, goes through \<^verbatim>\<open>raw_run_task\<close> once for each of them, in the
  order of the ready queue, and comes back to \<^verbatim>\<open>raw_kschedule\<close>; from there it sleeps. The tasks that
  ended have their value, are exited and freed, those that wait are blocked, no other task has
  changed, and the ready queue is empty.
\<close>

theorem ready_tasks_all_run:
  assumes "riscv_at raw_kschedule st" "gpr st S1 = 0" "hart st = cpu" "riscv_sys st = s"
    and "kernel_ok c L E cpu s" "memory_laws c L E live" "stacks_ok c L E live s" "IN_KERNEL s cpu"
    and "SCHEDULER_WAIT_CONTEXT s cpu = Some wt" "\<not> twq_pending 0 s cpu" "best_pid s cpu 0"
    and "\<And>j. pt_valid_at (PROCESS_INFO_TABLE s) j \<Longrightarrow> j \<noteq> 0 \<Longrightarrow>
      LOWEST_PRIORITY c < pt_prio (PROCESS_INFO_TABLE s) j cpu"
    and "distinct (ready_order c s)" "\<And>u. os_wfi E cpu u = None"
    and "\<And>t. t \<in> set (ready_order c s) \<Longrightarrow> runnable c E live cpu (TCBS s t) t (P t)"
  shows "\<exists>st' s'. serves (block_step (riscv_block c L E junk)) riscv_running (ready_order c s) st st' \<and>
    riscv_at raw_kschedule st' \<and> riscv_block c L E junk st' = Some (Leaves Interrupted s') \<and>
    TCBS s' = (\<lambda>t. if t \<in> set (ready_order c s) then after_poll (P t) (TCBS s t) else TCBS s t) \<and>
    ready_order c s' = [] \<and> IS_SLEEPING s' cpu \<and> CURRENT_TASK s' cpu = Some wt \<and>
    pt_prio (PROCESS_INFO_TABLE s') 0 cpu = LOWEST_PRIORITY c + 1"
proof -
  have ok: "turn_ok c L E live cpu wt s" using assms(5,7-12) by (simp add: turn_ok_def)
  obtain y' s1 where g: "serves (loop_step c L E) loop_running (ready_order c s)
      \<lparr>at = Raw_kschedule, reg_s1 = 0, reg_s2 = gpr st S2, core = cpu, machine = s\<rparr>
      \<lparr>at = Raw_kschedule, reg_s1 = 0, reg_s2 = y', core = cpu, machine = s1\<rparr>"
    "turn_ok c L E live cpu wt s1" "ready_order c s1 = []"
    "TCBS s1 = (\<lambda>t. if t \<in> set (ready_order c s) then after_poll (P t) (TCBS s t) else TCBS s t)"
    by (rule loop_serves [OF ok assms(6) refl assms(13,15)])
  obtain s' where l: "loop_step c L E \<lparr>at = Raw_kschedule, reg_s1 = 0, reg_s2 = y', core = cpu, machine = s1\<rparr> =
      Leaves Interrupted s'"
    "IS_SLEEPING s' cpu" "CURRENT_TASK s' cpu = Some wt" "TCBS s' = TCBS s1" "ready_order c s' = []"
    "pt_prio (PROCESS_INFO_TABLE s') 0 cpu = LOWEST_PRIORITY c + 1"
    by (rule loop_sleeps [OF g(2,3) assms(14)])
  have rel: "riscv_rel st \<lparr>at = Raw_kschedule, reg_s1 = 0, reg_s2 = gpr st S2, core = cpu, machine = s\<rparr>"
    using riscv_relI [OF assms(1)] assms(2-4) by simp
  obtain st' where st': "serves (block_step (riscv_block c L E junk)) riscv_running (ready_order c s) st st'"
    "riscv_rel st' \<lparr>at = Raw_kschedule, reg_s1 = 0, reg_s2 = y', core = cpu, machine = s1\<rparr>"
    using riscv_code.serves_complete [OF g(1) rel, of riscv_running] riscv_rel_running by blast
  have "riscv_at raw_kschedule st'" by (rule riscv_rel_runs_task(3) [OF st'(2)]) simp
  moreover have "riscv_block c L E junk st' = Some (Leaves Interrupted s')"
    by (rule riscv_code.block_leaves [OF st'(2) l(1)])
  ultimately show ?thesis using st'(1) g(4) l(2-6) by auto
qed

definition coroutines :: "sys \<Rightarrow> sys" where
  "coroutines s = s\<lparr>TCBS := (TCBS s)(41 := (example_tcb Ready)\<lparr>t_is_coroutine := True\<rparr>,
     42 := (example_tcb Ready)\<lparr>t_is_coroutine := True\<rparr>)\<rparr>"

definition riscv_two_ready :: riscv where
  "riscv_two_ready = \<lparr>gpr = (\<lambda>_. 0), riscv_pc = 19, hart = 0,
     riscv_sys = coroutines (example_sys (one_queue [41, 42]) (one_queue []) (\<lambda>_. []) 1 16)\<rparr>"

lemma ready_tasks_all_run_witness:
  "\<exists>st' s'. serves (block_step (riscv_block two_cores (list_lib two_cores) example_os (\<lambda>_ _. 7))) riscv_running
       [41, 42] riscv_two_ready st' \<and>
     riscv_block two_cores (list_lib two_cores) example_os (\<lambda>_ _. 7) st' = Some (Leaves Interrupted s') \<and>
     t_state (TCBS s' 41) = Blocked \<and> t_return_value (TCBS s' 42) = Some 7"
proof -
  let ?x = "example_sys (one_queue [41, 42]) (one_queue []) (\<lambda>_. []) 1 16"
  let ?s = "coroutines ?x" let ?P = "\<lambda>t. if t = 42 then Some 7 else None :: int option"
  have r: "riscv_at raw_kschedule riscv_two_ready" "gpr riscv_two_ready S1 = 0" "hart riscv_two_ready = 0"
    "riscv_sys riscv_two_ready = ?s"
    by (simp_all add: riscv_two_ready_def riscv_at_def riscv_labels)
  have "kernel_ok two_cores (list_lib two_cores) example_os 0 ?x"
    by (rule example_kernel_ok) (simp_all add: one_queue_def isize_MAX_def)
  from kernel_ok_awake(1) [OF kernel_ok_awake(1) [OF this, of 41 "(example_tcb Ready)\<lparr>t_is_coroutine := True\<rparr>"], of 42]
  have k: "kernel_ok two_cores (list_lib two_cores) example_os 0 ?s"
    by (simp add: coroutines_def example_sys_def example_tasks_def example_tcb_def)
  have st: "stacks_ok two_cores (list_lib two_cores) example_os stack_live ?s"
    using example_own example_memory_laws by (simp add: stacks_ok_def memory_laws_def coroutines_def)
  have v: "IN_KERNEL ?s 0" "SCHEDULER_WAIT_CONTEXT ?s 0 = Some 31" "\<not> twq_pending 0 ?s 0" "best_pid ?s 0 0"
    by (auto simp: coroutines_def best_pid_def twq_pending_def twq_of_def example_sys_def example_scheduler_def)
  have up: "LOWEST_PRIORITY two_cores < pt_prio (PROCESS_INFO_TABLE ?s) j 0"
    if "pt_valid_at (PROCESS_INFO_TABLE ?s) j" "j \<noteq> 0" for j
    using that by (auto simp: coroutines_def example_sys_def)
  have "rq_of ?s 0 = rq_of ?x 0" by (simp add: coroutines_def rq_of_def sched_of_def)
  then have o: "ready_order two_cores ?s = [41, 42]"
    by (simp add: ready_order_def fifo_order_def example_rq_abs upto.simps)
  have d: "distinct (ready_order two_cores ?s)" "\<And>u. os_wfi example_os 0 u = None"
    by (simp_all add: o example_os_def)
  have p: "runnable two_cores example_os stack_live 0 (TCBS ?s t) t (?P t)" if "t \<in> set (ready_order two_cores ?s)" for t
  proof -
    have "os_poll example_os t 0 u = (?P t, 0, u\<lparr>WORLD := WORLD u\<rparr>)" for u
      by (simp add: example_os_def)
    then have "poll_ends example_os stack_live 0 t (?P t)" unfolding poll_ends_def by blast
    moreover have "t = 41 \<or> t = 42" using that by (simp add: o)
    ultimately show ?thesis by (auto simp: runnable_def coroutines_def example_tcb_def)
  qed
  from ready_tasks_all_run [OF r k example_memory_laws st v up d p, of "\<lambda>_ _. 7"] show ?thesis
    by (fastforce simp: o after_poll_def)
qed

end
