(* ===== verification/Spec2Isabelle.thy ===== *)
theory Spec2Isabelle
  imports Component_Properties Ready_Queue_Smp Publish_Smp Handler_Smp Task_Properties Trap_Path Task_Ownership Ready_Run
begin

text \<open>
  A verification library for \<^verbatim>\<open>vsched2\<close>, a task scheduler that is compiled into a vDSO and shared
  by the kernel and its user processes. The program is modelled with the feature \<^verbatim>\<open>vdso_only\<close>, in
  which \<^verbatim>\<open>trap_wait_queue.rs\<close> uses \<^verbatim>\<open>main_loop::switch_vspace\<close>, for a target with 64-bit addresses.

  \<^bold>\<open>The program.\<close> Every space (the kernel, and the user half of every address space) has one
  \<^verbatim>\<open>Scheduler\<close>, which owns a \<^verbatim>\<open>ReadyQueue\<close> of tasks and a \<^verbatim>\<open>TrapWaitQueue\<close> of traps and calls them
  through a table of event sources. A scheduler publishes the priority of its most urgent work,
  core by core, in the global process table. A core enters the scheduler through a trap or a
  yielding thread, puts the task it ran away, chooses the process with the most urgent
  published priority, takes a task from that process's scheduler, changes address space,
  privilege level and stack, and runs the task; a trap handler is a task that the trap wait
  queue hands out while traps are pending. Where no process has work the core sleeps.

  \<^bold>\<open>Theories and code.\<close>
  \<^item> \<open>Prelude\<close>: panics as values, sequencing, machine integers, the constants of \<^verbatim>\<open>build.rs\<close>.
  \<^item> \<open>Heapless\<close>: the containers of the crate \<^verbatim>\<open>heapless\<close> as parameters with their documented laws,
    and list implementations that satisfy them.
  \<^item> \<open>Interface\<close> (\<^verbatim>\<open>src/interface.rs\<close>): task states and task control blocks.
  \<^item> \<open>Event_Source\<close> (\<^verbatim>\<open>schedule/event_source.rs\<close>): kernel and user addresses, the function table,
    and the contract of an event source, the locale \<open>event_source\<close>. It is interpreted on the ready
    queue in \<open>Ready_Queue\<close> and on the trap wait queue in \<open>Trap_Wait_Queue\<close>; the scheduler's lemmas
    rest on the facts of the two interpretations.
  \<^item> \<open>Ready_Queue\<close>, \<open>Ready_Queue_Smp\<close> (\<^verbatim>\<open>schedule/ready_queue.rs\<close>): the operations one after another,
    and cut into the steps at which cores interleave.
  \<^item> \<open>Process_Info\<close> (\<^verbatim>\<open>schedule/process_info.rs\<close>): the process table.
  \<^item> \<open>Stack_Handler\<close> (\<^verbatim>\<open>stack/handler.rs\<close>): the stacks of the cores; \<open>Core_Stacks\<close>: the contract between
    the stack handler and the code that moves a core from stack to stack, the locale \<open>core_stacks\<close>,
    interpreted on the model of the stack handler.
  \<^item> \<open>Current\<close> (\<^verbatim>\<open>current.rs\<close>): the record \<open>sys\<close> of all variables, shared and private; what the
    operating system does is the parameter \<open>os\<close>, the containers are the parameter \<open>lib\<close>.
  \<^item> \<open>Trap_Wait_Queue\<close>, \<open>Trap_Handler\<close> (\<^verbatim>\<open>schedule/trap_wait_queue.rs\<close>): the queue with its pool of
    idle handlers, and the function a handler runs; \<open>Handler_Smp\<close>: a handler's way from the core
    that puts it back into the pool to the core that takes it, as the steps of two cores.
  \<^item> \<open>Scheduler\<close>, \<open>Publish_Smp\<close> (\<^verbatim>\<open>schedule/scheduler.rs\<close>): the operations, and the steps at which
    cores interleave in them; \<open>Main_Loop\<close> (\<^verbatim>\<open>main_loop.rs\<close>), \<open>Api\<close> (\<^verbatim>\<open>api.rs\<close>).
  \<^item> \<open>Arch\<close>, \<open>Assembly\<close>, \<open>Riscv_Loop\<close>, \<open>X86_Loop\<close>, \<open>X86_32_Loop\<close> (\<^verbatim>\<open>arch/riscv.rs\<close>, \<^verbatim>\<open>arch/x86.rs\<close>):
    the loop that strings the functions of the main loop together, as a machine on its labels and
    as the instructions of riscv64, x86-64 and 32-bit x86. The contract between the two, that a block
    of instructions does what the machine does, is the locale \<open>block_machine\<close> of \<open>Assembly\<close>; each of
    the three programs interprets it.
  \<^item> \<open>Trampoline\<close> (the macros of \<^verbatim>\<open>arch\<close>, \<^verbatim>\<open>stack/trampoline.rs\<close>): the instructions that change the
    stack between two functions, on a memory of bytes.
  \<^item> \<open>Example\<close>: an operating system that satisfies every law named below, and machines with two
    cores, for the witnesses.
  \<^item> \<open>Task_Places\<close>, \<open>Task_Ownership\<close>: the places a task can be in, over all components, and the calls
    of several cores as steps of one transition system.
  \<^item> \<open>Component_Properties\<close>, \<open>Task_Properties\<close>, \<open>Arch_Properties\<close>, \<open>Trap_Path\<close>, \<open>Ready_Run\<close> and this
    theory: the properties that need several components; \<open>Trap_Path\<close> follows a trap, and a switch to
    another process, from the first instruction of the entry to the context the core leaves for;
    \<open>Ready_Run\<close> follows a core through all its ready tasks until it sleeps.

  \<^bold>\<open>How the code is translated.\<close> A function that may panic returns \<open>panic + 'a\<close>; one that may leave
  the scheduler for good returns \<open>exit + 'a\<close> inside. State is passed explicitly. A variable with
  one value per core is a function of the core's number; a pointer to a scheduler is the
  number of the space it lives in. The core an operation runs on, \<^verbatim>\<open>SMPVirtImpl::cpu_id()\<close>, is its
  argument \<open>cpu_id\<close>; where code of the system runs in between (polling a coroutine, handling a
  trap, waiting in a handler) the system says on which core it returns. The interrupt guard of
  the scheduler's locks saves and restores the interrupts of one core and has no effect where no
  foreign code runs inside; it is modelled where a handler sleeps inside it.

  \<^bold>\<open>What the lemmas show.\<close> The ready queue: its bitmap mirrors its lists (\<open>rq_inv\<close>), it refines a
  bounded list per priority (\<open>rq_abs\<close>, \<open>fifo_take\<close>, \<open>fifo_push\<close>), and under every interleaving no
  task is hidden (\<open>smp_inv\<close>), lost, taken twice or overtaken (\<open>rq_trace\<close>). The process table: a registered process lies in the window of the
  scan (\<open>pt_inv\<close>), registration returns, the scan gives a most urgent process, a dropped process is not chosen
  again. The stacks: none
  is held twice and all are allocated (\<open>own_inv\<close>), and the stack of a thread that gave up its core
  stays outside the handler until a core enters it again (\<open>stack_steps\<close>). The trap wait queue: its handlers are
  different, exist and are blocked or about to block (\<open>idle_inv\<close>), and under every interleaving no
  two cores run one handler (\<open>handler_inv\<close>). The scheduler: what it
  needs to be used by a core (\<open>sched_ok\<close>, \<open>kernel_ok\<close>), that it is established by the
  initialisation and kept by every operation, and what each publishes; under every interleaving no
  step panics and the scheduler stays in use (\<open>pub_sound\<close>), but a published priority may be stale. All
  components together: no task comes to be in two places (\<open>world\<close>, \<open>task_step\<close>). The main loop: how a
  trap gets through the entry, what the kernel and a user scheduler choose, that a core that
  sleeps has looked at all published work, what becomes of a coroutine, that all ready coroutines
  run in the order of the queue (\<open>turn_ok\<close> is kept from one turn of the loop to the next). The assembly: every block of
  instructions is a step of the loop, for every content of the registers a call may change, and the
  trampolines make the second function return where the first one was called from.

  \<^bold>\<open>Bounds.\<close> \<open>config_ok\<close> lists what a build must satisfy; the ready queue itself asserts at most
  64 priorities. Registering a process is stated while its counter of attempts is away from
  the wrap-around at \<open>2 ^ 64\<close>. The loops of \<^verbatim>\<open>kschedule\<close> and \<^verbatim>\<open>utok_schedule\<close> are partial functions;
  the properties say when they return, and \<open>None\<close> is a loop that does not. A busy-wait is a
  walk along the states a core sees, poll by poll (\<open>os_observed\<close>). The function of a trap handler
  never returns; it is modelled by the number of its iterations. Blocks of the assembly are run
  with 12 (riscv64) and 16 (both x86) instructions, more than the longest block has.

  \<^bold>\<open>The laws of what is not in the repository\<close>, each the documented behaviour of a trait or
  container: \<open>lib_laws\<close> (bounded queues, vectors and maps), \<open>stack_laws\<close> (\<^verbatim>\<open>Stack::alloc\<close> returns a
  stack not in use), \<open>handler_laws\<close> (\<^verbatim>\<open>TrapInfo::new_handler\<close> creates a new task and changes nothing
  else), \<open>from_task_laws\<close> (\<^verbatim>\<open>TrapInfo::from_task\<close> saves the trap in the system's memory), \<open>memory_laws\<close>
  (no allocation frees anything), \<open>user_data_laws\<close> (\<^verbatim>\<open>UserData\<close> translates to the requested space),
  \<open>level_laws\<close> (only the scheduler sets \<^verbatim>\<open>IN_KERNEL\<close>). \<open>Example\<close> shows that they hold together.
  \<open>task_laws\<close> collects what the calls of several cores need when each is one step: foreign code
  that runs inside a call changes nothing but what the call is for.

  \<^bold>\<open>Not modelled.\<close> The module files \<^verbatim>\<open>lib.rs\<close> and \<^verbatim>\<open>mod.rs\<close>, logging, and the code the macros of
  \<^verbatim>\<open>vdso_helper\<close> generate. The traps that arrive in user mode end in \<^verbatim>\<open>unimplemented!\<close> and \<^verbatim>\<open>todo!\<close> and
  are the value \<open>Not_implemented\<close>; \<^verbatim>\<open>set_pre_stack!\<close> is the riscv one, that of x86 being a \<^verbatim>\<open>todo!\<close>.
  The macros \<^verbatim>\<open>set_sp!\<close> and \<^verbatim>\<open>get_sp!\<close> and the function \<^verbatim>\<open>get_stack_type\<close>, which nothing calls. The trampolines
  rely on the frame pointer of the function that ends in them pointing at its frame, as the source
  notes; the compiler is not modelled. The operations of a scheduler, of its ready queue and of its pool of handlers are interleaved; a
  call of a source is one step of the first and cut further in the others. Registering sources while others read them
  waits for their lock and is not interleaved. The process table and the stacks are under one
  lock or written atomically, and their operations are taken as one step.
\<close>

section \<open>Traps\<close>

text \<open>
  C5: A synchronous trap of the running task, taken in the kernel, always gets through the entry:
  the task is blocked and queued with its trap behind the core's traps, the kernel publishes the
  highest priority for the core, the stack the trap came in on becomes the core's current stack,
  and another stack, whose base the core will trap to, waits for the next trap. No stack is held
  twice.
\<close>

theorem sync_trap_queues:
  assumes "kernel_ok c L E cpu s" "memory_laws c L E live" "from_task_laws E live"
    and "own_inv c live (KERNEL_STACKS s, WORLD s)" "\<not> IS_SLEEPING s cpu"
    and "trap_stack (KERNEL_STACKS s) cpu = Some ts" "current_stack (KERNEL_STACKS s) cpu = None"
    and "CURRENT_TASK s cpu = Some t" "t_state (TCBS s t) = Running"
    and "length (tw_queues (twq_of s 0) cpu) < TRAP_WAIT_QUEUE_SIZE c"
  shows "\<exists>info ns s'. trap_entry c L E cpu 0 0 s = Inr (1, s') \<and> kernel_ok c L E cpu s' \<and>
    t_state (TCBS s' t) = Blocked \<and> rq_of s' 0 = rq_of s 0 \<and>
    tw_queues (twq_of s' 0) =
      (tw_queues (twq_of s 0))(cpu := tw_queues (twq_of s 0) cpu @ [(info, Some t)]) \<and>
    pt_prio (PROCESS_INFO_TABLE s') 0 cpu = HIGHEST_PRIORITY c \<and>
    stacks_ok c L E live s' \<and> current_stack (KERNEL_STACKS s') cpu = Some ts \<and>
    trap_stack (KERNEL_STACKS s') cpu = Some ns \<and> SSCRATCH s' cpu = stk_base (os_stack E) ns"
  by (rule sync_trap_spec [OF assms(1-3) _ assms(5-10)]) (use assms(4) in \<open>auto\<close>)

lemma sync_trap_queues_witness:
  "\<exists>info s'. trap_entry two_cores (list_lib two_cores) example_os 0 0 0
       (example_sys (one_queue [41]) (one_queue []) (\<lambda>_. []) 16 16) = Inr (1, s') \<and>
     tw_queues (twq_of s' 0) 0 = [(info, Some 30)] \<and> t_state (TCBS s' 30) = Blocked"
proof -
  let ?s = "example_sys (one_queue [41]) (one_queue []) (\<lambda>_. []) 16 16"
  have k: "kernel_ok two_cores (list_lib two_cores) example_os 0 ?s"
    by (rule example_kernel_ok) (simp_all add: one_queue_def isize_MAX_def)
  have q: "tw_queues (twq_of ?s 0) 0 = []" by (simp add: twq_of_def example_sys_def example_scheduler_def)
  have v: "\<not> IS_SLEEPING ?s 0" "trap_stack (KERNEL_STACKS ?s) 0 = Some 3"
    "current_stack (KERNEL_STACKS ?s) 0 = None" "CURRENT_TASK ?s 0 = Some 30" "t_state (TCBS ?s 30) = Running"
    by (simp_all add: example_sys_def example_tasks_def example_tcb_def)
  from sync_trap_queues [OF k example_memory_laws example_from_task_laws example_own v] q
  show ?thesis by auto
qed

text \<open>
  C4: An interrupt that arrives while the kernel runs a kernel task always gets through the
  entry: the trap, which belongs to no task, is queued behind the core's traps, and the
  interrupted task is ready again, behind the tasks of its priority; the core keeps the stack
  of the interrupt as its current one and has another for the next trap.
\<close>

theorem irq_preempts:
  assumes "kernel_ok c L E cpu s" "memory_laws c L E live" "from_task_laws E live"
    and "own_inv c live (KERNEL_STACKS s, WORLD s)" "\<not> IS_SLEEPING s cpu"
    and "trap_stack (KERNEL_STACKS s) cpu = Some ts" "current_stack (KERNEL_STACKS s) cpu = None"
    and "CURRENT_TASK s cpu = Some t" "t_state (TCBS s t) = Running" "t_is_kernel (TCBS s t)"
    and "in_range c (t_priority (TCBS s t))"
    and "length (rq_abs c (rq_of s 0) (t_priority (TCBS s t))) < READY_QUEUE_SIZE c"
    and "length (tw_queues (twq_of s 0) cpu) < TRAP_WAIT_QUEUE_SIZE c"
  shows "\<exists>info s'. trap_entry c L E cpu 1 0 s = Inr (1, s') \<and> sched_ok c L E 0 cpu s' \<and>
    TCBS s' = (TCBS s)(t := (TCBS s t)\<lparr>t_state := Ready\<rparr>) \<and>
    rq_abs c (rq_of s' 0) = fifo_push (rq_abs c (rq_of s 0)) (t_priority (TCBS s t)) t \<and>
    tw_queues (twq_of s' 0) = (tw_queues (twq_of s 0))(cpu := tw_queues (twq_of s 0) cpu @ [(info, None)]) \<and>
    pt_prio (PROCESS_INFO_TABLE s') 0 cpu = HIGHEST_PRIORITY c \<and>
    stacks_ok c L E live s' \<and> current_stack (KERNEL_STACKS s') cpu = Some ts \<and>
    trap_stack (KERNEL_STACKS s') cpu \<noteq> None"
proof -
  let ?s0 = "s\<lparr>IN_KERNEL := (IN_KERNEL s)(cpu := True), IS_SLEEPING := (IS_SLEEPING s)(cpu := False)\<rparr>"
  note K = kernel_okD [OF assms(1)]
  obtain ns s1 where n: "next_trap_stack c L E cpu None ?s0 = Inr s1" "kernel_ok c L E cpu s1"
    "TCBS s1 = TCBS s" "CURRENT_TASK s1 = CURRENT_TASK s" "USER_SCHEDULER s1 = USER_SCHEDULER s"
    "stacks_ok c L E live s1" "trap_stack (KERNEL_STACKS s1) cpu = Some ns"
    "current_stack (KERNEL_STACKS s1) cpu = Some ts"
    by (rule trap_stack_kernel [of c L E cpu ?s0 live ts None])
      (use assms(1-7) kernel_ok_cong [OF assms(1), of ?s0] in auto)
  have v: "twq_of s1 0 = twq_of s 0" "rq_of s1 0 = rq_of s 0"
    using n(5) by (simp_all add: twq_of_def rq_of_def sched_of_def)
  obtain info w s2 where p: "push_trap_of c L E cpu t None s1 = Inr s2" "kernel_ok c L E cpu s2"
    "\<And>x. live (WORLD s1) x \<Longrightarrow> live w x" "s2 = trap_queued c cpu info None w s1"
    using push_trap_of_spec [OF n(2) assms(3), of t None] assms(13) unfolding v by metis
  have f: "TCBS s2 = TCBS s1" "CURRENT_TASK s2 = CURRENT_TASK s1"
    "KERNEL_STACKS s2 = KERNEL_STACKS s1" "WORLD s2 = w" "rq_of s2 0 = rq_of s1 0"
    "tw_queues (twq_of s2 0) = (tw_queues (twq_of s1 0))(cpu := tw_queues (twq_of s1 0) cpu @ [(info, None)])"
    using p(4) by simp_all
  have t2: "t_state (TCBS s2 t) = Running" using f(1) n(3) assms(9) by simp
  let ?s3 = "s2\<lparr>TCBS := (TCBS s2)(t := (TCBS s2 t)\<lparr>t_state := Ready\<rparr>)\<rparr>"
  have k3: "kernel_ok c L E cpu ?s3" by (rule kernel_ok_running(1) [OF p(2) t2])
  have r3: "rq_of ?s3 0 = rq_of s 0" using f(5) v(2) by (simp add: rq_of_def sched_of_def)
  have q3: "twq_of ?s3 0 = twq_of s2 0" by (simp add: twq_of_def)
  have p3: "t_priority (TCBS ?s3 t) = t_priority (TCBS s t)" using f(1) n(3) by simp
  obtain s4 where u: "Scheduler_push_task c L E 0 ?s3 cpu t = Inr (Inr (), s4)"
    "rq_abs c (rq_of s4 0) = fifo_push (rq_abs c (rq_of s 0)) (t_priority (TCBS s t)) t"
    "sched_ok c L E 0 cpu s4" "TCBS s4 = TCBS ?s3"
    "pt_prio (PROCESS_INFO_TABLE s4) (global_index (sched_of s4 0)) cpu = sc_prio c 0 s4 cpu"
    using Scheduler_push_task_room [OF kernel_okD(1) [OF k3], of t] assms(11,12) unfolding p3 r3 by metis
  note keep = push_task_keeps [OF u(1) kernel_okD(1) [OF k3]]
  have "sc_prio c 0 s4 cpu = HIGHEST_PRIORITY c" "global_index (sched_of s4 0) = 0"
    using keep f(6) q3 kernel_okD(3) [OF k3] by (simp_all add: sc_prio_def twq_pending_def)
  moreover have "stacks_ok c L E live s4"
    using stacks_ok_world [OF n(6)] keep(3,4) f(3,4) p(3) by simp
  moreover have "trap_entry c L E cpu 1 0 s = Inr (1, s4)"
    using K(7) assms(5,8,10) n(1,3,4) p(1) t2 f u(1) kernel_okD(5) [OF k3]
    by (simp add: trap_entry_def irq_trap_entry_def get_current_task_def set_state_from_running_def
        set_state_def push_prev_task_def Let_def)
  ultimately show ?thesis
    using u f n keep q3 v by (intro exI [of _ info] exI [of _ s4]) simp
qed

lemma irq_preempts_witness:
  "\<exists>info s'. trap_entry two_cores (list_lib two_cores) example_os 0 1 0
       (example_sys (one_queue [41]) (one_queue []) (\<lambda>_. []) 16 16) = Inr (1, s') \<and>
     tw_queues (twq_of s' 0) 0 = [(info, None)] \<and> rq_abs two_cores (rq_of s' 0) 1 = [41, 30]"
proof -
  let ?s = "example_sys (one_queue [41]) (one_queue []) (\<lambda>_. []) 16 16"
  have k: "kernel_ok two_cores (list_lib two_cores) example_os 0 ?s"
    by (rule example_kernel_ok) (simp_all add: one_queue_def isize_MAX_def)
  have q: "tw_queues (twq_of ?s 0) 0 = []" by (simp add: twq_of_def example_sys_def example_scheduler_def)
  have v: "\<not> IS_SLEEPING ?s 0" "trap_stack (KERNEL_STACKS ?s) 0 = Some 3"
    "current_stack (KERNEL_STACKS ?s) 0 = None" "CURRENT_TASK ?s 0 = Some 30" "t_state (TCBS ?s 30) = Running"
    "t_is_kernel (TCBS ?s 30)" "in_range two_cores (t_priority (TCBS ?s 30))"
    by (simp_all add: example_sys_def example_tasks_def example_tcb_def in_range_def)
  have p: "t_priority (TCBS ?s 30) = 1" by (simp add: example_sys_def example_tasks_def example_tcb_def)
  from irq_preempts [OF k example_memory_laws example_from_task_laws example_own v] q
  show ?thesis by (auto simp: p example_rq_abs fifo_push_def)
qed

text \<open>
  C34: An interrupt that wakes a sleeping core gets through the entry: the trap is queued behind
  the core's traps, the core is awake, the stack of the abandoned wait becomes the stack for
  the next trap, and no task changes and none is queued.
\<close>

theorem irq_wakes:
  assumes "kernel_ok c L E cpu s" "memory_laws c L E live" "from_task_laws E live"
    and "own_inv c live (KERNEL_STACKS s, WORLD s)" "IS_SLEEPING s cpu"
    and "trap_stack (KERNEL_STACKS s) cpu = Some ts" "current_stack (KERNEL_STACKS s) cpu = None"
    and "CURRENT_TASK s cpu = Some t" "loose c live (KERNEL_STACKS s, WORLD s) (t_thread_stack (TCBS s t))"
    and "length (tw_queues (twq_of s 0) cpu) < TRAP_WAIT_QUEUE_SIZE c"
  shows "\<exists>info s'. trap_entry c L E cpu 1 0 s = Inr (1, s') \<and> kernel_ok c L E cpu s' \<and>
    \<not> IS_SLEEPING s' cpu \<and> TCBS s' = TCBS s \<and> rq_of s' 0 = rq_of s 0 \<and>
    tw_queues (twq_of s' 0) = (tw_queues (twq_of s 0))(cpu := tw_queues (twq_of s 0) cpu @ [(info, None)]) \<and>
    stacks_ok c L E live s' \<and> current_stack (KERNEL_STACKS s') cpu = Some ts \<and>
    trap_stack (KERNEL_STACKS s') cpu = Some (t_thread_stack (TCBS s t)) \<and>
    SSCRATCH s' cpu = stk_base (os_stack E) (t_thread_stack (TCBS s t))"
proof -
  let ?s0 = "s\<lparr>IN_KERNEL := (IN_KERNEL s)(cpu := True), IS_SLEEPING := (IS_SLEEPING s)(cpu := False)\<rparr>"
  let ?ws = "t_thread_stack (TCBS s t)"
  note K = kernel_okD [OF assms(1)]
  obtain ns s1 where n: "next_trap_stack c L E cpu (Some ?ws) ?s0 = Inr s1" "kernel_ok c L E cpu s1"
    "stacks_ok c L E live s1" "trap_stack (KERNEL_STACKS s1) cpu = Some ns"
    "current_stack (KERNEL_STACKS s1) cpu = Some ts" "SSCRATCH s1 cpu = stk_base (os_stack E) ns"
    "TCBS s1 = TCBS s" "CURRENT_TASK s1 = CURRENT_TASK s" "USER_SCHEDULER s1 = USER_SCHEDULER s"
    "IS_SLEEPING s1 = IS_SLEEPING ?s0" "ns = ?ws"
    by (rule trap_stack_kernel [of c L E cpu ?s0 live ts "Some ?ws"])
      (use assms kernel_ok_cong [OF assms(1), of ?s0] in auto)
  have v: "twq_of s1 0 = twq_of s 0" "rq_of s1 0 = rq_of s 0"
    using n(9) by (simp_all add: twq_of_def rq_of_def sched_of_def)
  obtain info w s2 where p: "push_trap_of c L E cpu t None s1 = Inr s2" "kernel_ok c L E cpu s2"
    "\<And>x. live (WORLD s1) x \<Longrightarrow> live w x" "s2 = trap_queued c cpu info None w s1"
    using push_trap_of_spec [OF n(2) assms(3), of t None] assms(10) unfolding v by metis
  have "stacks_ok c L E live s2" using stacks_ok_world [OF n(3)] p(3,4) by simp
  moreover have "trap_entry c L E cpu 1 0 s = Inr (1, s2)"
    using K(7) assms(5,8) n(1) p(1)
    by (simp add: trap_entry_def irq_trap_entry_def get_current_task_def Let_def)
  ultimately show ?thesis
    using p(2,4) n v by (intro exI [of _ info] exI [of _ s2]) simp
qed

lemma irq_wakes_witness:
  "\<exists>info s'. trap_entry two_cores (list_lib two_cores) example_os 0 1 0
       ((example_sys (one_queue []) (one_queue []) (\<lambda>_. []) 16 16)\<lparr>IS_SLEEPING := (\<lambda>_. True)\<rparr>) = Inr (1, s') \<and>
     tw_queues (twq_of s' 0) 0 = [(info, None)] \<and> trap_stack (KERNEL_STACKS s') 0 = Some 40"
proof -
  let ?awake = "example_sys (one_queue []) (one_queue []) (\<lambda>_. []) 16 16"
  let ?s = "?awake\<lparr>IS_SLEEPING := (\<lambda>_. True)\<rparr>"
  have k0: "kernel_ok two_cores (list_lib two_cores) example_os 0 ?awake"
    by (rule example_kernel_ok) (simp_all add: one_queue_def isize_MAX_def)
  have k: "kernel_ok two_cores (list_lib two_cores) example_os 0 ?s"
    by (rule kernel_ok_cong [OF k0]) simp_all
  have o: "own_inv two_cores stack_live (KERNEL_STACKS ?s, WORLD ?s)"
    "loose two_cores stack_live (KERNEL_STACKS ?s, WORLD ?s) 40"
    using example_own example_loose by simp_all
  have v: "IS_SLEEPING ?s 0" "trap_stack (KERNEL_STACKS ?s) 0 = Some 3"
    "current_stack (KERNEL_STACKS ?s) 0 = None" "CURRENT_TASK ?s 0 = Some 30"
    "t_thread_stack (TCBS ?s 30) = 40" "tw_queues (twq_of ?s 0) 0 = []"
    by (simp_all add: example_sys_def example_tasks_def example_tcb_def twq_of_def example_scheduler_def)
  show ?thesis
    using irq_wakes [OF k example_memory_laws example_from_task_laws o(1) v(1-4)] o(2) v(5,6) by auto
qed

text \<open>
  C9: A core that goes to sleep and comes back from \<^verbatim>\<open>wfi\<close> without an interrupt (the instruction may
  return at any time) and then finds a task another core has pushed, runs it with its sleeping flag
  still set: a synchronous trap of that task then panics, whatever happens in between, as long as the
  flag stands.
\<close>

theorem wakeup_keeps_sleeping_flag:
  assumes "kernel_ok c L E cpu s" "best_pid s cpu 0" "SCHEDULER_WAIT_CONTEXT s cpu = Some w"
    and "\<not> twq_pending 0 s cpu" "\<not> rq_pending (rq_of s 0) cpu"
    and "\<And>j. pt_valid_at (PROCESS_INFO_TABLE s) j \<Longrightarrow> j \<noteq> 0 \<Longrightarrow>
      LOWEST_PRIORITY c < pt_prio (PROCESS_INFO_TABLE s) j cpu"
    and "os_wfi E cpu (to_sleep cpu w True (publish 0 (\<lambda>i. i = cpu) (LOWEST_PRIORITY c + 1) s)) = Some s1"
    and "IS_SLEEPING s1 cpu" "s2 = s1\<lparr>IRQ_ENABLED := (IRQ_ENABLED s1)(cpu := False)\<rparr>"
    and "kernel_ok c L E cpu s2" "best_pid s2 cpu 0" "\<not> twq_pending 0 s2 cpu"
    and "fifo_take c (rq_abs c (rq_of s2 0)) = (Some t, rest)" "t_pid (TCBS s2 t) < PROCESS_NUM c"
  shows "\<exists>s3. kschedule c L E cpu s = Some (Inr (Inr 0, s3)) \<and> CURRENT_TASK s3 cpu = Some t \<and>
    IS_SLEEPING s3 cpu \<and> (\<forall>u x. IS_SLEEPING u cpu \<longrightarrow> trap_entry c L E cpu 0 0 u \<noteq> Inr x)"
proof -
  note D = sched_okD [OF kernel_okD(1) [OF assms(10)]]
  obtain r p rq' where t: "take_ref c (rq_of s2 0) = ((r, p), rq')" by (metis prod.collapse)
  then have r: "r = Some t" using take_refines [OF D(1,8)] assms(13) by fastforce
  obtain s3 where k: "ktask_schedule c L E cpu 0 s2 = Inr (0, s3)" "CURRENT_TASK s3 cpu = Some t"
    using ktask_schedule_ready [OF assms(10,12) t [unfolded r] assms(14)] by blast
  have f: "IS_SLEEPING s3 cpu"
    using ktask_schedule_sleeping [OF assms(10,12) t [unfolded r] k(1)] assms(8,9) by simp
  obtain q where q: "process_schedule c L s2 0 cpu = Inr q" "q = 0"
    using process_schedule_kernel [OF assms(10)] assms(11) by metis
  have "kschedule c L E cpu s = Some (Inr (Inr 0, s3))"
    using kschedule_no_work [OF assms(1-6)] kschedule_loop_once [OF q(1), of E 0 s3] q(2) k(1) assms(7)
    by (simp flip: assms(9))
  moreover have "trap_entry c L E cpu 0 0 u \<noteq> Inr x" if "IS_SLEEPING u cpu" for u x
    using that by (simp add: trap_entry_def sync_trap_entry_def and_then_Inr_iff)
  ultimately show ?thesis using k(2) f by blast
qed

text \<open>A system whose core 0 sleeps until core 1 pushes the task 41, and wakes up without an interrupt.\<close>

definition awakened :: sys where
  "awakened = (example_sys (one_queue [41]) (one_queue []) (\<lambda>_. []) 1 16)\<lparr>IS_SLEEPING := (\<lambda>i. i = 0)\<rparr>"

definition wfi_os :: os where
  "wfi_os = example_os\<lparr>os_wfi := (\<lambda>cpu s. Some awakened)\<rparr>"

lemma wakeup_keeps_sleeping_flag_witness:
  "\<exists>s3. kschedule two_cores (list_lib two_cores) wfi_os 0
       (example_sys (one_queue []) (one_queue []) (\<lambda>_. []) 2 16) = Some (Inr (Inr 0, s3)) \<and>
     CURRENT_TASK s3 0 = Some 41 \<and> IS_SLEEPING s3 0"
proof -
  let ?s = "example_sys (one_queue []) (one_queue []) (\<lambda>_. []) 2 16"
  let ?a = "example_sys (one_queue [41]) (one_queue []) (\<lambda>_. []) 1 16"
  have quiet: "kernel_ok two_cores (list_lib two_cores) wfi_os 0 s"
    if "kernel_ok two_cores (list_lib two_cores) example_os 0 s" for s
    using that by (simp add: kernel_ok_def sched_ok_def twq_ok_def idle_inv_def handler_laws_def wfi_os_def
        cong: option.case_cong)
  have k0: "kernel_ok two_cores (list_lib two_cores) example_os 0 ?s"
    "kernel_ok two_cores (list_lib two_cores) example_os 0 ?a"
    by (rule example_kernel_ok; simp add: one_queue_def isize_MAX_def)+
  have k2: "kernel_ok two_cores (list_lib two_cores) example_os 0 awakened"
    by (rule kernel_ok_cong [OF k0(2)]) (simp_all add: awakened_def)
  have v: "best_pid ?s 0 0" "SCHEDULER_WAIT_CONTEXT ?s 0 = Some 31" "\<not> twq_pending 0 ?s 0"
    "best_pid awakened 0 0" "\<not> twq_pending 0 awakened 0" "IS_SLEEPING awakened 0"
    "t_pid (TCBS awakened 41) < PROCESS_NUM two_cores"
    by (auto simp: best_pid_def example_sys_def twq_pending_def twq_of_def example_scheduler_def awakened_def
        example_tasks_def example_tcb_def)
  have p: "\<And>j. pt_valid_at (PROCESS_INFO_TABLE ?s) j \<Longrightarrow> j \<noteq> 0 \<Longrightarrow>
      LOWEST_PRIORITY two_cores < pt_prio (PROCESS_INFO_TABLE ?s) j 0"
    by (auto simp: example_sys_def)
  have i: "awakened = awakened\<lparr>IRQ_ENABLED := (IRQ_ENABLED awakened)(0 := False)\<rparr>"
    by (simp add: awakened_def example_sys_def fun_upd_idem)
  have "rq_of awakened 0 = rq_of ?a 0" by (simp add: rq_of_def sched_of_def awakened_def)
  then have f: "fifo_take two_cores (rq_abs two_cores (rq_of awakened 0)) =
      (Some 41, (rq_abs two_cores (rq_of awakened 0))(1 := []))"
    by (simp add: example_rq_abs fifo_take_def fifo_top_def)
  have o: "os_wfi wfi_os 0 u = Some awakened" for u by (simp add: wfi_os_def)
  from wakeup_keeps_sleeping_flag [OF quiet [OF k0(1)] v(1-3) example_not_pending p o v(6) i quiet [OF k2] v(4,5) f v(7)]
  show ?thesis by blast
qed

section \<open>The scheduler's choice\<close>







text \<open>
  A kernel's loop that finds nothing to run on the core and no process with work for it
  ends, asleep: with the core's wait context current, \<^verbatim>\<open>IS_SLEEPING\<close> set, the kernel's idle
  priority published, and the next interrupt as its only way on.
\<close>

lemma kschedule_sleeps:
  assumes "kernel_ok c L E cpu s" "best_pid s cpu 0" "SCHEDULER_WAIT_CONTEXT s cpu = Some t"
    and "\<not> twq_pending 0 s cpu" "\<not> rq_pending (rq_of s 0) cpu"
    and "\<And>j. pt_valid_at (PROCESS_INFO_TABLE s) j \<Longrightarrow> j \<noteq> 0 \<Longrightarrow>
      LOWEST_PRIORITY c < pt_prio (PROCESS_INFO_TABLE s) j cpu"
    and "\<And>u. os_wfi E cpu u = None"
  shows "\<exists>s'. kschedule c L E cpu s = Some (Inr (Inl Interrupted, s')) \<and> IS_SLEEPING s' cpu \<and>
    CURRENT_TASK s' cpu = Some t \<and> pt_prio (PROCESS_INFO_TABLE s') 0 cpu = LOWEST_PRIORITY c + 1 \<and>
    TCBS s' = TCBS s \<and> USER_SCHEDULER s' = USER_SCHEDULER s"
  by (rule kschedule_asleep [OF assms])

lemma kschedule_sleeps_witness:
  "\<exists>s'. kschedule two_cores (list_lib two_cores) example_os 0
       (example_sys (one_queue []) (one_queue []) (\<lambda>_. []) 2 16) = Some (Inr (Inl Interrupted, s')) \<and>
     IS_SLEEPING s' 0 \<and> CURRENT_TASK s' 0 = Some 31"
proof -
  let ?s = "example_sys (one_queue []) (one_queue []) (\<lambda>_. []) 2 16"
  have k: "kernel_ok two_cores (list_lib two_cores) example_os 0 ?s"
    by (rule example_kernel_ok) (simp_all add: one_queue_def isize_MAX_def)
  have v: "best_pid ?s 0 0" "SCHEDULER_WAIT_CONTEXT ?s 0 = Some 31" "\<not> twq_pending 0 ?s 0"
    by (auto simp: best_pid_def example_sys_def twq_pending_def twq_of_def example_scheduler_def)
  from kschedule_sleeps [OF k v example_not_pending] show ?thesis
    by (auto simp: example_os_def example_sys_def)
qed

section \<open>The life of a process\<close>

text \<open>
  C10: Starting a process, from a table with a free slot and an address space without a
  scheduler: \<^verbatim>\<open>process_init\<close> registers it in a slot that was free, with its address space and
  its scheduler, and \<^verbatim>\<open>user_init\<close> completes the scheduler, which every core may then use from
  the kernel and from the process, and which is idle and published as idle. No other process
  and no other scheduler changes. Between the two calls the slot still publishes the
  priorities of the process that had it before.
\<close>

theorem process_starts:
  assumes "config_ok c" "lib_laws c L" "handler_laws E" "user_data_laws E" "CPU_NUM c < 2 ^ 62"
    and "\<And>x. os_get_user_addr E (Kern x) 1 (Some v) \<noteq> Null" "v \<noteq> 0" "cpu < CPU_NUM c" "IN_KERNEL s cpu"
    and "pt_inv c (PROCESS_INFO_TABLE s)" "pt_next_i (PROCESS_INFO_TABLE s) + PROCESS_NUM c + 1 < 2 ^ 64"
    and "j < PROCESS_NUM c" "\<not> pt_valid_at (PROCESS_INFO_TABLE s) j"
    and "USER_SCHEDULER s v = None" "STACK_HANDLER s v = None"
  shows "\<exists>pid s1 s2. process_init c L E cpu v s = Some (Inr (pid, s1)) \<and> user_init c L E cpu v s1 = Inr s2 \<and>
    \<not> pt_valid_at (PROCESS_INFO_TABLE s) pid \<and> pt_valid_at (PROCESS_INFO_TABLE s2) pid \<and>
    pi_vspace (pt_table (PROCESS_INFO_TABLE s2) ! pid) = Some v \<and>
    pi_scheduler (pt_table (PROCESS_INFO_TABLE s2) ! pid) = Some v \<and>
    (\<forall>i. pt_prio (PROCESS_INFO_TABLE s1) pid i = pt_prio (PROCESS_INFO_TABLE s) pid i) \<and>
    (\<forall>i < CPU_NUM c. pt_prio (PROCESS_INFO_TABLE s2) pid i = LOWEST_PRIORITY c + 1) \<and>
    sched_idle c v s2 \<and>
    (\<forall>i f g. i < CPU_NUM c \<longrightarrow> f i \<or> g i = v \<longrightarrow> sched_ok c L E v i (s2\<lparr>IN_KERNEL := f, ACTIVE_VSPACE := g\<rparr>)) \<and>
    (\<forall>k. k \<noteq> v \<longrightarrow> USER_SCHEDULER s2 k = USER_SCHEDULER s k) \<and>
    (\<forall>i. i \<noteq> pid \<longrightarrow> pt_table (PROCESS_INFO_TABLE s2) ! i = pt_table (PROCESS_INFO_TABLE s) ! i)"
proof -
  obtain pid pt rq where i: "process_init c L E cpu v s = Some (Inr (pid, s\<lparr>PROCESS_INFO_TABLE := pt,
      USER_SCHEDULER := (USER_SCHEDULER s)(v := Some \<lparr>sources = [], global_index = pid,
        s_ready_queue = rq, s_trap_wait_queue = TrapWaitQueue_new L\<rparr>),
      STACK_HANDLER := (STACK_HANDLER s)(v := Some (StackHandler_default (stacks_map L)))\<rparr>))"
    "\<not> pt_valid_at (PROCESS_INFO_TABLE s) pid" "registered_as pid v (PROCESS_INFO_TABLE s) pt"
    "pt_inv c pt" "rq_inv c rq" "\<forall>q \<in> set (queues rq). q = []"
    by (rule process_init_ok [OF assms(1,2,4,7,10-15)])
  let ?sc = "\<lparr>sources = [], global_index = pid, s_ready_queue = rq, s_trap_wait_queue = TrapWaitQueue_new L\<rparr>"
  let ?s1 = "s\<lparr>PROCESS_INFO_TABLE := pt, USER_SCHEDULER := (USER_SCHEDULER s)(v := Some ?sc),
      STACK_HANDLER := (STACK_HANDLER s)(v := Some (StackHandler_default (stacks_map L)))\<rparr>"
  note reg = i(3) [unfolded registered_as_def]
  have "pid < PROCESS_NUM c" using reg pt_invD(1) [OF assms(10)] by simp
  moreover have "user_addr_laws (os_get_user_addr E)" using assms(4) by (simp add: user_data_laws_def)
  ultimately obtain s2 where u: "init_sources c L E v (User v USER_SCHEDULER_var) v ?s1 cpu = Inr s2"
    "sched_idle c v s2" "\<forall>i f g. i < CPU_NUM c \<longrightarrow> f i \<or> g i = v \<longrightarrow>
      sched_ok c L E v i (s2\<lparr>IN_KERNEL := f, ACTIVE_VSPACE := g\<rparr>)"
    "\<forall>i < CPU_NUM c. pt_prio (PROCESS_INFO_TABLE s2) pid i = LOWEST_PRIORITY c + 1"
    "init_frame v pid ?s1 s2"
    using init_sources_ok [OF assms(1-3,5,8), of ?s1 v ?sc] assms(6,9) i(4-6) by auto
  have "sched_ok c L E v cpu (s2\<lparr>IN_KERNEL := \<lambda>_. True, ACTIVE_VSPACE := \<lambda>_. v\<rparr>)"
    using u(3) [rule_format, of cpu "\<lambda>_. True" "\<lambda>_. v"] assms(8) by simp
  from pt_invD(1) [OF sched_okD(7) [OF this]]
  have "length (pt_table (PROCESS_INFO_TABLE s2)) = PROCESS_NUM c" by simp
  then have "pt_valid_at (PROCESS_INFO_TABLE s2) pid \<and>
      pi_vspace (pt_table (PROCESS_INFO_TABLE s2) ! pid) = Some v \<and>
      pi_scheduler (pt_table (PROCESS_INFO_TABLE s2) ! pid) = Some v"
    using u(5) reg \<open>pid < PROCESS_NUM c\<close> by (simp add: init_frame_def pt_valid_at_def)
  moreover have "\<forall>k. k \<noteq> v \<longrightarrow> USER_SCHEDULER s2 k = USER_SCHEDULER s k"
    "\<forall>i. i \<noteq> pid \<longrightarrow> pt_table (PROCESS_INFO_TABLE s2) ! i = pt_table (PROCESS_INFO_TABLE s) ! i"
    using u(5) reg by (simp_all add: init_frame_def)
  moreover have "\<forall>i. pt_prio pt pid i = pt_prio (PROCESS_INFO_TABLE s) pid i"
    using reg by (simp add: pt_prio_def)
  ultimately show ?thesis
    using i(1,2) u(1-4) user_init_ok [OF assms(4,7,6), of c L cpu ?s1] by simp
qed

text \<open>The process table after a process has been dropped.\<close>

lemma process_drop_spec:
  assumes "kernel_ok c L E cpu s" "pid \<noteq> 0" "pid < PROCESS_NUM c" "pi_vspace (pt_table (PROCESS_INFO_TABLE s) ! pid) = Some v"
  obtains s' where "process_drop pid s = Inr s'" "process_drop pid s' = Inr s'" "kernel_ok c L E cpu s'"
    "DROPPED_VSPACES s' = DROPPED_VSPACES s @ [v]"
    "TCBS s' = TCBS s" "CURRENT_TASK s' = CURRENT_TASK s" "USER_SCHEDULER s' = USER_SCHEDULER s"
    "\<And>j. pt_valid_at (PROCESS_INFO_TABLE s') j \<longleftrightarrow> pt_valid_at (PROCESS_INFO_TABLE s) j \<and> j \<noteq> pid"
    "length (pt_table (PROCESS_INFO_TABLE s')) = length (pt_table (PROCESS_INFO_TABLE s))"
    "pi_scheduler (pt_table (PROCESS_INFO_TABLE s') ! pid) = pi_scheduler (pt_table (PROCESS_INFO_TABLE s) ! pid)"
    "\<And>k. sched_ok c L E k cpu s \<Longrightarrow> sched_ok c L E k cpu s'"
proof -
  note K = kernel_okD [OF assms(1)] note D = sched_okD [OF K(1)]
  let ?pt = "pt_update (\<lambda>e. e\<lparr>pi_vspace := None, pi_valid := False\<rparr>) pid (PROCESS_INFO_TABLE s)"
  let ?s' = "s\<lparr>PROCESS_INFO_TABLE := ?pt, DROPPED_VSPACES := DROPPED_VSPACES s @ [v]\<rparr>"
  have len: "pid < length (pt_table (PROCESS_INFO_TABLE s))" using assms(3) pt_invD(1) [OF D(7)] by simp
  note u = unregister_process_spec [OF D(7) assms(3)]
  have inv: "pt_inv c ?pt" using unregister_process_inv [OF D(7) assms(3,2) u] .
  have ok: "sched_ok c L E k cpu ?s'" if "sched_ok c L E k cpu s" for k
    using that inv by (simp add: sched_ok_def twq_ok_def in_kernel_def cong: option.case_cong)
  have "process_drop pid s = Inr ?s'" using u assms(4) by (simp add: process_drop_def)
  moreover have "process_drop pid ?s' = Inr ?s'"
    using len by (simp add: process_drop_def unregister_process_def pt_update_def index_def)
  moreover have "kernel_ok c L E cpu ?s'"
    using ok [OF K(1)] K(2-4) by (simp add: kernel_ok_def sched_of_def)
  ultimately show thesis
    by (rule that) (use len ok in \<open>auto simp: pt_valid_at_def\<close>)
qed

text \<open>
  C11: Dropping a process frees its slot and its address space, once, however often it is dropped:
  the process is never chosen again, and neither \<^verbatim>\<open>push_task\<close> nor \<^verbatim>\<open>push_task_into_process\<close> takes a
  task for it. But the slot keeps the address of its scheduler, and the way a preempted task takes
  does not look at the slot's validity: a task of the dropped process that is made ready is put
  into the scheduler of the dropped process, where no core will look for it.
\<close>

theorem process_dropped:
  assumes "kernel_ok c L E cpu s" "pid \<noteq> 0" "pid < PROCESS_NUM c"
    and "pi_vspace (pt_table (PROCESS_INFO_TABLE s) ! pid) = Some v"
    and "pi_scheduler (pt_table (PROCESS_INFO_TABLE s) ! pid) = Some u" "sched_ok c L E u cpu s"
    and "CURRENT_TASK s cpu = Some t" "\<not> t_is_kernel (TCBS s t)" "t_pid (TCBS s t) = pid"
    and "in_range c (t_priority (TCBS s t))" "length (rq_abs c (rq_of s u) (t_priority (TCBS s t))) < READY_QUEUE_SIZE c"
  shows "\<exists>s' s''. process_drop pid s = Inr s' \<and> process_drop pid s' = Inr s' \<and>
    DROPPED_VSPACES s' = DROPPED_VSPACES s @ [v] \<and> kernel_ok c L E cpu s' \<and>
    (\<forall>j. pt_valid_at (PROCESS_INFO_TABLE s') j \<longleftrightarrow> pt_valid_at (PROCESS_INFO_TABLE s) j \<and> j \<noteq> pid) \<and>
    (\<forall>i. \<not> best_pid s' i pid) \<and> push_task c L E cpu t s' = Inr (False, s') \<and>
    (\<forall>x. push_task_into_process c L E cpu x pid s' = Inr (False, s')) \<and>
    push_prev_task c L E cpu Ready s' = Inr s'' \<and>
    rq_abs c (rq_of s'' u) = fifo_push (rq_abs c (rq_of s u)) (t_priority (TCBS s t)) t"
proof -
  obtain s' where s': "process_drop pid s = Inr s'" "process_drop pid s' = Inr s'" "kernel_ok c L E cpu s'"
    "DROPPED_VSPACES s' = DROPPED_VSPACES s @ [v]"
    "TCBS s' = TCBS s" "CURRENT_TASK s' = CURRENT_TASK s" "USER_SCHEDULER s' = USER_SCHEDULER s"
    "\<And>j. pt_valid_at (PROCESS_INFO_TABLE s') j \<longleftrightarrow> pt_valid_at (PROCESS_INFO_TABLE s) j \<and> j \<noteq> pid"
    "length (pt_table (PROCESS_INFO_TABLE s')) = length (pt_table (PROCESS_INFO_TABLE s))"
    "pi_scheduler (pt_table (PROCESS_INFO_TABLE s') ! pid) = pi_scheduler (pt_table (PROCESS_INFO_TABLE s) ! pid)"
    "\<And>k. sched_ok c L E k cpu s \<Longrightarrow> sched_ok c L E k cpu s'"
    by (rule process_drop_spec [OF assms(1-4)]) blast
  have f: "TCBS s' = TCBS s" "CURRENT_TASK s' cpu = Some t" "rq_of s' u = rq_of s u"
    using s'(5-7) assms(7) by (simp_all add: rq_of_def sched_of_def)
  have len: "pid < length (pt_table (PROCESS_INFO_TABLE s'))"
    using assms(3) s'(9) pt_invD(1) [OF sched_okD(7) [OF kernel_okD(1) [OF assms(1)]]] by simp
  have gone: "\<not> pi_valid (pt_table (PROCESS_INFO_TABLE s') ! pid)" using s'(8) [of pid] len by (simp add: pt_valid_at_def)
  have "task_home s' t = Some u"
    using assms(5,8,9) s'(10) f(1) len by (simp add: task_home_def)
  then obtain s'' where "push_prev_task c L E cpu Ready s' = Inr s''"
    "rq_abs c (rq_of s'' u) = fifo_push (rq_abs c (rq_of s' u)) (t_priority (TCBS s' t)) t"
    by (rule push_prev_task_ready [OF f(2) _ s'(11) [OF assms(6)]]) (use assms(10,11) f in simp_all)
  moreover have "push_task c L E cpu t s' = Inr (False, s')"
    using assms(8,9) gone len f(1) by (simp add: push_task_def index_def)
  moreover have "push_task_into_process c L E cpu x pid s' = Inr (False, s')" for x
    using gone len by (simp add: push_task_into_process_def index_def)
  ultimately show ?thesis using s'(1-4,8) f by (auto simp: best_pid_def)
qed

lemma process_dropped_witness:
  "\<exists>s' s''. process_drop 1 ((example_sys (one_queue []) (one_queue []) (\<lambda>_. []) 16 16)
       \<lparr>TCBS := example_tasks(30 := (example_tcb Running)\<lparr>t_is_kernel := False, t_pid := 1\<rparr>)\<rparr>) = Inr s' \<and>
     DROPPED_VSPACES s' = [1] \<and> push_prev_task two_cores (list_lib two_cores) example_os 0 Ready s' = Inr s'' \<and>
     rq_abs two_cores (rq_of s'' 1) 1 = [30]"
proof -
  let ?x = "example_sys (one_queue []) (one_queue []) (\<lambda>_. []) 16 16"
  let ?tcb = "(example_tcb Running)\<lparr>t_is_kernel := False, t_pid := 1\<rparr>"
  let ?s = "?x\<lparr>TCBS := example_tasks(30 := ?tcb)\<rparr>"
  have x: "kernel_ok two_cores (list_lib two_cores) example_os 0 ?x"
    "sched_ok two_cores (list_lib two_cores) example_os 1 0 ?x"
    by (auto intro!: example_kernel_ok example_sched_ok simp: one_queue_def isize_MAX_def)
  have T: "TCBS ?x = example_tasks" "t_state (TCBS ?x 30) = Running"
    by (simp_all add: example_sys_def example_tasks_def example_tcb_def)
  have k: "kernel_ok two_cores (list_lib two_cores) example_os 0 ?s"
    using kernel_ok_running(1) [OF x(1) T(2), of ?tcb] T(1) by simp
  have "30 \<notin> set (idle_handlers (twq_of ?x 1))" by (simp add: twq_of_def example_sys_def example_scheduler_def)
  from sched_ok_set_tcb(1) [OF x(2) this, of ?tcb]
  have u: "sched_ok two_cores (list_lib two_cores) example_os 1 0 ?s" using T(1) by simp
  have p: "pi_vspace (pt_table (PROCESS_INFO_TABLE ?s) ! 1) = Some 1"
    "pi_scheduler (pt_table (PROCESS_INFO_TABLE ?s) ! 1) = Some 1" "(1 :: nat) \<noteq> 0" "1 < PROCESS_NUM two_cores"
    by (simp_all add: example_sys_def example_table_nth del: One_nat_def)
  have t: "CURRENT_TASK ?s 0 = Some 30" "\<not> t_is_kernel (TCBS ?s 30)" "t_pid (TCBS ?s 30) = 1"
    "t_priority (TCBS ?s 30) = 1" "DROPPED_VSPACES ?s = []" "t_priority (example_tcb Running) = 1"
    by (simp_all add: example_sys_def example_tcb_def)
  have a: "rq_abs two_cores (rq_of ?s 1) = (\<lambda>p. if p = 1 then [] else [])"
    using example_user_abs [of "one_queue []" "[]" "\<lambda>_. []" 16 16] by (simp add: rq_of_def sched_of_def)
  have r: "in_range two_cores (t_priority (TCBS ?s 30))"
    "length (rq_abs two_cores (rq_of ?s 1) (t_priority (TCBS ?s 30))) < READY_QUEUE_SIZE two_cores"
    by (simp_all only: t(4) a) (simp_all add: in_range_def)
  from process_dropped [OF k p(3,4,1,2) u t(1-3) r] show ?thesis
    by (auto simp: t(4-6) a fifo_push_def simp del: One_nat_def)
qed

text \<open>
  C12: \<^verbatim>\<open>kernel_init_main\<close>, on a machine where nothing is set up and with the boot stack in use,
  always succeeds: the kernel's scheduler is in use and idle, and the core runs in the kernel
  with its initial task and boot stack, a context to wait in and a stack for the first trap,
  no stack held twice.
\<close>

theorem kernel_init_main_boots:
  assumes "config_ok c" "lib_laws c L" "handler_laws E" "memory_laws c L E live"
    and "CPU_NUM c < 2 ^ 62" "cpu < CPU_NUM c" "USER_SCHEDULER s 0 = None"
    and "pt_inv c (PROCESS_INFO_TABLE s)" "\<not> IRQ_ENABLED s cpu"
    and "KERNEL_STACKS s = StackHandler_default (stacks_map L)" "live (WORLD s) x"
  shows "\<exists>s'. kernel_init_main c L E cpu x (Some t) s = Inr s' \<and> kernel_ok c L E cpu s' \<and>
    sched_idle c 0 s' \<and> IN_KERNEL s' cpu \<and> CURRENT_TASK s' cpu = Some t \<and>
    SCHEDULER_WAIT_CONTEXT s' cpu \<noteq> None \<and> CURRENT_VSPACE s' cpu = 0 \<and> stacks_ok c L E live s' \<and>
    current_stack (KERNEL_STACKS s') cpu = Some x \<and> trap_stack (KERNEL_STACKS s') cpu \<noteq> None"
  by (rule kernel_init_main_ok [OF assms, of t]) blast

text \<open>The machine before the kernel is initialised; the stack 3 is the boot stack.\<close>

definition boot_sys :: sys where
  "boot_sys = (example_sys [] [] (\<lambda>_. []) 0 0)
     \<lparr>PROCESS_INFO_TABLE := ProcessInfoTable_default two_cores, USER_SCHEDULER := (\<lambda>_. None),
      STACK_HANDLER := (\<lambda>_. None), KERNEL_SCHEDULER := None,
      KERNEL_STACKS := StackHandler_default (list_index_map 16)\<rparr>"

lemma boot_sys_sel:
  "USER_SCHEDULER boot_sys k = None" "pt_inv two_cores (PROCESS_INFO_TABLE boot_sys)"
  "\<not> IRQ_ENABLED boot_sys i" "stack_live (WORLD boot_sys) 3"
  "KERNEL_STACKS boot_sys = StackHandler_default (stacks_map (list_lib two_cores))"
  using default_pt_inv [of two_cores]
  by (simp_all add: boot_sys_def example_sys_def list_lib_def stack_live_def bit_set_bit_iff)

lemma kernel_init_main_boots_witness:
  "\<exists>s'. kernel_init_main two_cores (list_lib two_cores) example_os 0 3 (Some 30) boot_sys = Inr s' \<and>
     kernel_ok two_cores (list_lib two_cores) example_os 0 s' \<and> current_stack (KERNEL_STACKS s') 0 = Some 3"
proof -
  have "0 < CPU_NUM two_cores" by simp
  from kernel_init_main_boots [where x = 3 and t = 30, OF two_cores_ok(1) list_lib_laws example_handler_laws
      example_memory_laws two_cores_ok(2) this boot_sys_sel(1,2,3,5,4)]
  show ?thesis by blast
qed

lemma process_starts_witness:
  "\<exists>pid s1 s2. process_init two_cores (list_lib two_cores) example_os 0 5
       (example_sys (one_queue []) (one_queue []) (\<lambda>_. []) 16 16) = Some (Inr (pid, s1)) \<and>
     user_init two_cores (list_lib two_cores) example_os 0 5 s1 = Inr s2 \<and>
     sched_ok two_cores (list_lib two_cores) example_os 5 1 (s2\<lparr>IN_KERNEL := \<lambda>_. False, ACTIVE_VSPACE := \<lambda>_. 5\<rparr>)"
proof -
  let ?s = "example_sys (one_queue []) (one_queue []) (\<lambda>_. []) 16 16"
  have s: "IN_KERNEL ?s 0" "pt_next_i (PROCESS_INFO_TABLE ?s) + PROCESS_NUM two_cores + 1 < 2 ^ 64"
    "\<not> pt_valid_at (PROCESS_INFO_TABLE ?s) 2" "USER_SCHEDULER ?s 5 = None" "STACK_HANDLER ?s 5 = None"
    "pt_inv two_cores (PROCESS_INFO_TABLE ?s)" "os_get_user_addr example_os (Kern x) 1 (Some 5) \<noteq> Null" for x
    by (simp_all add: example_sys_def example_table_inv map_all_def example_os_def isize_MAX_def)
  have n: "0 < CPU_NUM two_cores" "2 < PROCESS_NUM two_cores" "(5 :: nat) \<noteq> 0" "1 < CPU_NUM two_cores" by simp_all
  from process_starts [OF two_cores_ok(1) list_lib_laws example_handler_laws example_user_data_laws two_cores_ok(2)
      s(7) n(3,1) s(1,6,2) n(2) s(3-5)] n(4)
  show ?thesis by (elim exE conjE) (intro exI conjI, assumption, assumption, simp)
qed

end
